(* ===== verification/Prelude.thy ===== *)
theory Prelude
  imports Main "HOL-Library.Word"
begin

text \<open>
  Shared vocabulary of the development: the machine types of the Rust sources, the
  little-endian byte codecs of \<^verbatim>\<open>u32::from_le_bytes\<close> and its relatives, and the generic
  lemmas on lists and words that the component theories use.
\<close>

unbundle bit_operations_syntax

type_synonym u8 = "8 word"
type_synonym u32 = "32 word"
type_synonym u64 = "64 word"
type_synonym usize = "64 word" \<comment> \<open>the pointer width of the x86-64 targets the code is built for\<close>
type_synonym f32 = "32 word" \<comment> \<open>an \<^verbatim>\<open>f32\<close> as its IEEE 754 binary32 bit pattern\<close>
type_synonym bytes = "u8 list"

named_theorems handle_defs \<open>definitions of the handlers and operations\<close>
named_theorems step_inv \<open>preservation of an invariant by one operation or step\<close>

section \<open>Little-endian byte codecs\<close>

fun le_bytes :: "nat \<Rightarrow> 'a::len word \<Rightarrow> bytes" where
  "le_bytes 0 w = []"
| "le_bytes (Suc n) w = ucast w # le_bytes n (drop_bit 8 w)"

fun of_le_bytes :: "bytes \<Rightarrow> 'a::len word" where
  "of_le_bytes [] = 0"
| "of_le_bytes (b # bs) = ucast b OR push_bit 8 (of_le_bytes bs)"

lemma length_le_bytes [simp]: "length (le_bytes n w) = n"
  by (induction n arbitrary: w) auto

lemma ucast_split_8:
  "ucast (ucast w :: u8) OR push_bit 8 (take_bit m (drop_bit 8 w)) = take_bit (8 + m) (w :: 'a::len word)"
  by (rule bit_word_eqI) (auto simp: bit_simps)

lemma of_le_bytes_le_bytes: "of_le_bytes (le_bytes n w) = take_bit (8 * n) (w :: 'a::len word)"
  by (induction n arbitrary: w) (simp_all add: ucast_split_8)

lemma of_le_bytes_le_bytes_32 [simp]: "of_le_bytes (le_bytes 4 w) = (w :: u32)"
  using of_le_bytes_le_bytes [of 4 w] by (simp add: take_bit_word_eq_self)

lemma of_le_bytes_le_bytes_64 [simp]: "of_le_bytes (le_bytes 8 w) = (w :: u64)"
  using of_le_bytes_le_bytes [of 8 w] by (simp add: take_bit_word_eq_self)

lemma bit_of_le_bytes_ge:
  "8 * length bs \<le> n \<Longrightarrow> \<not> bit (of_le_bytes bs :: 'a::len word) n"
  by (induction bs arbitrary: n) (auto simp: bit_simps dest!: bit_imp_le_length)

lemma le_bytes_of_le_bytes:
  "8 * length bs \<le> LENGTH('a::len) \<Longrightarrow> le_bytes (length bs) (of_le_bytes bs :: 'a word) = bs"
proof (induction bs)
  case Nil
  then show ?case by simp
next
  case (Cons b bs)
  let ?w = "of_le_bytes bs :: 'a word"
  have low: "ucast (ucast b OR push_bit 8 ?w :: 'a word) = b"
    using Cons.prems by (intro bit_word_eqI) (auto simp: bit_simps)
  have high: "drop_bit 8 (ucast b OR push_bit 8 ?w :: 'a word) = ?w"
  proof (rule bit_word_eqI)
    fix n
    assume "n < LENGTH('a)"
    moreover have "8 + n < LENGTH('a)" if "bit ?w n"
    proof -
      have "n < 8 * length bs"
        using that bit_of_le_bytes_ge not_less by blast
      with Cons.prems show ?thesis by simp
    qed
    moreover have "\<not> bit b (8 + n)"
      using bit_imp_le_length [of b "8 + n"] by auto
    ultimately show "bit (drop_bit 8 (ucast b OR push_bit 8 ?w :: 'a word)) n = bit ?w n"
      by (auto simp: bit_simps)
  qed
  from Cons show ?case by (simp add: low high del: drop_bit_or)
qed

section \<open>Lists\<close>

lemma map_eq_on_upt: "(\<And>i. i < n \<Longrightarrow> f i = g i) \<Longrightarrow> map f [0..<n] = map g [0..<n]"
  by auto

lemma map_upt_Suc_shift: "map f [0..<Suc n] = f 0 # map (\<lambda>i. f (Suc i)) [0..<n]"
  by (simp add: upt_conv_Cons del: upt_Suc) (simp only: map_Suc_upt [symmetric], simp add: comp_def)

text \<open>\<open>each_after P log\<close>: every entry of the log stands to what came before it as \<open>P\<close> says.\<close>

definition each_after :: "('a list \<Rightarrow> 'a \<Rightarrow> bool) \<Rightarrow> 'a list \<Rightarrow> bool" where
  "each_after P log \<longleftrightarrow> (\<forall>xs x ys. log = xs @ x # ys \<longrightarrow> P xs x)"

lemma each_after_Nil [simp]: "each_after P []"
  by (simp add: each_after_def)

lemma each_after_snoc [simp]: "each_after P (log @ [x]) \<longleftrightarrow> each_after P log \<and> P log x"
proof
  assume all: "each_after P (log @ [x])"
  have "P xs y" if "log = xs @ y # ys" for xs y ys
    using all that unfolding each_after_def by (metis append.assoc append_Cons)
  with all show "each_after P log \<and> P log x"
    unfolding each_after_def by blast
next
  assume all: "each_after P log \<and> P log x"
  have "P xs y" if "log @ [x] = xs @ y # ys" for xs y ys
  proof (cases ys rule: rev_cases)
    case Nil
    with all that show ?thesis by simp
  next
    case (snoc zs z)
    with that have "log = xs @ y # zs" by simp
    with all show ?thesis unfolding each_after_def by blast
  qed
  then show "each_after P (log @ [x])"
    unfolding each_after_def by blast
qed

lemma each_afterD: "each_after P (xs @ x # ys) \<Longrightarrow> P xs x"
  by (auto simp: each_after_def)

section \<open>Steps\<close>

lemma two_steps: "R a b \<Longrightarrow> R b c \<Longrightarrow> R\<^sup>*\<^sup>* a c"
  by (meson r_into_rtranclp rtranclp.rtrancl_into_rtrancl)

section \<open>Words\<close>

lemma unat_eq_of_nat: "n < 2 ^ LENGTH('a) \<Longrightarrow> unat (of_nat n :: 'a::len word) = n"
  by (simp add: unat_of_nat take_bit_nat_eq_self)

lemma unat_take_bit_mod: "unat (take_bit n w) = unat (w :: 'a::len word) mod 2 ^ n"
  by (metis take_bit_eq_mod unsigned_take_bit_eq)

lemma unat_and_mask: "unat (w AND mask n) = unat (w :: 'a::len word) mod 2 ^ n"
  by (simp only: take_bit_eq_mask [symmetric] unat_take_bit_mod)

lemma unat_of_nat_diff_64:
  assumes "j \<le> i" and "i - j < 2 ^ 64"
  shows "unat (of_nat i - of_nat j :: 64 word) = i - j"
proof -
  have "(of_nat i - of_nat j :: 64 word) = of_nat (i - j)"
    using assms(1) by simp
  then show ?thesis using assms(2) by (simp only: unat_eq_of_nat len_num0 len_num1 len_bit0 len_bit1) (simp add: unat_of_nat take_bit_nat_eq_self)
qed

end
