(* ===== verification/Stroke_Event.thy ===== *)
theory Stroke_Event
  imports Prelude
begin

text \<open>
  The shared-memory contract of \<^verbatim>\<open>shared-ipc/src/lib.rs\<close>: the action tags, the
  \<^verbatim>\<open>StrokeEvent\<close> record, the \<^verbatim>\<open>repr(C, align(64))\<close> layout of the event and of the ring
  header, and the byte image both processes read and write. The layout algorithm is the
  one of the Rust reference for \<^verbatim>\<open>repr(C)\<close>; the numbers that the source pins in
  \<^verbatim>\<open>abi_contract_truth_serum\<close> come out of it.
\<close>

section \<open>Action tags and the event\<close>

definition ACTION_DOWN :: u8 where "ACTION_DOWN = 0"
definition ACTION_MOVE :: u8 where "ACTION_MOVE = 1"
definition ACTION_UP :: u8 where "ACTION_UP = 2"

lemmas action_defs = ACTION_DOWN_def ACTION_MOVE_def ACTION_UP_def

record stroke_event =
  ev_session_id :: u32
  ev_timestamp :: u64
  ev_x :: f32
  ev_y :: f32
  ev_pressure :: f32
  ev_action :: u8
  ev_trace_id :: bytes
  ev_parent_span_id :: bytes

text \<open>The two array fields are \<^verbatim>\<open>[u8; 16]\<close> and \<^verbatim>\<open>[u8; 8]\<close>: their lengths are part of the type.\<close>

definition wf_event :: "stroke_event \<Rightarrow> bool" where
  "wf_event e \<longleftrightarrow> length (ev_trace_id e) = 16 \<and> length (ev_parent_span_id e) = 8"

section \<open>The repr(C) layout\<close>

text \<open>A field is its size and alignment, in declaration order.\<close>

type_synonym field_layout = "nat \<times> nat"

definition align_up :: "nat \<Rightarrow> nat \<Rightarrow> nat" where
  "align_up a off = (off + (a - 1)) div a * a"

fun repr_c_offsets :: "nat \<Rightarrow> field_layout list \<Rightarrow> nat list" where
  "repr_c_offsets off [] = []"
| "repr_c_offsets off ((sz, al) # fs) =
     align_up al off # repr_c_offsets (align_up al off + sz) fs"

fun repr_c_end :: "nat \<Rightarrow> field_layout list \<Rightarrow> nat" where
  "repr_c_end off [] = off"
| "repr_c_end off ((sz, al) # fs) = repr_c_end (align_up al off + sz) fs"

definition repr_c_align :: "nat \<Rightarrow> field_layout list \<Rightarrow> nat" where
  "repr_c_align min_align fs = fold max (map snd fs) min_align"

definition repr_c_size :: "nat \<Rightarrow> field_layout list \<Rightarrow> nat" where
  "repr_c_size min_align fs = align_up (repr_c_align min_align fs) (repr_c_end 0 fs)"

text \<open>\<^verbatim>\<open>StrokeEvent\<close>: u32, u64, three f32, u8, [u8; 16], [u8; 8], with \<^verbatim>\<open>align(64)\<close>.\<close>

definition stroke_event_fields :: "field_layout list" where
  "stroke_event_fields = [(4, 4), (8, 8), (4, 4), (4, 4), (4, 4), (1, 1), (16, 1), (8, 1)]"

definition stroke_event_size :: nat where
  "stroke_event_size = repr_c_size 64 stroke_event_fields"

definition stroke_event_align :: nat where
  "stroke_event_align = repr_c_align 64 stroke_event_fields"

definition RING_CAPACITY :: usize where "RING_CAPACITY = 131072"
definition INDEX_MASK :: usize where "INDEX_MASK = RING_CAPACITY - 1"

text \<open>\<^verbatim>\<open>CachePadded<AtomicUsize>\<close>: one 8-byte field under \<^verbatim>\<open>align(64)\<close>.\<close>

definition cache_padded_usize :: field_layout where
  "cache_padded_usize = (repr_c_size 64 [(8, 8)], repr_c_align 64 [(8, 8)])"

definition shared_ring_fields :: "field_layout list" where
  "shared_ring_fields =
     [cache_padded_usize, cache_padded_usize,
      (unat RING_CAPACITY * stroke_event_size, stroke_event_align)]"

definition shared_ring_size :: nat where
  "shared_ring_size = repr_c_size 64 shared_ring_fields"

lemmas layout_defs =
  align_up_def repr_c_align_def repr_c_size_def stroke_event_fields_def
  stroke_event_size_def stroke_event_align_def cache_padded_usize_def
  shared_ring_fields_def shared_ring_size_def RING_CAPACITY_def

section \<open>The byte image of an event\<close>

text \<open>
  Writing a field stores its bytes at its offset; the bytes between the fields are
  padding and keep whatever the memory held. Reading takes the same ranges back. Multi-byte
  numbers are little-endian, the byte order of the targets.
\<close>

definition put_bytes :: "nat \<Rightarrow> bytes \<Rightarrow> bytes \<Rightarrow> bytes" where
  "put_bytes off bs mem = take off mem @ bs @ drop (off + length bs) mem"

definition get_bytes :: "nat \<Rightarrow> nat \<Rightarrow> bytes \<Rightarrow> bytes" where
  "get_bytes off n mem = take n (drop off mem)"

definition field_bytes :: "stroke_event \<Rightarrow> bytes list" where
  "field_bytes e =
     [le_bytes 4 (ev_session_id e), le_bytes 8 (ev_timestamp e), le_bytes 4 (ev_x e),
      le_bytes 4 (ev_y e), le_bytes 4 (ev_pressure e), [ev_action e], ev_trace_id e,
      ev_parent_span_id e]"

fun put_fields :: "(nat \<times> bytes) list \<Rightarrow> bytes \<Rightarrow> bytes" where
  "put_fields [] mem = mem"
| "put_fields ((off, bs) # fs) mem = put_fields fs (put_bytes off bs mem)"

definition store_event :: "stroke_event \<Rightarrow> bytes \<Rightarrow> bytes" where
  "store_event e mem = put_fields (zip (repr_c_offsets 0 stroke_event_fields) (field_bytes e)) mem"

definition load_event :: "bytes \<Rightarrow> stroke_event" where
  "load_event mem =
     (let at = (\<lambda>i. get_bytes (repr_c_offsets 0 stroke_event_fields ! i)
                     (fst (stroke_event_fields ! i)) mem) in
      \<lparr>ev_session_id = of_le_bytes (at 0), ev_timestamp = of_le_bytes (at 1),
       ev_x = of_le_bytes (at 2), ev_y = of_le_bytes (at 3), ev_pressure = of_le_bytes (at 4),
       ev_action = hd (at 5), ev_trace_id = at 6, ev_parent_span_id = at 7\<rparr>)"

section \<open>Properties\<close>

lemma stroke_event_offsets:
  "repr_c_offsets 0 stroke_event_fields = [0, 8, 16, 20, 24, 28, 29, 45]"
  by (simp add: layout_defs)

lemma stroke_event_size_64 [simp]: "stroke_event_size = 64"
  by (simp add: layout_defs)

lemma stroke_event_align_64 [simp]: "stroke_event_align = 64"
  by (simp add: layout_defs)

lemma length_put_bytes: "off + length bs \<le> length mem \<Longrightarrow> length (put_bytes off bs mem) = length mem"
  by (simp add: put_bytes_def)

lemma get_put_same:
  "off + n \<le> length mem \<Longrightarrow> length bs = n \<Longrightarrow> get_bytes off n (put_bytes off bs mem) = bs"
  by (simp add: get_bytes_def put_bytes_def)

lemma get_put_before:
  "off + n \<le> off' \<Longrightarrow> off' + length bs \<le> length mem \<Longrightarrow>
   get_bytes off n (put_bytes off' bs mem) = get_bytes off n mem"
  by (simp add: get_bytes_def put_bytes_def take_drop min_def)

lemmas image_simps = get_put_same get_put_before length_put_bytes

text \<open>
  An event written into a slot by the producer is read back field for field by the
  consumer, whatever the slot held before: the multi-byte fields, the action byte and the two
  trace-context arrays, byte for byte.
\<close>

lemma load_store_event:
  assumes "wf_event e" and "length mem = stroke_event_size"
  shows "load_event (store_event e mem) = e"
  using assms
  by (simp add: wf_event_def load_event_def store_event_def stroke_event_offsets field_bytes_def
      image_simps) (simp add: stroke_event_fields_def image_simps)

text \<open>Reading back over a slot full of stale bytes.\<close>

definition traced_event :: stroke_event where
  "traced_event = \<lparr>ev_session_id = 0x01020304, ev_timestamp = 0x1122334455667788,
     ev_x = 0x3F800000, ev_y = 0xC0000000, ev_pressure = 0x3F800000, ev_action = ACTION_UP,
     ev_trace_id = replicate 16 0xAB, ev_parent_span_id = replicate 8 0xCD\<rparr>"

lemma load_store_event_example:
  "load_event (store_event traced_event (replicate 64 0xEE)) = traced_event"
  by (rule load_store_event) (simp_all add: wf_event_def traced_event_def)

end
