(* ===== verification/Channel.thy ===== *)
theory Channel
  imports Prelude
begin

text \<open>
  The interface between a producer and a consumer: a bounded FIFO queue. The abstract queue
  and its scripts are plain functions; the locale \<open>spsc_channel\<close> states what a provider
  promises of its \<open>push\<close> and \<open>pop\<close>, and proves once, for every provider, that running any
  script of calls gives the results of the abstract queue, that nothing is lost, duplicated or
  reordered, and that alternating push and pop never fails.
\<close>

section \<open>The abstract bounded queue\<close>

datatype 'e channel_op = Push 'e | Pop

datatype 'e channel_result = Pushed bool | Popped "'e option"

fun queue_op :: "nat \<Rightarrow> 'e channel_op \<Rightarrow> 'e list \<Rightarrow> 'e channel_result \<times> 'e list" where
  "queue_op cap (Push e) q = (if length q < cap then (Pushed True, q @ [e]) else (Pushed False, q))"
| "queue_op cap Pop q = (case q of [] \<Rightarrow> (Popped None, []) | e # es \<Rightarrow> (Popped (Some e), es))"

fun queue_script ::
    "nat \<Rightarrow> 'e channel_op list \<Rightarrow> 'e list \<Rightarrow> 'e channel_result list \<times> 'e list" where
  "queue_script cap [] q = ([], q)"
| "queue_script cap (x # xs) q =
     (case queue_op cap x q of (res, q1) \<Rightarrow>
        (case queue_script cap xs q1 of (rs, q2) \<Rightarrow> (res # rs, q2)))"

fun accepted :: "'e channel_op list \<Rightarrow> 'e channel_result list \<Rightarrow> 'e list" where
  "accepted (Push e # xs) (Pushed ok # rs) = (if ok then e # accepted xs rs else accepted xs rs)"
| "accepted (_ # xs) (_ # rs) = accepted xs rs"
| "accepted _ _ = []"

fun delivered :: "'e channel_result list \<Rightarrow> 'e list" where
  "delivered [] = []"
| "delivered (Popped (Some e) # rs) = e # delivered rs"
| "delivered (_ # rs) = delivered rs"

text \<open>Conservation: what was queued plus what was accepted is what was delivered plus what is queued.\<close>

lemma queue_script_conserves:
  "queue_script cap xs q = (rs, q') \<Longrightarrow> q @ accepted xs rs = delivered rs @ q'"
proof (induction xs arbitrary: q rs q')
  case Nil
  then show ?case by simp
next
  case (Cons x xs)
  then show ?case
    by (cases x) (fastforce split: prod.splits if_splits list.splits)+
qed

lemma queue_script_bounded:
  "queue_script cap xs q = (rs, q') \<Longrightarrow> length q \<le> cap \<Longrightarrow> length q' \<le> cap"
proof (induction xs arbitrary: q rs q')
  case Nil
  then show ?case by simp
next
  case (Cons x xs)
  then show ?case
    by (cases x) (fastforce split: prod.splits if_splits list.splits)+
qed

section \<open>Scripts on a provider\<close>

type_synonym ('e, 'p, 'r, 'f) push_fun = "'e \<Rightarrow> 'p \<Rightarrow> 'r \<Rightarrow> 'f + (string + unit) \<times> 'p \<times> 'r"
type_synonym ('e, 'c, 'r, 'f) pop_fun = "'c \<Rightarrow> 'r \<Rightarrow> 'f + 'e option \<times> 'c \<times> 'r"

fun script_op ::
    "('e, 'p, 'r, 'f) push_fun \<Rightarrow> ('e, 'c, 'r, 'f) pop_fun \<Rightarrow> 'e channel_op \<Rightarrow> 'p \<times> 'c \<times> 'r
       \<Rightarrow> 'f + 'e channel_result \<times> 'p \<times> 'c \<times> 'r" where
  "script_op ps po (Push e) (p, c, r) =
     (case ps e p r of Inl f \<Rightarrow> Inl f | Inr (res, p', r') \<Rightarrow> Inr (Pushed (\<not> isl res), p', c, r'))"
| "script_op ps po Pop (p, c, r) =
     (case po c r of Inl f \<Rightarrow> Inl f | Inr (res, c', r') \<Rightarrow> Inr (Popped res, p, c', r'))"

fun run_script ::
    "('e, 'p, 'r, 'f) push_fun \<Rightarrow> ('e, 'c, 'r, 'f) pop_fun \<Rightarrow> 'e channel_op list \<Rightarrow> 'p \<times> 'c \<times> 'r
       \<Rightarrow> 'f + 'e channel_result list \<times> 'p \<times> 'c \<times> 'r" where
  "run_script ps po [] s = Inr ([], s)"
| "run_script ps po (x # xs) s =
     (case script_op ps po x s of
        Inl f \<Rightarrow> Inl f
      | Inr (res, s1) \<Rightarrow>
          (case run_script ps po xs s1 of Inl f \<Rightarrow> Inl f | Inr (rs, s2) \<Rightarrow> Inr (res # rs, s2)))"

section \<open>The contract\<close>

locale spsc_channel =
  fixes ps :: "('e, 'p, 'r, 'f) push_fun"
    and po :: "('e, 'c, 'r, 'f) pop_fun"
    and queue :: "'r \<Rightarrow> 'e list"
    and cap :: nat
    and inv :: "'p \<Rightarrow> 'c \<Rightarrow> 'r \<Rightarrow> bool"
  assumes queue_bound: "inv p c r \<Longrightarrow> length (queue r) \<le> cap"
    and push_accepts: "inv p c r \<Longrightarrow> length (queue r) < cap \<Longrightarrow>
      \<exists>p' r'. ps e p r = Inr (Inr (), p', r') \<and> queue r' = queue r @ [e] \<and> inv p' c r'"
    and push_rejects: "inv p c r \<Longrightarrow> cap \<le> length (queue r) \<Longrightarrow>
      \<exists>p' m. ps e p r = Inr (Inl m, p', r) \<and> inv p' c r"
    and pop_takes: "inv p c r \<Longrightarrow> queue r = e # es \<Longrightarrow>
      \<exists>c' r'. po c r = Inr (Some e, c', r') \<and> queue r' = es \<and> inv p c' r'"
    and pop_idle: "inv p c r \<Longrightarrow> queue r = [] \<Longrightarrow>
      \<exists>c'. po c r = Inr (None, c', r) \<and> inv p c' r"
begin

lemma op_refines:
  assumes "inv p c r"
  shows "\<exists>p' c' r'. script_op ps po x (p, c, r) = Inr (fst (queue_op cap x (queue r)), p', c', r')
    \<and> queue r' = snd (queue_op cap x (queue r)) \<and> inv p' c' r'"
proof (cases x)
  case (Push e)
  show ?thesis
  proof (cases "length (queue r) < cap")
    case True
    with push_accepts [OF assms, of e] Push show ?thesis by auto
  next
    case False
    with push_rejects [OF assms, of e] Push show ?thesis by fastforce
  qed
next
  case Pop
  show ?thesis
  proof (cases "queue r")
    case Nil
    with pop_idle [OF assms] Pop show ?thesis by auto
  next
    case (Cons e es)
    with pop_takes [OF assms Cons] Pop show ?thesis by auto
  qed
qed

lemma script_refines:
  "inv p c r \<Longrightarrow>
   \<exists>p' c' r'. run_script ps po xs (p, c, r) = Inr (fst (queue_script cap xs (queue r)), p', c', r')
     \<and> queue r' = snd (queue_script cap xs (queue r)) \<and> inv p' c' r'"
proof (induction xs arbitrary: p c r)
  case Nil
  then show ?case by auto
next
  case (Cons x xs)
  obtain p1 c1 r1 where s1: "script_op ps po x (p, c, r) = Inr (fst (queue_op cap x (queue r)), p1, c1, r1)"
    and q1: "queue r1 = snd (queue_op cap x (queue r))" and i1: "inv p1 c1 r1"
    using op_refines [OF Cons.prems] by blast
  from Cons.IH [OF i1] show ?case
    by (auto simp: s1 q1 split: prod.splits)
qed

lemma script_conserves:
  assumes "inv p c r" and "run_script ps po xs (p, c, r) = Inr (rs, p', c', r')"
  shows "queue r @ accepted xs rs = delivered rs @ queue r'" and "length (queue r') \<le> cap"
proof -
  from script_refines [OF assms(1)] assms(2)
  have "queue_script cap xs (queue r) = (rs, queue r')" and "inv p' c' r'"
    by (metis Inr_inject Pair_inject prod.collapse)+
  then show "queue r @ accepted xs rs = delivered rs @ queue r'" and "length (queue r') \<le> cap"
    by (auto intro: queue_script_conserves queue_bound)
qed

end

end
