(* ===== verification/Shared_Ring.thy ===== *)
theory Shared_Ring
  imports Stroke_Event Channel
begin

text \<open>
  The single-producer single-consumer ring of \<^verbatim>\<open>shared-ipc/src/lib.rs\<close>: the shared memory
  (\<^verbatim>\<open>SharedRing\<close>), the two handles with their cached counters and the operations
  \<^verbatim>\<open>AegisProducer::push\<close> and \<^verbatim>\<open>CelerConsumer::pop\<close>, each as one atomic call. The
  counters are 64-bit words and wrap. Two failures that Rust would not report as an
  \<^verbatim>\<open>Err\<close> are values of the model: an index outside the slot array (a panic) and the read
  of a slot that was never written (undefined behaviour).
\<close>

section \<open>State\<close>

datatype ring_fault = IndexOutOfBounds nat | UninitRead nat

record shared_ring =
  ring_head :: usize
  ring_tail :: usize
  ring_events :: "nat \<Rightarrow> stroke_event option" \<comment> \<open>\<^verbatim>\<open>MaybeUninit\<close> slots: \<^term>\<open>None\<close> is not yet written\<close>

record aegis_producer =
  cached_tail :: usize

record celer_consumer =
  cached_head :: usize

text \<open>The state of a fresh memfd or zeroed allocation, and of the two constructors.\<close>

definition zeroed_ring :: shared_ring where
  "zeroed_ring = \<lparr>ring_head = 0, ring_tail = 0, ring_events = (\<lambda>_. None)\<rparr>"

definition AegisProducer_new :: aegis_producer where
  "AegisProducer_new = \<lparr>cached_tail = 0\<rparr>"

definition AegisProducer_clone :: "aegis_producer \<Rightarrow> aegis_producer" where
  "AegisProducer_clone self = \<lparr>cached_tail = cached_tail self\<rparr>"

definition CelerConsumer_new :: celer_consumer where
  "CelerConsumer_new = \<lparr>cached_head = 0\<rparr>"

section \<open>Operations\<close>

definition events_write :: "nat \<Rightarrow> stroke_event \<Rightarrow> shared_ring \<Rightarrow> ring_fault + shared_ring" where
  "events_write i e r =
     (if i < unat RING_CAPACITY then Inr (r\<lparr>ring_events := (ring_events r)(i \<mapsto> e)\<rparr>)
      else Inl (IndexOutOfBounds i))"

definition events_read :: "nat \<Rightarrow> shared_ring \<Rightarrow> ring_fault + stroke_event" where
  "events_read i r =
     (if i < unat RING_CAPACITY
      then (case ring_events r i of Some e \<Rightarrow> Inr e | None \<Rightarrow> Inl (UninitRead i))
      else Inl (IndexOutOfBounds i))"

type_synonym push_result = "string + unit" \<comment> \<open>\<^verbatim>\<open>Result<(), &'static str>\<close>\<close>

definition queue_full :: string where "queue_full = ''Queue Full''"

definition push_commit ::
    "usize \<Rightarrow> stroke_event \<Rightarrow> aegis_producer \<Rightarrow> shared_ring
       \<Rightarrow> ring_fault + push_result \<times> aegis_producer \<times> shared_ring" where
  "push_commit current_head event self ring =
     (let index = unat (current_head AND INDEX_MASK) in
      case events_write index event ring of
        Inl f \<Rightarrow> Inl f
      | Inr ring' \<Rightarrow> Inr (Inr (), self, ring'\<lparr>ring_head := current_head + 1\<rparr>))"

definition push ::
    "stroke_event \<Rightarrow> aegis_producer \<Rightarrow> shared_ring
       \<Rightarrow> ring_fault + push_result \<times> aegis_producer \<times> shared_ring" where
  "push event self ring =
     (let current_head = ring_head ring in
      if RING_CAPACITY \<le> current_head - cached_tail self then
        (let self' = self\<lparr>cached_tail := ring_tail ring\<rparr> in
         if RING_CAPACITY \<le> current_head - cached_tail self'
         then Inr (Inl queue_full, self', ring)
         else push_commit current_head event self' ring)
      else push_commit current_head event self ring)"

definition pop_commit ::
    "usize \<Rightarrow> celer_consumer \<Rightarrow> shared_ring
       \<Rightarrow> ring_fault + stroke_event option \<times> celer_consumer \<times> shared_ring" where
  "pop_commit current_tail self ring =
     (let index = unat (current_tail AND INDEX_MASK) in
      case events_read index ring of
        Inl f \<Rightarrow> Inl f
      | Inr event \<Rightarrow> Inr (Some event, self, ring\<lparr>ring_tail := current_tail + 1\<rparr>))"

definition pop ::
    "celer_consumer \<Rightarrow> shared_ring
       \<Rightarrow> ring_fault + stroke_event option \<times> celer_consumer \<times> shared_ring" where
  "pop self ring =
     (let current_tail = ring_tail ring in
      if cached_head self - current_tail = 0 then
        (let self' = self\<lparr>cached_head := ring_head ring\<rparr> in
         if cached_head self' - current_tail = 0 then Inr (None, self', ring)
         else pop_commit current_tail self' ring)
      else pop_commit current_tail self ring)"

section \<open>Abstraction and invariants\<close>

definition capacity :: nat where "capacity = unat RING_CAPACITY"

definition slot_of :: "usize \<Rightarrow> nat" where
  "slot_of w = unat (w AND INDEX_MASK)"

definition ring_len :: "shared_ring \<Rightarrow> nat" where
  "ring_len r = unat (ring_head r - ring_tail r)"

text \<open>The queue a ring stands for: the slots from tail to head, in order.\<close>

definition queue_of :: "shared_ring \<Rightarrow> stroke_event list" where
  "queue_of r = map (\<lambda>i. the (ring_events r (slot_of (ring_tail r + of_nat i)))) [0..<ring_len r]"

definition ring_inv :: "shared_ring \<Rightarrow> bool" where
  "ring_inv r \<longleftrightarrow> ring_len r \<le> capacity \<and>
     (\<forall>i < ring_len r. ring_events r (slot_of (ring_tail r + of_nat i)) \<noteq> None)"

text \<open>
  A producer handle may lag behind the consumer but never run ahead of it: the free space
  it believes in is at most the free space there is. \<open>producer_inv\<close> is what the only handle
  of a ring also keeps: it never lags by more than the capacity.
\<close>

definition producer_safe :: "aegis_producer \<Rightarrow> shared_ring \<Rightarrow> bool" where
  "producer_safe p r \<longleftrightarrow> ring_len r \<le> unat (ring_head r - cached_tail p)"

definition producer_inv :: "aegis_producer \<Rightarrow> shared_ring \<Rightarrow> bool" where
  "producer_inv p r \<longleftrightarrow> producer_safe p r \<and> unat (ring_head r - cached_tail p) \<le> capacity"

definition consumer_inv :: "celer_consumer \<Rightarrow> shared_ring \<Rightarrow> bool" where
  "consumer_inv c r \<longleftrightarrow> unat (cached_head c - ring_tail r) \<le> ring_len r"

definition spsc_inv :: "aegis_producer \<Rightarrow> celer_consumer \<Rightarrow> shared_ring \<Rightarrow> bool" where
  "spsc_inv p c r \<longleftrightarrow> ring_inv r \<and> producer_inv p r \<and> consumer_inv c r"

lemmas op_defs [handle_defs] =
  push_def push_commit_def pop_def pop_commit_def events_write_def events_read_def

lemmas inv_defs =
  ring_inv_def producer_inv_def producer_safe_def consumer_inv_def spsc_inv_def

section \<open>Slots and counters\<close>

lemma capacity_eq [simp]: "capacity = 131072"
  by (simp add: capacity_def RING_CAPACITY_def)

lemma INDEX_MASK_eq: "INDEX_MASK = mask 17"
  by (simp add: INDEX_MASK_def RING_CAPACITY_def mask_eq_exp_minus_1)

lemma slot_of_mod: "slot_of w = unat w mod 131072"
  by (simp add: slot_of_def INDEX_MASK_eq flip: take_bit_eq_mask)
     (simp add: unat_take_bit_mod)

text \<open>The masked index is inside the array: the bounds check of the source never fails.\<close>

lemma slot_of_less [simp]: "slot_of w < 131072"
  by (simp add: slot_of_mod)

lemma slot_of_add: "slot_of (w + of_nat i) = (unat w + i) mod 131072"
proof -
  have "unat (w + of_nat i) = (unat w + i) mod 2 ^ 64"
    by (simp add: unat_word_ariths unat_of_nat mod_add_right_eq take_bit_eq_mod)
  then show ?thesis by (simp add: slot_of_mod mod_mod_cancel)
qed

lemma mod_eq_close:
  assumes "(a + i) mod n = (a + j) mod (n :: nat)" and "i < j" and "j < i + n"
  shows False
proof -
  have "n dvd (a + j) - (a + i)"
    using assms(1,2) by (intro iffD1 [OF mod_eq_dvd_iff_nat]) auto
  with assms(2,3) show False by (auto dest: dvd_imp_le)
qed

lemma slot_of_inj:
  assumes "slot_of (w + of_nat i) = slot_of (w + of_nat j)"
    and "i < j + 131072" and "j < i + 131072"
  shows "i = j"
proof (rule ccontr)
  assume "i \<noteq> j"
  then consider "i < j" | "j < i" by linarith
  then show False
    using assms mod_eq_close [of "unat w" i 131072 j] mod_eq_close [of "unat w" j 131072 i]
    by cases (auto simp: slot_of_add)
qed

lemma unat_Suc_diff:
  fixes h t :: usize
  assumes "unat (h - t) < 2 ^ 64 - 1"
  shows "unat (h + 1 - t) = Suc (unat (h - t))"
proof -
  have "unat ((h - t) + 1) = Suc (unat (h - t))"
    using assms by (simp add: unat_word_ariths)
  then show ?thesis by (simp add: algebra_simps)
qed

section \<open>Push and pop on the abstract queue\<close>

lemma length_queue_of [simp]: "length (queue_of r) = ring_len r"
  by (simp add: queue_of_def)

lemma capacity_le_iff: "RING_CAPACITY \<le> w \<longleftrightarrow> 131072 \<le> unat w"
  by (simp add: RING_CAPACITY_def word_le_nat_alt)

lemma tail_plus_len [simp]: "ring_tail r + of_nat (ring_len r) = ring_head r"
  by (simp add: ring_len_def)

text \<open>Writing the slot at the head leaves the queued slots alone, as long as the ring is not full.\<close>

lemma head_slot_fresh:
  assumes "ring_len r < 131072" and "i < ring_len r"
  shows "slot_of (ring_tail r + of_nat i) \<noteq> slot_of (ring_head r)"
proof
  assume "slot_of (ring_tail r + of_nat i) = slot_of (ring_head r)"
  then have "slot_of (ring_tail r + of_nat i) = slot_of (ring_tail r + of_nat (ring_len r))"
    by (simp only: tail_plus_len)
  then have "i = ring_len r"
    by (rule slot_of_inj) (use assms in simp_all)
  with assms show False by simp
qed

definition pushed_ring :: "stroke_event \<Rightarrow> shared_ring \<Rightarrow> shared_ring" where
  "pushed_ring e r = r\<lparr>ring_events := (ring_events r)(slot_of (ring_head r) \<mapsto> e),
                      ring_head := ring_head r + 1\<rparr>"

lemma push_commit_eq: "push_commit (ring_head r) e p r = Inr (Inr (), p, pushed_ring e r)"
  by (simp add: push_commit_def events_write_def pushed_ring_def Let_def flip: slot_of_def capacity_def)

lemma ring_tail_pushed [simp]: "ring_tail (pushed_ring e r) = ring_tail r"
  and ring_head_pushed [simp]: "ring_head (pushed_ring e r) = ring_head r + 1"
  by (simp_all add: pushed_ring_def)

lemma ring_events_pushed:
  "ring_events (pushed_ring e r) i = (if i = slot_of (ring_head r) then Some e else ring_events r i)"
  by (simp add: pushed_ring_def)

lemma ring_len_pushed [simp]:
  "ring_len r < 131072 \<Longrightarrow> ring_len (pushed_ring e r) = Suc (ring_len r)"
  by (simp add: ring_len_def unat_Suc_diff)

lemma queue_of_pushed: "ring_len r < 131072 \<Longrightarrow> queue_of (pushed_ring e r) = queue_of r @ [e]"
  using head_slot_fresh [of r] by (simp add: queue_of_def ring_events_pushed)

lemma ring_inv_pushed [step_inv]:
  "ring_inv r \<Longrightarrow> ring_len r < 131072 \<Longrightarrow> ring_inv (pushed_ring e r)"
  by (auto simp: ring_inv_def ring_events_pushed less_Suc_eq)

text \<open>The free space a safe handle sees is really there.\<close>

lemma producer_safe_room:
  "producer_safe p r \<Longrightarrow> \<not> RING_CAPACITY \<le> ring_head r - cached_tail p \<Longrightarrow> ring_len r < 131072"
  by (simp add: producer_safe_def capacity_le_iff)

lemma refreshed_full_iff:
  "RING_CAPACITY \<le> ring_head r - cached_tail (p\<lparr>cached_tail := ring_tail r\<rparr>) \<longleftrightarrow> 131072 \<le> ring_len r"
  by (simp add: ring_len_def capacity_le_iff)

lemma push_room:
  assumes "producer_safe p r" and "ring_len r < 131072"
  obtains p' where "push e p r = Inr (Inr (), p', pushed_ring e r)"
    and "p' = p \<and> unat (ring_head r - cached_tail p) < 131072 \<or> cached_tail p' = ring_tail r"
proof (cases "RING_CAPACITY \<le> ring_head r - cached_tail p")
  case True
  with assms(2) show thesis
    using refreshed_full_iff [of r p]
    by (intro that [of "p\<lparr>cached_tail := ring_tail r\<rparr>"]) (simp_all add: push_def push_commit_eq)
next
  case False
  then show thesis
    by (intro that [of p]) (simp_all add: push_def push_commit_eq capacity_le_iff)
qed

lemma push_full:
  assumes "producer_safe p r" and "131072 \<le> ring_len r"
  shows "push e p r = Inr (Inl queue_full, p\<lparr>cached_tail := ring_tail r\<rparr>, r)"
proof -
  have "RING_CAPACITY \<le> ring_head r - cached_tail p"
    using assms producer_safe_room not_less by blast
  with assms(2) show ?thesis by (simp add: push_def refreshed_full_iff [simplified])
qed

section \<open>Pop\<close>

definition popped_ring :: "shared_ring \<Rightarrow> shared_ring" where
  "popped_ring r = r\<lparr>ring_tail := ring_tail r + 1\<rparr>"

lemma ring_popped [simp]:
  "ring_head (popped_ring r) = ring_head r"
  "ring_tail (popped_ring r) = ring_tail r + 1"
  "ring_events (popped_ring r) = ring_events r"
  by (simp_all add: popped_ring_def)

lemma unat_diff_Suc:
  fixes h t :: usize
  assumes "0 < unat (h - t)"
  shows "unat (h - (t + 1)) = unat (h - t) - 1"
proof -
  have "h - t \<noteq> 0"
    using assms by auto
  then have "unat ((h - t) - 1) = unat (h - t) - 1"
    by (rule unat_minus_one)
  then show ?thesis by (simp add: algebra_simps)
qed

lemma ring_len_popped [simp]: "0 < ring_len r \<Longrightarrow> ring_len (popped_ring r) = ring_len r - 1"
  by (simp add: ring_len_def unat_diff_Suc)

lemma queue_of_popped:
  assumes "0 < ring_len r"
  shows "queue_of r = the (ring_events r (slot_of (ring_tail r))) # queue_of (popped_ring r)"
proof -
  from assms obtain n where n: "ring_len r = Suc n"
    using gr0_conv_Suc by blast
  then show ?thesis
    using assms by (simp add: queue_of_def map_upt_Suc_shift algebra_simps del: upt_Suc)
qed

lemma ring_inv_popped [step_inv]:
  assumes "ring_inv r" and "0 < ring_len r"
  shows "ring_inv (popped_ring r)"
proof -
  have "ring_events r (slot_of (ring_tail r + 1 + of_nat i)) \<noteq> None" if "i < ring_len r - 1" for i
  proof -
    have "Suc i < ring_len r"
      using that by simp
    with assms(1) have "ring_events r (slot_of (ring_tail r + of_nat (Suc i))) \<noteq> None"
      unfolding ring_inv_def by blast
    then show ?thesis by (simp add: algebra_simps)
  qed
  with assms show ?thesis by (auto simp: ring_inv_def)
qed

lemma pop_commit_eq:
  assumes "ring_inv r" and "0 < ring_len r"
  shows "pop_commit (ring_tail r) c r = Inr (Some (hd (queue_of r)), c, popped_ring r)"
proof -
  from assms obtain e where "ring_events r (slot_of (ring_tail r + of_nat 0)) = Some e"
    unfolding ring_inv_def by blast
  then show ?thesis
    using queue_of_popped [OF assms(2)]
    by (simp add: pop_commit_def events_read_def popped_ring_def Let_def flip: slot_of_def capacity_def)
qed

lemma pop_some:
  assumes "ring_inv r" and "consumer_inv c r" and "0 < ring_len r"
  obtains c' where "pop c r = Inr (Some (hd (queue_of r)), c', popped_ring r)"
    and "c' = c \<and> cached_head c \<noteq> ring_tail r \<or> cached_head c' = ring_head r"
proof -
  have "ring_head r \<noteq> ring_tail r"
    using assms(3) by (auto simp: ring_len_def)
  then have "pop c r = Inr (Some (hd (queue_of r)),
      if cached_head c = ring_tail r then c\<lparr>cached_head := ring_head r\<rparr> else c, popped_ring r)"
    using assms by (simp add: pop_def pop_commit_eq)
  then show thesis by (rule that) simp
qed

lemma pop_none:
  assumes "consumer_inv c r" and "ring_len r = 0"
  shows "pop c r = Inr (None, c\<lparr>cached_head := ring_head r\<rparr>, r)"
  using assms by (auto simp: pop_def consumer_inv_def ring_len_def unat_eq_0)

section \<open>The ring provides the channel\<close>

lemma producer_inv_pushed:
  assumes "producer_inv p r" and "ring_len r < 131072"
    and "p' = p \<and> unat (ring_head r - cached_tail p) < 131072 \<or> cached_tail p' = ring_tail r"
  shows "producer_inv p' (pushed_ring e r)"
  using assms by (auto simp: producer_inv_def producer_safe_def unat_Suc_diff) (auto simp: ring_len_def unat_Suc_diff)

lemma consumer_inv_pushed:
  "consumer_inv c r \<Longrightarrow> ring_len r < 131072 \<Longrightarrow> consumer_inv c (pushed_ring e r)"
  by (simp add: consumer_inv_def)

lemma producer_inv_popped:
  "producer_inv p r \<Longrightarrow> 0 < ring_len r \<Longrightarrow> producer_inv p (popped_ring r)"
  unfolding producer_inv_def producer_safe_def by simp linarith

lemma consumer_inv_popped:
  assumes "consumer_inv c r" and "0 < ring_len r"
    and "c' = c \<and> cached_head c \<noteq> ring_tail r \<or> cached_head c' = ring_head r"
  shows "consumer_inv c' (popped_ring r)"
  using assms(3)
proof
  assume c: "c' = c \<and> cached_head c \<noteq> ring_tail r"
  then have "0 < unat (cached_head c - ring_tail r)"
    by (simp add: unat_gt_0)
  with c assms show ?thesis by (simp add: consumer_inv_def unat_diff_Suc)
next
  assume "cached_head c' = ring_head r"
  with assms(2) show ?thesis
    by (simp add: consumer_inv_def) (simp add: ring_len_def unat_diff_Suc)
qed

lemma refresh_inv:
  "ring_inv r \<Longrightarrow> producer_inv (p\<lparr>cached_tail := ring_tail r\<rparr>) r"
  "consumer_inv (c\<lparr>cached_head := ring_head r\<rparr>) r"
  by (simp_all add: ring_inv_def producer_inv_def producer_safe_def consumer_inv_def ring_len_def)

lemmas pushed_inv = ring_inv_pushed producer_inv_pushed consumer_inv_pushed
lemmas popped_inv = ring_inv_popped producer_inv_popped consumer_inv_popped

lemma ring_push_accepts:
  assumes "spsc_inv p c r" and "length (queue_of r) < capacity"
  shows "\<exists>p' r'. push e p r = Inr (Inr (), p', r') \<and> queue_of r' = queue_of r @ [e] \<and> spsc_inv p' c r'"
proof -
  have len: "ring_len r < 131072" and inv: "ring_inv r" "producer_inv p r" "consumer_inv c r"
    using assms by (simp_all add: spsc_inv_def)
  then have "producer_safe p r"
    by (simp add: producer_inv_def)
  then obtain p' where "push e p r = Inr (Inr (), p', pushed_ring e r)"
    and "p' = p \<and> unat (ring_head r - cached_tail p) < 131072 \<or> cached_tail p' = ring_tail r"
    using len by (rule push_room)
  with inv len show ?thesis
    by (auto simp: spsc_inv_def queue_of_pushed intro!: pushed_inv)
qed

lemma ring_pop_takes:
  assumes "spsc_inv p c r" and "queue_of r = e # es"
  shows "\<exists>c' r'. pop c r = Inr (Some e, c', r') \<and> queue_of r' = es \<and> spsc_inv p c' r'"
proof -
  have len: "0 < ring_len r"
    using assms(2) by (metis length_queue_of length_greater_0_conv list.distinct(1))
  have inv: "ring_inv r" "producer_inv p r" "consumer_inv c r"
    using assms by (simp_all add: spsc_inv_def)
  then obtain c' where "pop c r = Inr (Some (hd (queue_of r)), c', popped_ring r)"
    and "c' = c \<and> cached_head c \<noteq> ring_tail r \<or> cached_head c' = ring_head r"
    using len by (auto elim: pop_some)
  with inv len queue_of_popped [OF len] assms(2) show ?thesis
    by (auto simp: spsc_inv_def intro!: popped_inv)
qed

interpretation ring: spsc_channel push pop queue_of capacity spsc_inv
proof unfold_locales
  fix p c r
  assume "spsc_inv p c r"
  then show "length (queue_of r) \<le> capacity"
    by (simp add: spsc_inv_def ring_inv_def)
next
  fix p c r and e :: stroke_event
  assume "spsc_inv p c r" and "capacity \<le> length (queue_of r)"
  then show "\<exists>p' m. push e p r = Inr (Inl m, p', r) \<and> spsc_inv p' c r"
    by (auto simp: spsc_inv_def producer_inv_def [of p] push_full intro!: refresh_inv)
next
  fix p c r
  assume "spsc_inv p c r" and "queue_of r = []"
  then show "\<exists>c'. pop c r = Inr (None, c', r) \<and> spsc_inv p c' r"
    by (auto simp: spsc_inv_def pop_none refresh_inv dest: arg_cong [where f = length])
qed (rule ring_push_accepts ring_pop_takes; assumption)+

section \<open>Properties\<close>

lemma spsc_inv_new: "spsc_inv AegisProducer_new CelerConsumer_new zeroed_ring"
  by (simp add: inv_defs ring_len_def AegisProducer_new_def CelerConsumer_new_def zeroed_ring_def)

lemma queue_of_zeroed [simp]: "queue_of zeroed_ring = []"
  by (simp add: queue_of_def ring_len_def zeroed_ring_def)

text \<open>
  C2: any sequence of pushes and pops on the ring, started in a state with the SPSC invariant
  (in particular a fresh one), returns exactly what the bounded FIFO queue of 131072 events
  returns: no call faults (no index outside the slots, no unwritten slot is read), a push is
  refused only when the queue is full, and the invariant holds again afterwards. The counters
  are the wrapping 64-bit words of the code.
\<close>

theorem ring_refines_bounded_queue:
  assumes "spsc_inv p c r"
  shows "\<exists>p' c' r'. run_script push pop xs (p, c, r) =
           Inr (fst (queue_script capacity xs (queue_of r)), p', c', r')
         \<and> queue_of r' = snd (queue_script capacity xs (queue_of r)) \<and> spsc_inv p' c' r'"
  using assms by (rule ring.script_refines)

definition sample_event :: "u64 \<Rightarrow> stroke_event" where
  "sample_event i = \<lparr>ev_session_id = 1, ev_timestamp = i, ev_x = 0, ev_y = 0, ev_pressure = 0x3F800000,
     ev_action = 1, ev_trace_id = replicate 16 0, ev_parent_span_id = replicate 8 0\<rparr>"

theorem ring_refines_bounded_queue_witness:
  "\<exists>p' c' r'. run_script push pop [Push (sample_event 7), Pop, Pop]
       (AegisProducer_new, CelerConsumer_new, zeroed_ring)
     = Inr ([Pushed True, Popped (Some (sample_event 7)), Popped None], p', c', r')"
  using ring_refines_bounded_queue
    [OF spsc_inv_new, of "[Push (sample_event 7), Pop, Pop]"]
  by simp blast

text \<open>
  Conservation. Over any run of the ring, the events delivered by \<^verbatim>\<open>pop\<close> followed by those
  still queued are the events queued before followed by the accepted ones, in order: no event
  is lost, duplicated, altered or reordered, and at most 131072 are queued.
\<close>

lemma ring_conserves_events:
  assumes "spsc_inv p c r" and "run_script push pop xs (p, c, r) = Inr (rs, p', c', r')"
  shows "queue_of r @ accepted xs rs = delivered rs @ queue_of r' \<and> length (queue_of r') \<le> capacity"
  using ring.script_conserves [OF assms] by simp

lemma ring_conserves_events_example:
  "\<exists>rs p' c' r'. run_script push pop [Push (sample_event 7), Push (sample_event 8), Pop]
       (AegisProducer_new, CelerConsumer_new, zeroed_ring) = Inr (rs, p', c', r')
     \<and> accepted [Push (sample_event 7), Push (sample_event 8), Pop] rs = delivered rs @ queue_of r'
     \<and> length (queue_of r') \<le> capacity"
proof -
  let ?xs = "[Push (sample_event 7), Push (sample_event 8), Pop]"
  obtain rs p' c' r' where run: "run_script push pop ?xs
      (AegisProducer_new, CelerConsumer_new, zeroed_ring) = Inr (rs, p', c', r')"
    using ring.script_refines [OF spsc_inv_new] by blast
  from ring_conserves_events [OF spsc_inv_new run] run show ?thesis by auto
qed

end
