(* ===== verification/Ring_Concurrency.thy ===== *)
theory Ring_Concurrency
  imports Shared_Ring
begin

text \<open>
  The same ring, at the granularity of its memory accesses: AEGIS and CELER run in two
  processes, so the loads and stores of a \<^verbatim>\<open>push\<close> and of a \<^verbatim>\<open>pop\<close> interleave. One rule per
  access of the source. An \<^verbatim>\<open>Acquire\<close> load of the other side's counter may return any value
  of its modification order that is not older than the one last seen (release/acquire gives no
  more than that), so the rules \<open>p_reload\<close> and \<open>c_reload\<close> choose how far they catch up.
  The producer side is one thread (\<^verbatim>\<open>tokio\<close> current-thread) holding any number of clones of the
  handle, one per WebSocket session, each with its own cached counter.

  The fields \<open>rs_pushed\<close> and \<open>rs_popped\<close> are history: no rule reads them, except that
  \<open>allowed\<close> may restrict what the client pushes next, which the microbenchmark uses.
\<close>

section \<open>State and steps\<close>

datatype producer_pc =
    PIdle
  | PLoaded nat stroke_event usize    \<comment> \<open>head loaded, cached tail not yet compared\<close>
  | PReloaded nat stroke_event usize  \<comment> \<open>tail loaded again\<close>
  | PWrite nat stroke_event usize     \<comment> \<open>about to write the slot\<close>
  | PStore nat stroke_event usize     \<comment> \<open>about to store head + 1\<close>

datatype consumer_pc =
    CIdle
  | CLoaded usize
  | CReloaded usize
  | CRead usize
  | CStore usize stroke_event

record ring_sys =
  rs_mem :: shared_ring
  rs_handles :: "nat \<rightharpoonup> aegis_producer"
  rs_ppc :: producer_pc
  rs_consumer :: celer_consumer
  rs_cpc :: consumer_pc
  rs_pushed :: "stroke_event list"
  rs_popped :: "stroke_event list"

definition ring_sys_init :: ring_sys where
  "ring_sys_init = \<lparr>rs_mem = zeroed_ring, rs_handles = [0 \<mapsto> AegisProducer_new], rs_ppc = PIdle,
     rs_consumer = CelerConsumer_new, rs_cpc = CIdle, rs_pushed = [], rs_popped = []\<rparr>"

inductive ring_step :: "(stroke_event list \<Rightarrow> stroke_event \<Rightarrow> bool) \<Rightarrow> ring_sys \<Rightarrow> ring_sys \<Rightarrow> bool"
  for allowed where
  p_clone: "rs_ppc s = PIdle \<Longrightarrow> rs_handles s h = Some p \<Longrightarrow> rs_handles s h' = None \<Longrightarrow>
     ring_step allowed s (s\<lparr>rs_handles := (rs_handles s)(h' \<mapsto> AegisProducer_clone p)\<rparr>)"
| p_start: "rs_ppc s = PIdle \<Longrightarrow> rs_handles s h = Some p \<Longrightarrow> allowed (rs_pushed s) e \<Longrightarrow>
     ring_step allowed s (s\<lparr>rs_ppc := PLoaded h e (ring_head (rs_mem s))\<rparr>)"
| p_fast: "rs_ppc s = PLoaded h e cur \<Longrightarrow> rs_handles s h = Some p \<Longrightarrow>
     \<not> RING_CAPACITY \<le> cur - cached_tail p \<Longrightarrow>
     ring_step allowed s (s\<lparr>rs_ppc := PWrite h e cur\<rparr>)"
| p_reload: "rs_ppc s = PLoaded h e cur \<Longrightarrow> rs_handles s h = Some p \<Longrightarrow>
     RING_CAPACITY \<le> cur - cached_tail p \<Longrightarrow>
     k \<le> unat (ring_tail (rs_mem s) - cached_tail p) \<Longrightarrow>
     ring_step allowed s (s\<lparr>rs_handles := (rs_handles s)(h \<mapsto> p\<lparr>cached_tail := cached_tail p + of_nat k\<rparr>),
                           rs_ppc := PReloaded h e cur\<rparr>)"
| p_full: "rs_ppc s = PReloaded h e cur \<Longrightarrow> rs_handles s h = Some p \<Longrightarrow>
     RING_CAPACITY \<le> cur - cached_tail p \<Longrightarrow>
     ring_step allowed s (s\<lparr>rs_ppc := PIdle\<rparr>)"
| p_room: "rs_ppc s = PReloaded h e cur \<Longrightarrow> rs_handles s h = Some p \<Longrightarrow>
     \<not> RING_CAPACITY \<le> cur - cached_tail p \<Longrightarrow>
     ring_step allowed s (s\<lparr>rs_ppc := PWrite h e cur\<rparr>)"
| p_write: "rs_ppc s = PWrite h e cur \<Longrightarrow>
     events_write (unat (cur AND INDEX_MASK)) e (rs_mem s) = Inr m \<Longrightarrow>
     ring_step allowed s (s\<lparr>rs_mem := m, rs_ppc := PStore h e cur\<rparr>)"
| p_store: "rs_ppc s = PStore h e cur \<Longrightarrow>
     ring_step allowed s (s\<lparr>rs_mem := (rs_mem s)\<lparr>ring_head := cur + 1\<rparr>, rs_ppc := PIdle,
                           rs_pushed := rs_pushed s @ [e]\<rparr>)"
| c_start: "rs_cpc s = CIdle \<Longrightarrow>
     ring_step allowed s (s\<lparr>rs_cpc := CLoaded (ring_tail (rs_mem s))\<rparr>)"
| c_fast: "rs_cpc s = CLoaded t \<Longrightarrow> cached_head (rs_consumer s) - t \<noteq> 0 \<Longrightarrow>
     ring_step allowed s (s\<lparr>rs_cpc := CRead t\<rparr>)"
| c_reload: "rs_cpc s = CLoaded t \<Longrightarrow> cached_head (rs_consumer s) - t = 0 \<Longrightarrow>
     k \<le> unat (ring_head (rs_mem s) - cached_head (rs_consumer s)) \<Longrightarrow>
     ring_step allowed s (s\<lparr>rs_consumer := \<lparr>cached_head = cached_head (rs_consumer s) + of_nat k\<rparr>,
                           rs_cpc := CReloaded t\<rparr>)"
| c_empty: "rs_cpc s = CReloaded t \<Longrightarrow> cached_head (rs_consumer s) - t = 0 \<Longrightarrow>
     ring_step allowed s (s\<lparr>rs_cpc := CIdle\<rparr>)"
| c_some: "rs_cpc s = CReloaded t \<Longrightarrow> cached_head (rs_consumer s) - t \<noteq> 0 \<Longrightarrow>
     ring_step allowed s (s\<lparr>rs_cpc := CRead t\<rparr>)"
| c_read: "rs_cpc s = CRead t \<Longrightarrow> events_read (unat (t AND INDEX_MASK)) (rs_mem s) = Inr e \<Longrightarrow>
     ring_step allowed s (s\<lparr>rs_cpc := CStore t e\<rparr>)"
| c_store: "rs_cpc s = CStore t e \<Longrightarrow>
     ring_step allowed s (s\<lparr>rs_mem := (rs_mem s)\<lparr>ring_tail := t + 1\<rparr>, rs_cpc := CIdle,
                           rs_popped := rs_popped s @ [e]\<rparr>)"

inductive_cases ring_stepE: "ring_step allowed s t"

inductive ring_reachable :: "(stroke_event list \<Rightarrow> stroke_event \<Rightarrow> bool) \<Rightarrow> ring_sys \<Rightarrow> bool"
  for allowed where
  ring_start: "ring_reachable allowed ring_sys_init"
| ring_next: "ring_reachable allowed s \<Longrightarrow> ring_step allowed s t \<Longrightarrow> ring_reachable allowed t"

text \<open>The failures the protocol has to exclude.\<close>

definition data_race :: "ring_sys \<Rightarrow> bool" where
  "data_race s \<longleftrightarrow> (\<exists>h e cur t. rs_ppc s = PWrite h e cur \<and> rs_cpc s = CRead t \<and> slot_of cur = slot_of t)"

definition faulting :: "ring_sys \<Rightarrow> bool" where
  "faulting s \<longleftrightarrow>
     (\<exists>h e cur. rs_ppc s = PWrite h e cur \<and> isl (events_write (unat (cur AND INDEX_MASK)) e (rs_mem s))) \<or>
     (\<exists>t. rs_cpc s = CRead t \<and> isl (events_read (unat (t AND INDEX_MASK)) (rs_mem s)))"

text \<open>
  A single handle is safe for ever, wrap-around included. Clones may lag arbitrarily far
  behind, so with clones the protocol is safe for the first \<open>2 ^ 64\<close> events.
\<close>

definition safe_regime :: "ring_sys \<Rightarrow> bool" where
  "safe_regime s \<longleftrightarrow> dom (rs_handles s) = {0} \<or> length (rs_pushed s) < 2 ^ 64"

section \<open>The invariant\<close>

fun writing :: "producer_pc \<Rightarrow> nat" where
  "writing (PWrite _ _ _) = 1"
| "writing (PStore _ _ _) = 1"
| "writing _ = 0"

text \<open>Positions are unbounded numbers; the counters of the code are their images modulo \<open>2 ^ 64\<close>.\<close>

definition counters_ok :: "ring_sys \<Rightarrow> bool" where
  "counters_ok s \<longleftrightarrow>
     ring_head (rs_mem s) = of_nat (length (rs_pushed s)) \<and>
     ring_tail (rs_mem s) = of_nat (length (rs_popped s)) \<and>
     length (rs_popped s) \<le> length (rs_pushed s) \<and>
     length (rs_pushed s) + writing (rs_ppc s) \<le> length (rs_popped s) + 131072"

definition slots_ok :: "ring_sys \<Rightarrow> bool" where
  "slots_ok s \<longleftrightarrow>
     (\<forall>i. length (rs_popped s) \<le> i \<longrightarrow> i < length (rs_pushed s) \<longrightarrow>
        ring_events (rs_mem s) (i mod 131072) = Some (rs_pushed s ! i)) \<and>
     take (length (rs_popped s)) (rs_pushed s) = rs_popped s"

definition handle_ok :: "ring_sys \<Rightarrow> aegis_producer \<Rightarrow> bool" where
  "handle_ok s p \<longleftrightarrow> (\<exists>ct. cached_tail p = of_nat ct \<and> ct \<le> length (rs_popped s) \<and>
     (dom (rs_handles s) = {0} \<longrightarrow> length (rs_pushed s) + writing (rs_ppc s) \<le> ct + 131072))"

definition handles_ok :: "ring_sys \<Rightarrow> bool" where
  "handles_ok s \<longleftrightarrow> 0 \<in> dom (rs_handles s) \<and> (\<forall>h p. rs_handles s h = Some p \<longrightarrow> handle_ok s p)"

fun ppc_at :: "producer_pc \<Rightarrow> nat \<Rightarrow> (nat \<Rightarrow> stroke_event option) \<Rightarrow> bool" where
  "ppc_at PIdle np evs \<longleftrightarrow> True"
| "ppc_at (PLoaded h e cur) np evs \<longleftrightarrow> cur = of_nat np"
| "ppc_at (PReloaded h e cur) np evs \<longleftrightarrow> cur = of_nat np"
| "ppc_at (PWrite h e cur) np evs \<longleftrightarrow> cur = of_nat np"
| "ppc_at (PStore h e cur) np evs \<longleftrightarrow> cur = of_nat np \<and> evs (np mod 131072) = Some e"

definition ppc_ok :: "ring_sys \<Rightarrow> bool" where
  "ppc_ok s \<longleftrightarrow> ppc_at (rs_ppc s) (length (rs_pushed s)) (ring_events (rs_mem s))"

fun cpc_at :: "consumer_pc \<Rightarrow> nat \<Rightarrow> nat \<Rightarrow> stroke_event list \<Rightarrow> bool" where
  "cpc_at CIdle nc ch es \<longleftrightarrow> True"
| "cpc_at (CLoaded t) nc ch es \<longleftrightarrow> t = of_nat nc"
| "cpc_at (CReloaded t) nc ch es \<longleftrightarrow> t = of_nat nc"
| "cpc_at (CRead t) nc ch es \<longleftrightarrow> t = of_nat nc \<and> nc < ch"
| "cpc_at (CStore t e) nc ch es \<longleftrightarrow> t = of_nat nc \<and> nc < ch \<and> e = es ! nc"

definition consumer_ok :: "ring_sys \<Rightarrow> bool" where
  "consumer_ok s \<longleftrightarrow> (\<exists>ch. cached_head (rs_consumer s) = of_nat ch \<and>
     length (rs_popped s) \<le> ch \<and> ch \<le> length (rs_pushed s) \<and>
     cpc_at (rs_cpc s) (length (rs_popped s)) ch (rs_pushed s))"

definition ring_sys_inv :: "ring_sys \<Rightarrow> bool" where
  "ring_sys_inv s \<longleftrightarrow> counters_ok s \<and> slots_ok s \<and> handles_ok s \<and> ppc_ok s \<and> consumer_ok s"

lemmas sys_inv_defs = ring_sys_inv_def counters_ok_def slots_ok_def handles_ok_def ppc_ok_def
  consumer_ok_def

lemma ring_sys_inv_init: "ring_sys_inv ring_sys_init"
  by (auto simp: sys_inv_defs handle_ok_def ring_sys_init_def zeroed_ring_def AegisProducer_new_def
      CelerConsumer_new_def intro: exI [of _ 0])

lemma safe_regime_back: "ring_step allowed s t \<Longrightarrow> safe_regime t \<Longrightarrow> 0 \<in> dom (rs_handles s) \<Longrightarrow> safe_regime s"
  by (induction rule: ring_step.induct) (auto simp: safe_regime_def dom_def split: if_splits)

section \<open>Arithmetic of positions\<close>

lemma slot_of_of_nat [simp]: "slot_of (of_nat n) = n mod 131072"
  using slot_of_add [of 0 n] by simp

lemma unat_mask_of_nat [simp]: "unat (of_nat n AND INDEX_MASK) = n mod 131072"
  using slot_of_of_nat by (simp add: slot_of_def)

lemma full_test:
  assumes "ct \<le> np" and "np - ct < 2 ^ 64"
  shows "RING_CAPACITY \<le> of_nat np - of_nat ct \<longleftrightarrow> ct + 131072 \<le> np"
  using assms by (auto simp: capacity_le_iff unat_of_nat_diff_64)

lemma slot_free:
  "nc \<le> i \<Longrightarrow> i < np \<Longrightarrow> np < nc + (131072 :: nat) \<Longrightarrow> i mod 131072 \<noteq> np mod 131072"
  using mod_eq_close [of 0 i 131072 np] by auto

lemma handle_position:
  assumes "ring_sys_inv s" and "safe_regime s" and "rs_handles s h = Some p"
  obtains ct where "cached_tail p = of_nat ct" and "ct \<le> length (rs_popped s)"
    and "length (rs_pushed s) - ct < 2 ^ 64"
    and "dom (rs_handles s) = {0} \<Longrightarrow> length (rs_pushed s) + writing (rs_ppc s) \<le> ct + 131072"
proof -
  have "handle_ok s p"
    using assms(1,3) by (auto simp: ring_sys_inv_def handles_ok_def)
  then obtain ct where ct: "cached_tail p = of_nat ct" "ct \<le> length (rs_popped s)"
    and single: "dom (rs_handles s) = {0} \<longrightarrow> length (rs_pushed s) + writing (rs_ppc s) \<le> ct + 131072"
    unfolding handle_ok_def by blast
  have "length (rs_pushed s) - ct < 2 ^ 64"
    using assms(2) single by (auto simp: safe_regime_def)
  with ct single show thesis by (intro that) auto
qed

text \<open>The two capacity tests of \<^verbatim>\<open>push\<close>, read on positions.\<close>

lemma room_test:
  assumes "ring_sys_inv s" and "safe_regime s" and "rs_handles s h = Some p"
    and "cur = of_nat (length (rs_pushed s))" and "\<not> RING_CAPACITY \<le> cur - cached_tail p"
  shows "length (rs_pushed s) < length (rs_popped s) + 131072"
    and "\<exists>ct. cached_tail p = of_nat ct \<and> ct \<le> length (rs_popped s) \<and> length (rs_pushed s) < ct + 131072"
proof -
  obtain ct where ct: "cached_tail p = of_nat ct" "ct \<le> length (rs_popped s)"
      "length (rs_pushed s) - ct < 2 ^ 64"
    using handle_position [OF assms(1-3)] by metis
  moreover have "length (rs_popped s) \<le> length (rs_pushed s)"
    using assms(1) by (simp add: ring_sys_inv_def counters_ok_def)
  ultimately have "length (rs_pushed s) < ct + 131072"
    using assms(4,5) full_test [of ct "length (rs_pushed s)"] by simp
  with ct show "length (rs_pushed s) < length (rs_popped s) + 131072"
    and "\<exists>ct. cached_tail p = of_nat ct \<and> ct \<le> length (rs_popped s) \<and> length (rs_pushed s) < ct + 131072"
    by auto
qed

lemma granted_inv:
  assumes "ring_sys_inv s" and "safe_regime s" and "rs_handles s h = Some p"
    and "writing (rs_ppc s) = 0"
    and "cur = of_nat (length (rs_pushed s))" and "\<not> RING_CAPACITY \<le> cur - cached_tail p"
  shows "ring_sys_inv (s\<lparr>rs_ppc := PWrite h e cur\<rparr>)"
proof -
  let ?t = "s\<lparr>rs_ppc := PWrite h e cur\<rparr>"
  note room = room_test [OF assms(1-3,5,6)]
  have "handle_ok ?t q" if q: "rs_handles s h' = Some q" for h' q
  proof (cases "dom (rs_handles s) = {0}")
    case True
    with q assms(3) have "q = p"
      by (metis domI option.inject singletonD)
    with room(2) show ?thesis by (auto simp: handle_ok_def)
  next
    case False
    with assms(1) q show ?thesis by (auto simp: ring_sys_inv_def handles_ok_def handle_ok_def)
  qed
  moreover have "counters_ok ?t"
    using assms(1) room(1) by (simp add: ring_sys_inv_def counters_ok_def)
  ultimately show ?thesis
    using assms(1,5)
    by (simp add: ring_sys_inv_def slots_ok_def handles_ok_def ppc_ok_def consumer_ok_def)
qed

lemma reload_inv:
  assumes "ring_sys_inv s" and "safe_regime s" and "rs_handles s h = Some p"
    and "rs_ppc s = PLoaded h e cur" and "k \<le> unat (ring_tail (rs_mem s) - cached_tail p)"
  shows "ring_sys_inv (s\<lparr>rs_handles := (rs_handles s)(h \<mapsto> p\<lparr>cached_tail := cached_tail p + of_nat k\<rparr>),
                        rs_ppc := PReloaded h e cur\<rparr>)" (is "ring_sys_inv ?t")
proof -
  obtain ct where ct: "cached_tail p = of_nat ct" "ct \<le> length (rs_popped s)"
      "length (rs_pushed s) - ct < 2 ^ 64"
    and single: "dom (rs_handles s) = {0} \<Longrightarrow> length (rs_pushed s) \<le> ct + 131072"
    using handle_position [OF assms(1-3)] assms(4) by (metis add.right_neutral writing.simps(4))
  have tail: "ring_tail (rs_mem s) = of_nat (length (rs_popped s))"
    and le: "length (rs_popped s) \<le> length (rs_pushed s)"
    using assms(1) by (simp_all add: ring_sys_inv_def counters_ok_def)
  have "k \<le> length (rs_popped s) - ct"
    using assms(5) ct le by (simp add: tail unat_of_nat_diff_64)
  then have "handle_ok ?t (p\<lparr>cached_tail := cached_tail p + of_nat k\<rparr>)"
    using ct(1,2) single assms(3)
    by (auto simp: handle_ok_def insert_absorb domI intro!: exI [of _ "ct + k"])
  moreover have "handle_ok ?t q" if "rs_handles s h' = Some q" for h' q
    using assms(1,3,4) that
    by (fastforce simp: ring_sys_inv_def handles_ok_def handle_ok_def insert_absorb domI)
  ultimately have "handles_ok ?t"
    using assms(1) by (auto simp: ring_sys_inv_def handles_ok_def)
  then show ?thesis
    using assms(1,4)
    by (simp add: ring_sys_inv_def counters_ok_def slots_ok_def ppc_ok_def consumer_ok_def)
qed

lemma handles_ok_frame:
  assumes "handles_ok s" and "rs_handles t = rs_handles s"
    and "length (rs_popped s) \<le> length (rs_popped t)"
    and "length (rs_pushed t) + writing (rs_ppc t) \<le> length (rs_pushed s) + writing (rs_ppc s)"
  shows "handles_ok t"
proof -
  have "handle_ok t p" if "handle_ok s p" for p
  proof -
    from that obtain ct where "cached_tail p = of_nat ct" and "ct \<le> length (rs_popped s)"
      and "dom (rs_handles s) = {0} \<longrightarrow> length (rs_pushed s) + writing (rs_ppc s) \<le> ct + 131072"
      unfolding handle_ok_def by blast
    with assms(2-4) show ?thesis by (intro handle_ok_def [THEN iffD2] exI [of _ ct]) auto
  qed
  with assms(1,2) show ?thesis by (auto simp: handles_ok_def)
qed

lemma clone_inv:
  assumes "ring_sys_inv s" and "rs_handles s h = Some p" and "rs_handles s h' = None"
  shows "ring_sys_inv (s\<lparr>rs_handles := (rs_handles s)(h' \<mapsto> AegisProducer_clone p)\<rparr>)" (is "ring_sys_inv ?t")
proof -
  have "0 \<in> dom (rs_handles s)"
    using assms(1) by (simp add: ring_sys_inv_def handles_ok_def)
  with assms(3) have "h' \<noteq> 0"
    by (cases "h' = 0") auto
  moreover have "h' \<in> dom (rs_handles ?t)"
    by simp
  ultimately have multi: "dom (rs_handles ?t) \<noteq> {0}"
    by (metis singletonD)
  have "handle_ok ?t q" if "rs_handles s g = Some q" for g q
    using assms(1) that multi by (fastforce simp: ring_sys_inv_def handles_ok_def handle_ok_def)
  then have "handles_ok ?t"
    using assms(1,2) \<open>0 \<in> dom (rs_handles s)\<close>
    by (auto simp: handles_ok_def handle_ok_def AegisProducer_clone_def)
  then show ?thesis
    using assms(1) by (simp add: ring_sys_inv_def counters_ok_def slots_ok_def ppc_ok_def consumer_ok_def)
qed

lemma idle_pc_inv:
  assumes "ring_sys_inv s" and "writing (rs_ppc s) = 0" and "pc = PIdle \<or> pc = PLoaded h e (ring_head (rs_mem s))"
  shows "ring_sys_inv (s\<lparr>rs_ppc := pc\<rparr>)"
  using assms
  by (auto simp: ring_sys_inv_def counters_ok_def slots_ok_def handles_ok_def handle_ok_def ppc_ok_def consumer_ok_def)

lemma write_inv:
  assumes "ring_sys_inv s" and "rs_ppc s = PWrite h e cur"
    and "events_write (unat (cur AND INDEX_MASK)) e (rs_mem s) = Inr m"
  shows "ring_sys_inv (s\<lparr>rs_mem := m, rs_ppc := PStore h e cur\<rparr>)"
proof -
  let ?np = "length (rs_pushed s)"
  have cur: "cur = of_nat ?np" and room: "?np < length (rs_popped s) + 131072"
    using assms(1,2) by (auto simp: ring_sys_inv_def counters_ok_def ppc_ok_def)
  then have m: "m = (rs_mem s)\<lparr>ring_events := (ring_events (rs_mem s))(?np mod 131072 \<mapsto> e)\<rparr>"
    using assms(3) by (simp add: events_write_def split: if_splits)
  show ?thesis
    using assms(1,2) slot_free [OF _ _ room]
    by (auto simp: m cur ring_sys_inv_def counters_ok_def slots_ok_def handles_ok_def handle_ok_def
        ppc_ok_def consumer_ok_def)
qed

lemma cpc_at_append: "nc < length es \<or> (\<forall>t e'. pc \<noteq> CStore t e') \<Longrightarrow> cpc_at pc nc ch (es @ [e]) = cpc_at pc nc ch es"
  by (cases pc) (auto simp: nth_append)

lemma store_inv:
  assumes "ring_sys_inv s" and "rs_ppc s = PStore h e cur"
  shows "ring_sys_inv (s\<lparr>rs_mem := (rs_mem s)\<lparr>ring_head := cur + 1\<rparr>, rs_ppc := PIdle,
                        rs_pushed := rs_pushed s @ [e]\<rparr>)" (is "ring_sys_inv ?t")
proof -
  have cur: "cur = of_nat (length (rs_pushed s))"
    and slot: "ring_events (rs_mem s) (length (rs_pushed s) mod 131072) = Some e"
    using assms by (simp_all add: ring_sys_inv_def ppc_ok_def)
  have "counters_ok ?t" and "slots_ok ?t"
    using assms slot by (auto simp: cur ring_sys_inv_def counters_ok_def slots_ok_def nth_append less_Suc_eq)
  moreover have "handles_ok ?t"
    using assms by (auto simp: ring_sys_inv_def intro: handles_ok_frame [of s])
  moreover obtain ch where ch: "cached_head (rs_consumer s) = of_nat ch" "length (rs_popped s) \<le> ch"
      "ch \<le> length (rs_pushed s)" "cpc_at (rs_cpc s) (length (rs_popped s)) ch (rs_pushed s)"
    using assms(1) unfolding ring_sys_inv_def consumer_ok_def by blast
  then have "cpc_at (rs_cpc s) (length (rs_popped s)) ch (rs_pushed s @ [e])"
    by (cases "rs_cpc s") (auto simp: nth_append)
  with ch have "consumer_ok ?t"
    by (auto simp: consumer_ok_def)
  ultimately show ?thesis
    by (simp add: ring_sys_inv_def ppc_ok_def)
qed

text \<open>The consumer's rules touch only its own fields, until the last store.\<close>

lemma consumer_side_inv:
  assumes "ring_sys_inv s" and "consumer_ok (s\<lparr>rs_consumer := c, rs_cpc := pc\<rparr>)"
  shows "ring_sys_inv (s\<lparr>rs_consumer := c, rs_cpc := pc\<rparr>)"
  using assms
  by (simp add: ring_sys_inv_def counters_ok_def slots_ok_def handles_ok_def handle_ok_def ppc_ok_def)

lemma consumer_position:
  assumes "ring_sys_inv s"
  obtains ch where "cached_head (rs_consumer s) = of_nat ch" and "length (rs_popped s) \<le> ch"
    and "ch \<le> length (rs_pushed s)" and "length (rs_pushed s) \<le> length (rs_popped s) + 131072"
    and "cpc_at (rs_cpc s) (length (rs_popped s)) ch (rs_pushed s)"
  using assms that by (auto simp: ring_sys_inv_def consumer_ok_def counters_ok_def)

lemma of_nat_diff_0_iff:
  "j \<le> i \<Longrightarrow> i - j < 2 ^ 64 \<Longrightarrow> of_nat i - of_nat j = (0 :: usize) \<longleftrightarrow> i = j"
  using unat_of_nat_diff_64 [of j i] by (auto simp: unat_eq_0 [symmetric])

lemma nonempty_inv:
  assumes "ring_sys_inv s" and "rs_cpc s = CLoaded t \<or> rs_cpc s = CReloaded t"
    and "cached_head (rs_consumer s) - t \<noteq> 0"
  shows "ring_sys_inv (s\<lparr>rs_cpc := CRead t\<rparr>)"
proof -
  obtain ch where ch: "cached_head (rs_consumer s) = of_nat ch" "length (rs_popped s) \<le> ch"
      "ch \<le> length (rs_pushed s)" "length (rs_pushed s) \<le> length (rs_popped s) + 131072"
      "cpc_at (rs_cpc s) (length (rs_popped s)) ch (rs_pushed s)"
    using assms(1) by (rule consumer_position)
  then have "t = of_nat (length (rs_popped s))"
    using assms(2) by auto
  with ch assms(3) have "length (rs_popped s) < ch"
    by (cases "ch = length (rs_popped s)") auto
  with ch \<open>t = _\<close> have "consumer_ok (s\<lparr>rs_consumer := rs_consumer s, rs_cpc := CRead t\<rparr>)"
    by (auto simp: consumer_ok_def)
  from consumer_side_inv [OF assms(1) this] show ?thesis by simp
qed

lemma reload_head_inv:
  assumes "ring_sys_inv s" and "rs_cpc s = CLoaded t"
    and "k \<le> unat (ring_head (rs_mem s) - cached_head (rs_consumer s))"
  shows "ring_sys_inv (s\<lparr>rs_consumer := \<lparr>cached_head = cached_head (rs_consumer s) + of_nat k\<rparr>,
                        rs_cpc := CReloaded t\<rparr>)"
proof -
  obtain ch where ch: "cached_head (rs_consumer s) = of_nat ch" "length (rs_popped s) \<le> ch"
      "ch \<le> length (rs_pushed s)" "length (rs_pushed s) \<le> length (rs_popped s) + 131072"
      "cpc_at (rs_cpc s) (length (rs_popped s)) ch (rs_pushed s)"
    using assms(1) by (rule consumer_position)
  moreover have "ring_head (rs_mem s) = of_nat (length (rs_pushed s))"
    using assms(1) by (simp add: ring_sys_inv_def counters_ok_def)
  ultimately have "k \<le> length (rs_pushed s) - ch"
    using assms(3) by (simp add: unat_of_nat_diff_64)
  with ch assms(2)
  have "consumer_ok (s\<lparr>rs_consumer := \<lparr>cached_head = cached_head (rs_consumer s) + of_nat k\<rparr>,
                       rs_cpc := CReloaded t\<rparr>)"
    by (auto simp: consumer_ok_def intro!: exI [of _ "ch + k"])
  from consumer_side_inv [OF assms(1) this] show ?thesis .
qed

lemma back_to_idle_inv: "ring_sys_inv s \<Longrightarrow> ring_sys_inv (s\<lparr>rs_cpc := CIdle\<rparr>)"
  using consumer_side_inv [of s CIdle "rs_consumer s"] by (auto simp: ring_sys_inv_def consumer_ok_def)

lemma load_tail_inv:
  assumes "ring_sys_inv s"
  shows "ring_sys_inv (s\<lparr>rs_cpc := CLoaded (ring_tail (rs_mem s))\<rparr>)"
  using assms consumer_side_inv [of s "CLoaded (ring_tail (rs_mem s))" "rs_consumer s"]
  by (auto simp: ring_sys_inv_def consumer_ok_def counters_ok_def)

text \<open>What the consumer reads is the oldest pushed event it has not popped yet.\<close>

lemma read_slot:
  assumes "ring_sys_inv s" and "rs_cpc s = CRead t"
  shows "length (rs_popped s) < length (rs_pushed s)" and "t = of_nat (length (rs_popped s))"
    and "events_read (unat (t AND INDEX_MASK)) (rs_mem s) = Inr (rs_pushed s ! length (rs_popped s))"
  using assms
  by (auto simp: ring_sys_inv_def consumer_ok_def slots_ok_def events_read_def RING_CAPACITY_def)

lemma read_inv:
  assumes "ring_sys_inv s" and "rs_cpc s = CRead t"
    and "events_read (unat (t AND INDEX_MASK)) (rs_mem s) = Inr e"
  shows "ring_sys_inv (s\<lparr>rs_cpc := CStore t e\<rparr>)"
proof -
  have "e = rs_pushed s ! length (rs_popped s)"
    using read_slot [OF assms(1,2)] assms(3) by simp
  with assms(1,2) have "consumer_ok (s\<lparr>rs_consumer := rs_consumer s, rs_cpc := CStore t e\<rparr>)"
    by (auto simp: ring_sys_inv_def consumer_ok_def)
  from consumer_side_inv [OF assms(1) this] show ?thesis by simp
qed

lemma commit_pop_inv:
  assumes "ring_sys_inv s" and "rs_cpc s = CStore t e"
  shows "ring_sys_inv (s\<lparr>rs_mem := (rs_mem s)\<lparr>ring_tail := t + 1\<rparr>, rs_cpc := CIdle,
                        rs_popped := rs_popped s @ [e]\<rparr>)" (is "ring_sys_inv ?t")
proof -
  obtain ch where ch: "cached_head (rs_consumer s) = of_nat ch" "length (rs_popped s) < ch"
      "ch \<le> length (rs_pushed s)" and t: "t = of_nat (length (rs_popped s))"
    and e: "e = rs_pushed s ! length (rs_popped s)"
    using assms by (auto simp: ring_sys_inv_def consumer_ok_def)
  have "take (length (rs_popped s)) (rs_pushed s) = rs_popped s"
    using assms(1) by (simp add: ring_sys_inv_def slots_ok_def)
  then have "take (Suc (length (rs_popped s))) (rs_pushed s) = rs_popped s @ [e]"
    using ch by (simp add: e take_Suc_conv_app_nth)
  then have "slots_ok ?t"
    using assms(1) by (simp add: ring_sys_inv_def slots_ok_def)
  moreover have "counters_ok ?t"
    using assms(1) ch by (simp add: ring_sys_inv_def counters_ok_def t)
  moreover have "handles_ok ?t"
    using assms(1) by (auto simp: ring_sys_inv_def intro: handles_ok_frame [of s])
  moreover have "consumer_ok ?t"
    using ch by (auto simp: consumer_ok_def)
  ultimately show ?thesis
    using assms(1) by (simp add: ring_sys_inv_def ppc_ok_def)
qed

lemma ring_step_inv [step_inv]:
  "ring_step allowed s t \<Longrightarrow> ring_sys_inv s \<Longrightarrow> safe_regime s \<Longrightarrow> ring_sys_inv t"
proof (induction rule: ring_step.induct)
  case (p_fast s h e cur p)
  then have "cur = of_nat (length (rs_pushed s))"
    by (simp add: ring_sys_inv_def ppc_ok_def)
  with p_fast show ?case by (intro granted_inv) auto
next
  case (p_room s h e cur p)
  then have "cur = of_nat (length (rs_pushed s))"
    by (simp add: ring_sys_inv_def ppc_ok_def)
  with p_room show ?case by (intro granted_inv) auto
qed (auto intro: clone_inv idle_pc_inv reload_inv write_inv store_inv load_tail_inv nonempty_inv
    reload_head_inv back_to_idle_inv read_inv commit_pop_inv)

lemma ring_reachable_inv: "ring_reachable allowed s \<Longrightarrow> 0 \<in> dom (rs_handles s) \<and> (safe_regime s \<longrightarrow> ring_sys_inv s)"
proof (induction rule: ring_reachable.induct)
  case ring_start
  have "0 \<in> dom (rs_handles ring_sys_init)"
    by (auto simp: ring_sys_init_def)
  with ring_sys_inv_init show ?case by blast
next
  case (ring_next s t)
  then have "0 \<in> dom (rs_handles t)"
    by (auto elim!: ring_stepE)
  moreover have "ring_sys_inv t" if "safe_regime t"
    using ring_next that safe_regime_back ring_step_inv by blast
  ultimately show ?case by blast
qed

section \<open>Properties\<close>

lemma inv_no_race: "ring_sys_inv s \<Longrightarrow> \<not> data_race s"
  using slot_free [of "length (rs_popped s)" "length (rs_popped s)" "length (rs_pushed s)"]
  by (auto simp: data_race_def ring_sys_inv_def counters_ok_def ppc_ok_def consumer_ok_def)

lemma inv_no_fault: "ring_sys_inv s \<Longrightarrow> \<not> faulting s"
  using read_slot by (fastforce simp: faulting_def events_write_def RING_CAPACITY_def slot_of_def [symmetric])

text \<open>Progress: each side completes a call by its own steps alone.\<close>

definition push_done :: "ring_sys \<Rightarrow> stroke_event \<Rightarrow> ring_sys \<Rightarrow> bool" where
  "push_done s e t \<longleftrightarrow> rs_pushed t = rs_pushed s @ [e] \<and> rs_ppc t = PIdle \<and>
     dom (rs_handles t) = dom (rs_handles s) \<and>
     rs_popped t = rs_popped s \<and> rs_cpc t = rs_cpc s \<and> rs_consumer t = rs_consumer s"

definition pop_done :: "ring_sys \<Rightarrow> stroke_event \<Rightarrow> ring_sys \<Rightarrow> bool" where
  "pop_done s e t \<longleftrightarrow> rs_popped t = rs_popped s @ [e] \<and> rs_cpc t = CIdle \<and>
     rs_handles t = rs_handles s \<and> rs_ppc t = rs_ppc s \<and> rs_pushed t = rs_pushed s"

lemma write_completes:
  assumes "rs_ppc s = PWrite h e cur"
  shows "\<exists>t. (ring_step allowed)\<^sup>*\<^sup>* s t \<and> push_done s e t"
proof -
  let ?m = "(rs_mem s)\<lparr>ring_events := (ring_events (rs_mem s))(slot_of cur \<mapsto> e)\<rparr>"
  let ?s1 = "s\<lparr>rs_mem := ?m, rs_ppc := PStore h e cur\<rparr>"
  have "events_write (unat (cur AND INDEX_MASK)) e (rs_mem s) = Inr ?m"
    by (simp add: events_write_def flip: slot_of_def capacity_def)
  with assms have "ring_step allowed s ?s1"
    by (rule ring_step.p_write)
  moreover have "ring_step allowed ?s1 (?s1\<lparr>rs_mem := (rs_mem ?s1)\<lparr>ring_head := cur + 1\<rparr>,
      rs_ppc := PIdle, rs_pushed := rs_pushed ?s1 @ [e]\<rparr>)" (is "ring_step _ _ ?s2")
    by (rule ring_step.p_store) simp
  ultimately have "(ring_step allowed)\<^sup>*\<^sup>* s ?s2"
    by (rule two_steps)
  then show ?thesis by (auto simp: push_done_def intro!: exI [of _ ?s2])
qed

lemma push_completes:
  assumes "ring_sys_inv s" and "safe_regime s" and "rs_ppc s = PIdle" and "rs_handles s h = Some p"
    and "allowed (rs_pushed s) e" and "length (rs_pushed s) < length (rs_popped s) + 131072"
  shows "\<exists>t. (ring_step allowed)\<^sup>*\<^sup>* s t \<and> push_done s e t"
proof -
  let ?cur = "ring_head (rs_mem s)"
  let ?s1 = "s\<lparr>rs_ppc := PLoaded h e ?cur\<rparr>"
  have s1: "ring_step allowed s ?s1"
    using assms(3-5) by (rule ring_step.p_start)
  show ?thesis
  proof (cases "RING_CAPACITY \<le> ?cur - cached_tail p")
    case False
    let ?s2 = "?s1\<lparr>rs_ppc := PWrite h e ?cur\<rparr>"
    have "ring_step allowed ?s1 ?s2"
      using assms(4) False by (intro ring_step.p_fast) auto
    moreover obtain t where "(ring_step allowed)\<^sup>*\<^sup>* ?s2 t" and "push_done ?s2 e t"
      using write_completes [of ?s2] by fastforce
    ultimately show ?thesis
      using s1 by (intro exI [of _ t]) (auto simp: push_done_def intro: converse_rtranclp_into_rtranclp)
  next
    case True
    let ?tail = "ring_tail (rs_mem s)"
    let ?k = "unat (?tail - cached_tail p)"
    let ?p = "p\<lparr>cached_tail := cached_tail p + of_nat ?k\<rparr>"
    let ?s2 = "?s1\<lparr>rs_handles := (rs_handles ?s1)(h \<mapsto> ?p), rs_ppc := PReloaded h e ?cur\<rparr>"
    let ?s3 = "?s2\<lparr>rs_ppc := PWrite h e ?cur\<rparr>"
    have s2: "ring_step allowed ?s1 ?s2"
      using assms(4) True by (intro ring_step.p_reload) auto
    have "\<not> RING_CAPACITY \<le> ?cur - ?tail"
      using assms(1,6) full_test [of "length (rs_popped s)" "length (rs_pushed s)"]
      by (simp add: ring_sys_inv_def counters_ok_def)
    then have "ring_step allowed ?s2 ?s3"
      by (intro ring_step.p_room) auto
    moreover obtain t where "(ring_step allowed)\<^sup>*\<^sup>* ?s3 t" and "push_done ?s3 e t"
      using write_completes [of ?s3] by fastforce
    moreover have "insert h (dom (rs_handles s)) = dom (rs_handles s)"
      using assms(4) by auto
    ultimately show ?thesis
      using s1 s2 by (intro exI [of _ t]) (auto simp: push_done_def intro!: converse_rtranclp_into_rtranclp)
  qed
qed

lemma read_completes:
  assumes "ring_sys_inv s" and "rs_cpc s = CRead t"
  shows "\<exists>u. (ring_step allowed)\<^sup>*\<^sup>* s u \<and> pop_done s (rs_pushed s ! length (rs_popped s)) u"
proof -
  let ?e = "rs_pushed s ! length (rs_popped s)"
  let ?s1 = "s\<lparr>rs_cpc := CStore t ?e\<rparr>"
  have "ring_step allowed s ?s1"
    using assms(2) read_slot(3) [OF assms] by (rule ring_step.c_read)
  moreover have "ring_step allowed ?s1 (?s1\<lparr>rs_mem := (rs_mem ?s1)\<lparr>ring_tail := t + 1\<rparr>, rs_cpc := CIdle,
      rs_popped := rs_popped ?s1 @ [?e]\<rparr>)" (is "ring_step _ _ ?s2")
    by (rule ring_step.c_store) simp
  ultimately have "(ring_step allowed)\<^sup>*\<^sup>* s ?s2"
    by (rule two_steps)
  then show ?thesis by (auto simp: pop_done_def intro!: exI [of _ ?s2])
qed

lemma pop_completes:
  assumes "ring_sys_inv s" and "safe_regime s" and "rs_cpc s = CIdle"
    and "length (rs_popped s) < length (rs_pushed s)"
  shows "\<exists>u. (ring_step allowed)\<^sup>*\<^sup>* s u \<and> pop_done s (rs_pushed s ! length (rs_popped s)) u"
proof -
  let ?tail = "ring_tail (rs_mem s)" and ?c = "cached_head (rs_consumer s)"
  let ?s1 = "s\<lparr>rs_cpc := CLoaded ?tail\<rparr>"
  have s1: "ring_step allowed s ?s1"
    using assms(3) by (rule ring_step.c_start)
  have inv1: "ring_sys_inv ?s1"
    using assms(1) by (rule load_tail_inv)
  have "\<exists>v. (ring_step allowed)\<^sup>*\<^sup>* ?s1 v \<and> ring_sys_inv v \<and> rs_cpc v = CRead ?tail \<and>
      rs_popped v = rs_popped s \<and> rs_pushed v = rs_pushed s \<and> rs_handles v = rs_handles s \<and> rs_ppc v = rs_ppc s"
  proof (cases "?c - ?tail = 0")
    case False
    then have "ring_step allowed ?s1 (?s1\<lparr>rs_cpc := CRead ?tail\<rparr>)" (is "ring_step _ _ ?r")
      by (intro ring_step.c_fast) auto
    then have "(ring_step allowed)\<^sup>*\<^sup>* ?s1 ?r"
      by (rule r_into_rtranclp)
    moreover have "ring_sys_inv (?s1\<lparr>rs_cpc := CRead ?tail\<rparr>)"
      using inv1 False by (intro nonempty_inv) auto
    ultimately show ?thesis by (intro exI [of _ ?r]) simp
  next
    case True
    let ?k = "unat (ring_head (rs_mem s) - ?c)"
    let ?s2 = "?s1\<lparr>rs_consumer := \<lparr>cached_head = ?c + of_nat ?k\<rparr>, rs_cpc := CReloaded ?tail\<rparr>"
    have s2: "ring_step allowed ?s1 ?s2"
      using True ring_step.c_reload [of ?s1 ?tail ?k allowed] by simp
    have inv2: "ring_sys_inv ?s2"
      using reload_head_inv [OF inv1, of ?tail ?k] by simp
    have "length (rs_pushed s) \<le> length (rs_popped s) + 131072"
      using assms(1) by (simp add: ring_sys_inv_def counters_ok_def)
    then have "length (rs_pushed s) - length (rs_popped s) < 2 ^ 64"
      by simp
    then have "ring_head (rs_mem s) - ?tail \<noteq> 0"
      using assms(1,4) of_nat_diff_0_iff [of "length (rs_popped s)" "length (rs_pushed s)"]
      by (simp add: ring_sys_inv_def counters_ok_def)
    then have ne: "cached_head (rs_consumer ?s2) - ?tail \<noteq> 0"
      by simp
    have "ring_step allowed ?s2 (?s2\<lparr>rs_cpc := CRead ?tail\<rparr>)" (is "ring_step _ _ ?r")
      using ne by (intro ring_step.c_some) auto
    with s2 have "(ring_step allowed)\<^sup>*\<^sup>* ?s1 ?r"
      by (rule two_steps)
    moreover have "ring_sys_inv (?s2\<lparr>rs_cpc := CRead ?tail\<rparr>)"
      using inv2 ne by (intro nonempty_inv) auto
    ultimately show ?thesis by (intro exI [of _ ?r]) simp
  qed
  then obtain v where v: "(ring_step allowed)\<^sup>*\<^sup>* ?s1 v" "ring_sys_inv v" "rs_cpc v = CRead ?tail"
    and same: "rs_popped v = rs_popped s" "rs_pushed v = rs_pushed s" "rs_handles v = rs_handles s" "rs_ppc v = rs_ppc s"
    by blast
  obtain u where u: "(ring_step allowed)\<^sup>*\<^sup>* v u" "pop_done v (rs_pushed v ! length (rs_popped v)) u"
    using read_completes [OF v(2,3)] by blast
  have "(ring_step allowed)\<^sup>*\<^sup>* s u"
    using s1 v(1) u(1) by (meson converse_rtranclp_into_rtranclp rtranclp_trans)
  with u(2) show ?thesis by (auto simp: same pop_done_def)
qed

text \<open>
  C3: in every interleaving of the producer's and the consumer's memory accesses, with acquire
  loads that may be stale, the events popped are a prefix of the events pushed (same events,
  same order, none twice), at most 131072 are in between, the producer never writes a slot the
  consumer is about to read, and neither side indexes outside the slots or reads an unwritten
  one. This holds for ever for a single producer handle, and with clones of the handle for the
  first \<open>2 ^ 64\<close> events.
\<close>

theorem concurrent_ring_correct:
  assumes "ring_reachable allowed s" and "safe_regime s"
  shows "rs_popped s = take (length (rs_popped s)) (rs_pushed s)
       \<and> length (rs_pushed s) \<le> length (rs_popped s) + capacity
       \<and> \<not> data_race s \<and> \<not> faulting s"
proof -
  have "ring_sys_inv s"
    using ring_reachable_inv assms by blast
  then show ?thesis
    using inv_no_race inv_no_fault by (auto simp: ring_sys_inv_def slots_ok_def counters_ok_def)
qed

lemma reachable_steps: "(ring_step allowed)\<^sup>*\<^sup>* s t \<Longrightarrow> ring_reachable allowed s \<Longrightarrow> ring_reachable allowed t"
  by (induction rule: rtranclp_induct) (auto intro: ring_next)

text \<open>
  C19: progress. In every reachable state an idle producer that finds the ring not full can
  complete its push, and an idle consumer that finds it not empty can complete its pop and get
  the oldest event, each by its own steps, whatever access the other side stopped at: neither
  side ever waits for the other.
\<close>

theorem concurrent_ring_progress:
  assumes "ring_reachable allowed s" and "safe_regime s"
  shows "(rs_ppc s = PIdle \<and> rs_handles s h = Some p \<and> allowed (rs_pushed s) e \<and>
            length (rs_pushed s) < length (rs_popped s) + capacity \<longrightarrow>
          (\<exists>t. (ring_step allowed)\<^sup>*\<^sup>* s t \<and> push_done s e t)) \<and>
         (rs_cpc s = CIdle \<and> length (rs_popped s) < length (rs_pushed s) \<longrightarrow>
          (\<exists>t. (ring_step allowed)\<^sup>*\<^sup>* s t \<and> pop_done s (rs_pushed s ! length (rs_popped s)) t))"
proof -
  have "ring_sys_inv s"
    using ring_reachable_inv assms by blast
  then show ?thesis
    using push_completes [of s h p allowed e] pop_completes [of s allowed] assms(2) by auto
qed

lemma safe_regime_single: "dom (rs_handles s) = {0} \<Longrightarrow> safe_regime s"
  by (simp add: safe_regime_def)

theorem concurrent_ring_progress_witness:
  "\<exists>s. ring_reachable (\<lambda>_ _. True) s \<and> safe_regime s \<and> push_done ring_sys_init (sample_event 7) s"
proof -
  have "safe_regime ring_sys_init"
    by (simp add: safe_regime_def ring_sys_init_def)
  from concurrent_ring_progress [OF ring_start [of "\<lambda>_ _. True"] this,
      where h = 0 and p = AegisProducer_new and e = "sample_event 7"]
  obtain s where s: "(ring_step (\<lambda>_ _. True))\<^sup>*\<^sup>* ring_sys_init s" "push_done ring_sys_init (sample_event 7) s"
    by (auto simp: ring_sys_init_def)
  moreover have "safe_regime s"
    using s(2) by (simp add: push_done_def ring_sys_init_def safe_regime_def)
  ultimately show ?thesis
    using reachable_steps [OF s(1)] ring_start by blast
qed

text \<open>A run in which one event is pushed and popped, for the witness of the safety property.\<close>

lemma one_event_run:
  "\<exists>s. ring_reachable (\<lambda>_ _. True) s \<and> safe_regime s \<and>
     rs_pushed s = [sample_event 7] \<and> rs_popped s = [sample_event 7]"
proof -
  have "safe_regime ring_sys_init"
    by (simp add: safe_regime_def ring_sys_init_def)
  from push_completes [OF ring_sys_inv_init this, of 0 AegisProducer_new "\<lambda>_ _. True" "sample_event 7"]
  obtain s where s: "(ring_step (\<lambda>_ _. True))\<^sup>*\<^sup>* ring_sys_init s" "push_done ring_sys_init (sample_event 7) s"
    by (auto simp: ring_sys_init_def)
  have reach: "ring_reachable (\<lambda>_ _. True) s"
    using reachable_steps [OF s(1) ring_start] .
  have single: "dom (rs_handles s) = {0}" and pc: "rs_cpc s = CIdle"
    and hist: "rs_pushed s = [sample_event 7]" "rs_popped s = []"
    using s(2) by (simp_all add: push_done_def ring_sys_init_def)
  from ring_reachable_inv [OF reach] single have "ring_sys_inv s"
    by (simp add: safe_regime_def)
  from pop_completes [OF this safe_regime_single [OF single] pc, of "\<lambda>_ _. True"] hist
  obtain t where t: "(ring_step (\<lambda>_ _. True))\<^sup>*\<^sup>* s t" "pop_done s (sample_event 7) t"
    by auto
  then show ?thesis
    using reachable_steps [OF t(1) reach] single hist
    by (auto simp: pop_done_def safe_regime_def)
qed

theorem concurrent_ring_correct_witness:
  "\<exists>s. ring_reachable (\<lambda>_ _. True) s \<and> rs_pushed s = [sample_event 7] \<and>
     rs_popped s = take 1 [sample_event 7] \<and> \<not> data_race s \<and> \<not> faulting s"
proof -
  obtain s where s: "ring_reachable (\<lambda>_ _. True) s" "safe_regime s"
      "rs_pushed s = [sample_event 7]" "rs_popped s = [sample_event 7]"
    using one_event_run by blast
  with concurrent_ring_correct [OF s(1,2)] show ?thesis by auto
qed

end
