(* ===== verification/Rust_Text.thy ===== *)
theory Rust_Text
  imports Prelude
begin

text \<open>
  What the Chronos sources use of Rust's \<^verbatim>\<open>str\<close> and \<^verbatim>\<open>String\<close>: a string is its list of Unicode
  scalar values; UTF-8 encoding, the lossy and the strict decoding, white space, \<^verbatim>\<open>trim\<close>,
  \<^verbatim>\<open>split_whitespace\<close>, \<^verbatim>\<open>to_uppercase\<close>, \<^verbatim>\<open>split_once\<close>, \<^verbatim>\<open>BufRead::lines\<close> and the decimal
  \<^verbatim>\<open>Display\<close> of an unsigned number.
\<close>

type_synonym ustring = "nat list"

definition ascii :: "string \<Rightarrow> ustring" where
  "ascii s = map of_char s"

definition is_scalar :: "nat \<Rightarrow> bool" where
  "is_scalar c \<longleftrightarrow> c < 0xD800 \<or> 0xE000 \<le> c \<and> c < 0x110000"

section \<open>UTF-8\<close>

definition utf8_encode_char :: "nat \<Rightarrow> bytes" where
  "utf8_encode_char c = map of_nat
     (if c < 0x80 then [c]
      else if c < 0x800 then [0xC0 + c div 64, 0x80 + c mod 64]
      else if c < 0x10000 then [0xE0 + c div 4096, 0x80 + c div 64 mod 64, 0x80 + c mod 64]
      else [0xF0 + c div 262144, 0x80 + c div 4096 mod 64, 0x80 + c div 64 mod 64, 0x80 + c mod 64])"

definition utf8_encode :: "ustring \<Rightarrow> bytes" where
  "utf8_encode t = concat (map utf8_encode_char t)"

text \<open>
  One step of the decoder: the scalar at the front, or \<^const>\<open>None\<close> for an ill-formed sequence,
  and the number of bytes it takes. An ill-formed sequence ends before the first byte that
  cannot continue it; beyond the end of the input the decoder sees zeros.
\<close>

definition byte_at :: "bytes \<Rightarrow> nat \<Rightarrow> nat" where
  "byte_at bs i = (if i < length bs then unat (bs ! i) else 0)"

definition is_cont :: "nat \<Rightarrow> bool" where
  "is_cont b \<longleftrightarrow> 0x80 \<le> b \<and> b < 0xC0"

definition utf8_char_width :: "nat \<Rightarrow> nat" where
  "utf8_char_width b =
     (if b < 0x80 then 1 else if 0xC2 \<le> b \<and> b < 0xE0 then 2
      else if 0xE0 \<le> b \<and> b < 0xF0 then 3 else if 0xF0 \<le> b \<and> b < 0xF5 then 4 else 0)"

definition second_ok_3 :: "nat \<Rightarrow> nat \<Rightarrow> bool" where
  "second_ok_3 b0 b1 \<longleftrightarrow> (if b0 = 0xE0 then 0xA0 \<le> b1 \<and> b1 < 0xC0
     else if b0 = 0xED then 0x80 \<le> b1 \<and> b1 < 0xA0 else is_cont b1)"

definition second_ok_4 :: "nat \<Rightarrow> nat \<Rightarrow> bool" where
  "second_ok_4 b0 b1 \<longleftrightarrow> (if b0 = 0xF0 then 0x90 \<le> b1 \<and> b1 < 0xC0
     else if b0 = 0xF4 then 0x80 \<le> b1 \<and> b1 < 0x90 else is_cont b1)"

definition utf8_decode_char :: "bytes \<Rightarrow> nat option \<times> nat" where
  "utf8_decode_char bs =
     (let b0 = byte_at bs 0; b1 = byte_at bs 1; b2 = byte_at bs 2; b3 = byte_at bs 3;
          w = utf8_char_width b0 in
      if w = 1 then (Some b0, 1)
      else if w = 2 then
        (if \<not> is_cont b1 then (None, 1) else (Some (b0 mod 32 * 64 + b1 mod 64), 2))
      else if w = 3 then
        (if \<not> second_ok_3 b0 b1 then (None, 1) else if \<not> is_cont b2 then (None, 2)
         else (Some (b0 mod 16 * 4096 + b1 mod 64 * 64 + b2 mod 64), 3))
      else if w = 4 then
        (if \<not> second_ok_4 b0 b1 then (None, 1) else if \<not> is_cont b2 then (None, 2)
         else if \<not> is_cont b3 then (None, 3)
         else (Some (b0 mod 8 * 262144 + b1 mod 64 * 4096 + b2 mod 64 * 64 + b3 mod 64), 4))
      else (None, 1))"

fun utf8_chunks :: "bytes \<Rightarrow> nat option list" where
  "utf8_chunks [] = []"
| "utf8_chunks (b # bs) =
     (case utf8_decode_char (b # bs) of (c, n) \<Rightarrow> c # utf8_chunks (drop (n - 1) bs))"

definition from_utf8_lossy :: "bytes \<Rightarrow> ustring" where
  "from_utf8_lossy bs = map (\<lambda>c. case c of Some x \<Rightarrow> x | None \<Rightarrow> 0xFFFD) (utf8_chunks bs)"

definition from_utf8 :: "bytes \<Rightarrow> ustring option" where
  "from_utf8 bs =
     (let cs = utf8_chunks bs in if None \<in> set cs then None else Some (map the cs))"

lemma byte_at_simps [simp]:
  "byte_at [] i = 0" "byte_at (b # bs) 0 = unat b" "byte_at (b # bs) (Suc i) = byte_at bs i"
  by (simp_all add: byte_at_def)

lemma unat_byte [simp]: "n < 256 \<Longrightarrow> unat (of_nat n :: u8) = n"
  by (rule unat_eq_of_nat) simp

lemmas utf8_simps = utf8_decode_char_def utf8_encode_char_def utf8_char_width_def is_cont_def
  second_ok_3_def second_ok_4_def Let_def

lemma byte_at_map:
  "i < length ns \<Longrightarrow> ns ! i < 256 \<Longrightarrow> byte_at (map of_nat ns @ bs) i = ns ! i"
  by (simp add: byte_at_def nth_append)

lemma decode_1: "c < 0x80 \<Longrightarrow> utf8_decode_char (utf8_encode_char c @ bs) = (Some c, 1)"
  by (simp add: utf8_simps)

text \<open>The digits of a scalar in base 64, as the encodings of two to four bytes hold them.\<close>

lemma base_64: "(c :: nat) = 64 * (c div 64) + c mod 64"
  "c div 64 = 64 * (c div 4096) + c div 64 mod 64"
  "c div 4096 = 64 * (c div 262144) + c div 4096 mod 64"
proof -
  have divs: "c div 64 div 64 = c div 4096" "c div 4096 div 64 = c div 262144"
    by (simp_all flip: div_mult2_eq)
  show "c = 64 * (c div 64) + c mod 64"
    by (rule mult_div_mod_eq [symmetric])
  show "c div 64 = 64 * (c div 4096) + c div 64 mod 64" "c div 4096 = 64 * (c div 262144) + c div 4096 mod 64"
    unfolding divs [symmetric] by (rule mult_div_mod_eq [symmetric])+
qed

lemma digit_mods: "q < 32 \<Longrightarrow> (0xC0 + q) mod 32 = (q :: nat)" "p < 16 \<Longrightarrow> (0xE0 + p) mod 16 = (p :: nat)"
  "u < 8 \<Longrightarrow> (0xF0 + u) mod 8 = (u :: nat)" "r < 64 \<Longrightarrow> (0x80 + r) mod 64 = (r :: nat)"
  by (subst mod_add_eq [symmetric], simp)+

lemma decode_2:
  assumes "0x80 \<le> c" and "c < 0x800"
  shows "utf8_decode_char (utf8_encode_char c @ bs) = (Some c, 2)"
proof -
  define q r where "q = c div 64" and "r = c mod 64"
  have c: "c = 64 * q + r" and q: "2 \<le> q" "q < 32" and r: "r < 64"
    using assms base_64(1) [of c] unfolding q_def r_def by linarith+
  let ?x = "utf8_encode_char c @ bs"
  have "?x = map of_nat [0xC0 + q, 0x80 + r] @ bs"
    using assms by (simp add: utf8_encode_char_def q_def r_def)
  then have "byte_at ?x 0 = 0xC0 + q" "byte_at ?x 1 = 0x80 + r"
    using q r by (simp_all add: byte_at_map del: map_append list.map append_Cons)
  with q r show ?thesis
    unfolding utf8_decode_char_def Let_def by (simp add: utf8_char_width_def is_cont_def digit_mods c)
qed

lemma decode_3:
  assumes "0x800 \<le> c" and "c < 0x10000" and "is_scalar c"
  shows "utf8_decode_char (utf8_encode_char c @ bs) = (Some c, 3)"
proof -
  define p q r where "p = c div 4096" and "q = c div 64 mod 64" and "r = c mod 64"
  have c: "c = 4096 * p + 64 * q + r"
    using base_64(1,2) [of c] unfolding p_def q_def r_def by linarith
  have qr: "q < 64" "r < 64"
    by (simp_all add: q_def r_def)
  have "c < 55296 \<or> 57344 \<le> c"
    using assms(3) by (auto simp: is_scalar_def)
  then have b: "p < 16" "q < 64" "r < 64" "p = 0 \<Longrightarrow> 32 \<le> q" "p = 13 \<Longrightarrow> q < 32"
    using assms(1,2) qr unfolding c by linarith+
  let ?x = "utf8_encode_char c @ bs"
  have "?x = map of_nat [0xE0 + p, 0x80 + q, 0x80 + r] @ bs"
    using assms by (simp add: utf8_encode_char_def p_def q_def r_def)
  then have "byte_at ?x 0 = 0xE0 + p" "byte_at ?x 1 = 0x80 + q" "byte_at ?x 2 = 0x80 + r"
    using b by (simp_all add: byte_at_map del: map_append list.map append_Cons)
  with b show ?thesis
    unfolding utf8_decode_char_def Let_def
    by (simp add: utf8_char_width_def is_cont_def second_ok_3_def digit_mods c)
qed

lemma decode_4:
  assumes "0x10000 \<le> c" and "is_scalar c"
  shows "utf8_decode_char (utf8_encode_char c @ bs) = (Some c, 4)"
proof -
  define u p q r where "u = c div 262144" and "p = c div 4096 mod 64" and "q = c div 64 mod 64" and "r = c mod 64"
  have c: "c = 262144 * u + 4096 * p + 64 * q + r"
    using base_64 [of c] unfolding u_def p_def q_def r_def by linarith
  have pqr: "p < 64" "q < 64" "r < 64"
    by (simp_all add: p_def q_def r_def)
  have "c < 1114112"
    using assms by (auto simp: is_scalar_def)
  then have b: "u < 5" "p < 64" "q < 64" "r < 64" "u = 0 \<Longrightarrow> 16 \<le> p" "u = 4 \<Longrightarrow> p < 16"
    using assms(1) pqr unfolding c by linarith+
  let ?x = "utf8_encode_char c @ bs"
  have "?x = map of_nat [0xF0 + u, 0x80 + p, 0x80 + q, 0x80 + r] @ bs"
    using assms by (simp add: utf8_encode_char_def u_def p_def q_def r_def)
  then have "byte_at ?x 0 = 0xF0 + u" "byte_at ?x 1 = 0x80 + p" "byte_at ?x 2 = 0x80 + q" "byte_at ?x 3 = 0x80 + r"
    using b by (simp_all add: byte_at_map del: map_append list.map append_Cons)
  with b show ?thesis
    unfolding utf8_decode_char_def Let_def
    by (simp add: utf8_char_width_def is_cont_def second_ok_4_def digit_mods c)
qed

lemma utf8_decode_encode_char:
  assumes "is_scalar c"
  shows "utf8_decode_char (utf8_encode_char c @ bs) = (Some c, length (utf8_encode_char c))"
proof -
  consider "c < 0x80" | "0x80 \<le> c" "c < 0x800" | "0x800 \<le> c" "c < 0x10000" | "0x10000 \<le> c"
    by linarith
  then show ?thesis
    using assms by cases (simp_all add: decode_1 decode_2 decode_3 decode_4, simp_all add: utf8_encode_char_def)
qed

lemma utf8_encode_char_not_Nil: "utf8_encode_char c \<noteq> []"
  by (simp add: utf8_encode_char_def)

lemma utf8_chunks_append:
  "list_all is_scalar t \<Longrightarrow> utf8_chunks (utf8_encode t @ bs) = map Some t @ utf8_chunks bs"
proof (induction t)
  case (Cons c t)
  let ?rest = "utf8_encode t @ bs"
  obtain b e where e: "utf8_encode_char c = b # e"
    using utf8_encode_char_not_Nil by (metis list.exhaust)
  have "utf8_decode_char (b # e @ ?rest) = (Some c, Suc (length e))"
    using utf8_decode_encode_char [of c ?rest] Cons.prems by (simp add: e)
  with Cons show ?case
    by (simp add: utf8_encode_def e)
qed (simp add: utf8_encode_def)

lemma utf8_lossy_encode [simp]: "list_all is_scalar t \<Longrightarrow> from_utf8_lossy (utf8_encode t) = t"
  using utf8_chunks_append [of t "[]"] by (simp add: from_utf8_lossy_def comp_def)

lemma utf8_strict_encode [simp]: "list_all is_scalar t \<Longrightarrow> from_utf8 (utf8_encode t) = Some t"
  using utf8_chunks_append [of t "[]"] by (simp add: from_utf8_def Let_def comp_def)

section \<open>White space and words\<close>

text \<open>\<^verbatim>\<open>char::is_whitespace\<close>: the Unicode property White_Space.\<close>

definition is_whitespace :: "nat \<Rightarrow> bool" where
  "is_whitespace c \<longleftrightarrow> 9 \<le> c \<and> c \<le> 13 \<or> c = 0x20 \<or> c = 0x85 \<or> c = 0xA0 \<or> c = 0x1680 \<or>
     0x2000 \<le> c \<and> c \<le> 0x200A \<or> c = 0x2028 \<or> c = 0x2029 \<or> c = 0x202F \<or> c = 0x205F \<or> c = 0x3000"

definition trim :: "ustring \<Rightarrow> ustring" where
  "trim t = rev (dropWhile is_whitespace (rev (dropWhile is_whitespace t)))"

text \<open>The maximal runs of other characters; the first argument holds the run being read.\<close>

fun words_from :: "ustring \<Rightarrow> ustring \<Rightarrow> ustring list" where
  "words_from w [] = (if w = [] then [] else [w])"
| "words_from w (c # t) =
     (if is_whitespace c then (if w = [] then words_from [] t else w # words_from [] t)
      else words_from (w @ [c]) t)"

definition split_whitespace :: "ustring \<Rightarrow> ustring list" where
  "split_whitespace t = words_from [] t"

fun join :: "ustring \<Rightarrow> ustring list \<Rightarrow> ustring" where
  "join sep [] = []"
| "join sep [t] = t"
| "join sep (t # ts) = t @ sep @ join sep ts"

definition is_word :: "ustring \<Rightarrow> bool" where
  "is_word w \<longleftrightarrow> w \<noteq> [] \<and> (\<forall>c \<in> set w. \<not> is_whitespace c)"

lemma words_from_words:
  "(\<forall>c \<in> set w. \<not> is_whitespace c) \<Longrightarrow> x \<in> set (words_from w t) \<Longrightarrow> is_word x"
proof (induction w t rule: words_from.induct)
  case (1 w)
  then show ?case by (simp add: is_word_def split: if_splits)
next
  case (2 w c t)
  show ?case
  proof (cases "is_whitespace c")
    case True
    with 2 show ?thesis by (cases "w = []") (auto simp: is_word_def)
  next
    case False
    with 2 show ?thesis by auto
  qed
qed

lemma split_whitespace_words: "x \<in> set (split_whitespace t) \<Longrightarrow> is_word x"
  unfolding split_whitespace_def by (rule words_from_words) auto

lemma words_from_word:
  "\<forall>c \<in> set u. \<not> is_whitespace c \<Longrightarrow> words_from w (u @ t) = words_from (w @ u) t"
  by (induction u arbitrary: w) auto

lemma words_from_space: "is_whitespace c \<Longrightarrow> w \<noteq> [] \<Longrightarrow> words_from w (c # t) = w # words_from [] t"
  by simp

lemma split_whitespace_word_space:
  "is_word w \<Longrightarrow> is_whitespace c \<Longrightarrow> split_whitespace (w @ c # t) = w # split_whitespace t"
  by (simp add: split_whitespace_def words_from_word is_word_def)

lemma split_whitespace_word: "is_word w \<Longrightarrow> split_whitespace w = [w]"
  using words_from_word [of w "[]" "[]"] by (simp add: split_whitespace_def is_word_def)

lemma split_whitespace_skip: "is_whitespace c \<Longrightarrow> split_whitespace (c # t) = split_whitespace t"
  by (simp add: split_whitespace_def)

text \<open>Splitting undoes joining with single spaces.\<close>

lemma split_join:
  "\<forall>w \<in> set ws. is_word w \<Longrightarrow> split_whitespace (join [0x20] ws) = ws"
proof (induction ws)
  case Nil
  then show ?case by (simp add: split_whitespace_def)
next
  case (Cons w ws)
  then show ?case
    by (cases ws) (simp_all add: split_whitespace_word split_whitespace_word_space is_whitespace_def)
qed

lemma split_dropWhile: "split_whitespace (dropWhile is_whitespace t) = split_whitespace t"
  by (induction t) (auto simp: split_whitespace_skip)

lemma words_from_trailing:
  "\<forall>c \<in> set s. is_whitespace c \<Longrightarrow> words_from w (t @ s) = words_from w t"
proof (induction w t rule: words_from.induct)
  case (1 w)
  then show ?case
  proof (induction s arbitrary: w)
    case (Cons c s)
    from Cons.IH [of "[]"] Cons.prems show ?case by auto
  qed simp
qed auto

lemma split_trim: "split_whitespace (trim t) = split_whitespace t"
proof -
  let ?u = "dropWhile is_whitespace t"
  have "?u = rev (dropWhile is_whitespace (rev ?u)) @ rev (takeWhile is_whitespace (rev ?u))"
    by (metis rev_append rev_rev_ident takeWhile_dropWhile_id)
  moreover have "\<forall>c \<in> set (rev (takeWhile is_whitespace (rev ?u))). is_whitespace c"
    by (auto dest: set_takeWhileD)
  ultimately have "split_whitespace ?u = split_whitespace (rev (dropWhile is_whitespace (rev ?u)))"
    unfolding split_whitespace_def by (metis words_from_trailing)
  then show ?thesis by (simp add: trim_def split_dropWhile)
qed

lemma split_whitespace_Nil_iff: "split_whitespace t = [] \<longleftrightarrow> (\<forall>c \<in> set t. is_whitespace c)"
proof -
  have "words_from w t = [] \<longleftrightarrow> w = [] \<and> (\<forall>c \<in> set t. is_whitespace c)" for w
    by (induction w t rule: words_from.induct) auto
  then show ?thesis by (simp add: split_whitespace_def)
qed

text \<open>
  \<^verbatim>\<open>str::to_uppercase\<close>, as far as a comparison with an ASCII keyword can tell: the characters
  whose full upper case mapping consists of ASCII letters. Every other character maps to
  something with a non-ASCII character in it, and is left as it is.
\<close>

definition upper_char :: "nat \<Rightarrow> ustring" where
  "upper_char c =
     (if 97 \<le> c \<and> c \<le> 122 then [c - 32]
      else if c = 0xDF then ascii ''SS'' else if c = 0x131 then ascii ''I''
      else if c = 0x17F then ascii ''S'' else if c = 0xFB00 then ascii ''FF''
      else if c = 0xFB01 then ascii ''FI'' else if c = 0xFB02 then ascii ''FL''
      else if c = 0xFB03 then ascii ''FFI'' else if c = 0xFB04 then ascii ''FFL''
      else if c = 0xFB05 \<or> c = 0xFB06 then ascii ''ST'' else [c])"

definition to_uppercase :: "ustring \<Rightarrow> ustring" where
  "to_uppercase t = concat (map upper_char t)"

definition eq_ignore_ascii_case :: "ustring \<Rightarrow> ustring \<Rightarrow> bool" where
  "eq_ignore_ascii_case s t \<longleftrightarrow>
     (let lower = map (\<lambda>c. if 65 \<le> c \<and> c \<le> 90 then c + 32 else c) in lower s = lower t)"

section \<open>Lines and separators\<close>

fun split_once :: "nat \<Rightarrow> ustring \<Rightarrow> (ustring \<times> ustring) option" where
  "split_once sep [] = None"
| "split_once sep (c # t) =
     (if c = sep then Some ([], t) else map_option (\<lambda>(k, v). (c # k, v)) (split_once sep t))"

lemma split_once_append: "sep \<notin> set k \<Longrightarrow> split_once sep (k @ sep # v) = Some (k, v)"
  by (induction k) auto

text \<open>
  \<^verbatim>\<open>BufRead::lines\<close>: the pieces that end in a line feed, without it and without a carriage
  return before it, then the rest if there is any; a line that is not UTF-8 is an \<^verbatim>\<open>Err\<close>.
\<close>

definition strip_cr :: "bytes \<Rightarrow> bytes" where
  "strip_cr l = (if l \<noteq> [] \<and> last l = 13 then butlast l else l)"

fun raw_lines :: "bytes \<Rightarrow> bytes \<Rightarrow> bytes list" where
  "raw_lines acc [] = (if acc = [] then [] else [acc])"
| "raw_lines acc (b # bs) = (if b = 10 then strip_cr acc # raw_lines [] bs else raw_lines (acc @ [b]) bs)"

definition buf_lines :: "bytes \<Rightarrow> ustring option list" where
  "buf_lines bs = map from_utf8 (raw_lines [] bs)"

lemma raw_lines_line:
  "10 \<notin> set l \<Longrightarrow> raw_lines acc (l @ 10 # bs) = strip_cr (acc @ l) # raw_lines [] bs"
  by (induction l arbitrary: acc) auto

lemma raw_lines_rest: "10 \<notin> set l \<Longrightarrow> raw_lines acc l = (if acc @ l = [] then [] else [acc @ l])"
  by (induction l arbitrary: acc) auto

section \<open>Decimal numbers\<close>

fun show_dec :: "nat \<Rightarrow> ustring" where
  "show_dec n = (if n < 10 then [48 + n] else show_dec (n div 10) @ [48 + n mod 10])"

declare show_dec.simps [simp del]

fun read_dec :: "ustring \<Rightarrow> nat" where
  "read_dec t = foldl (\<lambda>n c. 10 * n + (c - 48)) 0 t"

declare read_dec.simps [simp del]

lemma read_show_dec [simp]: "read_dec (show_dec n) = n"
proof (induction n rule: show_dec.induct)
  case (1 n)
  then show ?case
    by (subst show_dec.simps) (auto simp: read_dec.simps)
qed

lemma show_dec_digits: "c \<in> set (show_dec n) \<Longrightarrow> 48 \<le> c \<and> c \<le> 57"
proof (induction n arbitrary: c rule: show_dec.induct)
  case (1 n)
  then show ?case
    by (subst (asm) (2) show_dec.simps) (auto split: if_splits)
qed

lemma show_dec_not_Nil: "show_dec n \<noteq> []"
  by (subst show_dec.simps) simp

lemma show_dec_inj: "show_dec m = show_dec n \<longleftrightarrow> m = n"
  by (metis read_show_dec)

end
