(* ===== verification/Throughput_Bench.thy ===== *)
theory Throughput_Bench
  imports Ring_Concurrency Rust_Text
begin

text \<open>
  The microbenchmark \<^verbatim>\<open>shared-ipc/examples/throughput.rs\<close>, a client of the ring. The
  single-threaded loop unwraps every result, so it panics if a push is ever refused or a pop
  ever empty; the two-thread loop spins instead. Both must deliver every event once, which the
  checksum they compute would show.
\<close>

section \<open>The single-threaded loop\<close>

definition DEFAULT_N :: usize where "DEFAULT_N = 50000000"
definition WARMUP_N :: usize where "WARMUP_N = 1000000"

definition make_event :: "u64 \<Rightarrow> stroke_event" where
  "make_event i = \<lparr>ev_session_id = 1, ev_timestamp = i, ev_x = 0, ev_y = 0, ev_pressure = 0x3F800000,
     ev_action = 1, ev_trace_id = replicate 16 0, ev_parent_span_id = replicate 8 0\<rparr>"

datatype bench_panic =
    RingFault ring_fault
  | PushRefused string \<comment> \<open>\<^verbatim>\<open>push(..).unwrap()\<close> on \<^verbatim>\<open>Err\<close>\<close>
  | PopEmpty \<comment> \<open>\<^verbatim>\<open>pop().unwrap()\<close> on \<^verbatim>\<open>None\<close>\<close>

type_synonym bench_state = "aegis_producer \<times> celer_consumer \<times> shared_ring"

text \<open>One iteration: push the event, pop it back.\<close>

definition push_pop :: "u64 \<Rightarrow> bench_state \<Rightarrow> bench_panic + stroke_event \<times> bench_state" where
  "push_pop i st =
     (case st of (p, c, r) \<Rightarrow>
        (case push (make_event i) p r of
           Inl f \<Rightarrow> Inl (RingFault f)
         | Inr (Inl m, p', r') \<Rightarrow> Inl (PushRefused m)
         | Inr (Inr _, p', r') \<Rightarrow>
             (case pop c r' of
                Inl f \<Rightarrow> Inl (RingFault f)
              | Inr (None, c', r'') \<Rightarrow> Inl PopEmpty
              | Inr (Some evt, c', r'') \<Rightarrow> Inr (evt, p', c', r''))))"

text \<open>\<open>bench_loop k i checksum st\<close>: the iterations \<open>i, \<dots>, i + k - 1\<close>.\<close>

fun bench_loop :: "nat \<Rightarrow> u64 \<Rightarrow> u64 \<Rightarrow> bench_state \<Rightarrow> bench_panic + u64 \<times> bench_state" where
  "bench_loop 0 i checksum st = Inr (checksum, st)"
| "bench_loop (Suc k) i checksum st =
     (case push_pop i st of
        Inl e \<Rightarrow> Inl e
      | Inr (evt, st') \<Rightarrow> bench_loop k (i + 1) (checksum + ev_timestamp evt) st')"

definition bench_single_threaded :: "usize \<Rightarrow> bench_panic + u64" where
  "bench_single_threaded n =
     (case bench_loop (unat WARMUP_N) 0 0 (AegisProducer_new, CelerConsumer_new, zeroed_ring) of
        Inl e \<Rightarrow> Inl e
      | Inr (_, st) \<Rightarrow>
          (case bench_loop (unat n) 0 0 st of Inl e \<Rightarrow> Inl e | Inr (checksum, _) \<Rightarrow> Inr checksum))"

text \<open>
  \<^verbatim>\<open>main\<close>: the iteration count is the first argument if there is one and it parses, else the default.
  \<^verbatim>\<open>str::parse\<close> takes decimal digits, at least one, after an optional plus sign, and refuses what does
  not fit.
\<close>

definition parse_usize :: "ustring \<Rightarrow> usize option" where
  "parse_usize s =
     (let digits = (case s of [] \<Rightarrow> [] | c # cs \<Rightarrow> if c = 43 then cs else s) in
      if digits \<noteq> [] \<and> list_all (\<lambda>c. 48 \<le> c \<and> c \<le> 57) digits \<and> read_dec digits < 2 ^ 64
      then Some (of_nat (read_dec digits)) else None)"

definition bench_count :: "ustring option \<Rightarrow> usize" where
  "bench_count arg =
     (case (case arg of None \<Rightarrow> None | Some s \<Rightarrow> parse_usize s) of Some n \<Rightarrow> n | None \<Rightarrow> DEFAULT_N)"

lemma parse_show_usize: "parse_usize (show_dec n) = (if n < 2 ^ 64 then Some (of_nat n) else None)"
proof -
  have digits: "list_all (\<lambda>c. 48 \<le> c \<and> c \<le> 57) (show_dec n)"
    using show_dec_digits by (auto simp: list_all_iff)
  with show_dec_not_Nil [of n] have "(case show_dec n of [] \<Rightarrow> [] | c # cs \<Rightarrow> if c = 43 then cs else show_dec n) = show_dec n"
    by (auto split: list.split)
  with digits show ?thesis
    by (simp add: parse_usize_def show_dec_not_Nil)
qed

text \<open>A count that does not fit gives the default, like one that is missing or no number.\<close>

lemma bench_count_arg:
  "bench_count (Some (show_dec n)) = (if n < 2 ^ 64 then of_nat n else DEFAULT_N)"
  "bench_count None = DEFAULT_N" "bench_count (Some []) = DEFAULT_N"
  "c \<in> set s \<Longrightarrow> 57 < c \<Longrightarrow> bench_count (Some s) = DEFAULT_N"
proof -
  show "bench_count (Some s) = DEFAULT_N" if "c \<in> set s" "57 < c"
  proof -
    have "parse_usize s = None"
      using that by (cases s) (force simp: parse_usize_def Let_def list_all_iff split: if_splits)+
    then show ?thesis by (simp add: bench_count_def)
  qed
qed (simp_all add: bench_count_def parse_show_usize, simp add: parse_usize_def)

definition idle_ring :: "bench_state \<Rightarrow> bool" where
  "idle_ring st \<longleftrightarrow> (case st of (p, c, r) \<Rightarrow> spsc_inv p c r \<and> queue_of r = [])"

lemma push_pop_returns:
  assumes "idle_ring st"
  obtains st' where "push_pop i st = Inr (make_event i, st')" and "idle_ring st'"
proof -
  obtain p c r where st: "st = (p, c, r)" by (cases st)
  with assms have inv: "spsc_inv p c r" and q: "queue_of r = []"
    by (simp_all add: idle_ring_def)
  obtain p' r' where "push (make_event i) p r = Inr (Inr (), p', r')"
    and "queue_of r' = queue_of r @ [make_event i]" and "spsc_inv p' c r'"
    using ring.push_accepts [OF inv, of "make_event i"] q by (auto simp del: length_queue_of)
  moreover from this(2) q have "queue_of r' = make_event i # []" by simp
  with \<open>spsc_inv p' c r'\<close> obtain c' r'' where "pop c r' = Inr (Some (make_event i), c', r'')"
    and "queue_of r'' = []" and "spsc_inv p' c' r''"
    using ring.pop_takes by blast
  ultimately show thesis
    by (intro that [of "(p', c', r'')"]) (simp_all add: push_pop_def st idle_ring_def)
qed

lemma bench_loop_returns:
  "idle_ring st \<Longrightarrow>
   \<exists>st'. bench_loop k i checksum st = Inr (checksum + (\<Sum>j<k. i + of_nat j), st') \<and> idle_ring st'"
proof (induction k arbitrary: i checksum st)
  case 0
  then show ?case by simp
next
  case (Suc k)
  from Suc.prems obtain st1 where "push_pop i st = Inr (make_event i, st1)" and "idle_ring st1"
    by (rule push_pop_returns)
  with Suc.IH [OF this(2), of "i + 1" "checksum + i"] show ?case
    by (simp add: make_event_def sum.lessThan_Suc_shift algebra_simps del: sum.lessThan_Suc)
qed

lemma sum_of_nat_word: "(\<Sum>j<k. of_nat j :: 'a::len word) = of_nat (k * (k - 1) div 2)"
proof -
  have "(\<Sum>j<k. j) = k * (k - 1) div 2"
    using gauss_sum_nat [of "k - 1"] by (cases k) (simp_all add: lessThan_Suc_atMost atLeast0AtMost algebra_simps)
  then show ?thesis by (simp only: of_nat_sum [symmetric])
qed

lemma bench_loop_checksum:
  assumes "idle_ring st"
  obtains st' where "bench_loop k 0 0 st = Inr (of_nat (k * (k - 1) div 2), st')" and "idle_ring st'"
  using bench_loop_returns [OF assms, of k 0 0] by (auto simp: sum_of_nat_word)

lemma idle_ring_new: "idle_ring (AegisProducer_new, CelerConsumer_new, zeroed_ring)"
  using spsc_inv_new by (simp add: idle_ring_def)

text \<open>
  C39: the single-threaded benchmark never panics, for any iteration count and across the
  million warm-up iterations before it: each push finds room, each pop returns the event just
  pushed, and the checksum is the sum of the timestamps in 64-bit arithmetic.
\<close>

theorem bench_single_threaded_checksum:
  "bench_single_threaded n = Inr (of_nat (unat n * (unat n - 1) div 2))"
proof -
  obtain c st where warm: "bench_loop (unat WARMUP_N) 0 0 (AegisProducer_new, CelerConsumer_new, zeroed_ring)
      = Inr (c, st)" and "idle_ring st"
    using idle_ring_new by (rule bench_loop_checksum)
  from this(2) obtain st' where "bench_loop (unat n) 0 0 st = Inr (of_nat (unat n * (unat n - 1) div 2), st')"
    by (rule bench_loop_checksum)
  with warm show ?thesis by (simp add: bench_single_threaded_def)
qed

section \<open>Two threads\<close>

text \<open>
  The producer thread counts \<^verbatim>\<open>sent\<close>, the consumer thread \<^verbatim>\<open>received\<close> and the checksum; each
  starts a call only while its count is below \<open>n\<close> and spins otherwise. The calls themselves
  interleave access by access as in \<^const>\<open>ring_step\<close>; a thread's locals change when its call
  returns.
\<close>

record bench_sys =
  bs_ring :: ring_sys
  bs_sent :: u64
  bs_received :: u64
  bs_checksum :: u64

definition bench_init :: bench_sys where
  "bench_init = \<lparr>bs_ring = ring_sys_init, bs_sent = 0, bs_received = 0, bs_checksum = 0\<rparr>"

definition count_call :: "ring_sys \<Rightarrow> bench_sys \<Rightarrow> bench_sys" where
  "count_call s b =
     (let pushed = drop (length (rs_pushed (bs_ring b))) (rs_pushed s);
          popped = drop (length (rs_popped (bs_ring b))) (rs_popped s) in
      b\<lparr>bs_ring := s, bs_sent := bs_sent b + of_nat (length pushed),
        bs_received := bs_received b + of_nat (length popped),
        bs_checksum := bs_checksum b + sum_list (map ev_timestamp popped)\<rparr>)"

inductive bench_step :: "u64 \<Rightarrow> bench_sys \<Rightarrow> bench_sys \<Rightarrow> bool" for n where
  bench_access:
    "ring_step (\<lambda>_ e. bs_sent b < n \<and> e = make_event (bs_sent b)) (bs_ring b) s \<Longrightarrow>
     dom (rs_handles s) = {0} \<Longrightarrow>
     rs_cpc (bs_ring b) = CIdle \<and> rs_cpc s \<noteq> CIdle \<longrightarrow> bs_received b < n \<Longrightarrow>
     bench_step n b (count_call s b)"

inductive bench_reachable :: "u64 \<Rightarrow> bench_sys \<Rightarrow> bool" for n where
  bench_start: "bench_reachable n bench_init"
| bench_next: "bench_reachable n b \<Longrightarrow> bench_step n b b' \<Longrightarrow> bench_reachable n b'"

definition sent_events :: "nat \<Rightarrow> stroke_event list" where
  "sent_events k = map (\<lambda>i. make_event (of_nat i)) [0..<k]"

lemma length_sent_events [simp]: "length (sent_events k) = k"
  by (simp add: sent_events_def)

lemma sent_events_Suc: "sent_events (Suc k) = sent_events k @ [make_event (of_nat k)]"
  by (simp add: sent_events_def)

lemma take_sent_events: "i \<le> k \<Longrightarrow> take i (sent_events k) = sent_events i"
  by (simp add: sent_events_def take_map)

fun in_flight :: "producer_pc \<Rightarrow> stroke_event option" where
  "in_flight PIdle = None"
| "in_flight (PLoaded h e cur) = Some e"
| "in_flight (PReloaded h e cur) = Some e"
| "in_flight (PWrite h e cur) = Some e"
| "in_flight (PStore h e cur) = Some e"

definition bench_inv :: "u64 \<Rightarrow> bench_sys \<Rightarrow> bool" where
  "bench_inv n b \<longleftrightarrow>
     (let s = bs_ring b; np = length (rs_pushed s) in
      ring_reachable (\<lambda>_ _. True) s \<and> dom (rs_handles s) = {0} \<and>
      np \<le> unat n \<and> rs_pushed s = sent_events np \<and>
      bs_sent b = of_nat np \<and> bs_received b = of_nat (length (rs_popped s)) \<and>
      bs_checksum b = sum_list (map ev_timestamp (rs_popped s)) \<and>
      (\<forall>e. in_flight (rs_ppc s) = Some e \<longrightarrow> e = make_event (of_nat np) \<and> np < unat n))"

lemma ring_step_mono:
  "ring_step A s t \<Longrightarrow> (\<And>e. A (rs_pushed s) e \<Longrightarrow> B (rs_pushed s) e) \<Longrightarrow> ring_step B s t"
  by (cases rule: ring_step.cases, assumption) (auto intro: ring_step.intros)

text \<open>What one access does to the history and to the event in flight.\<close>

lemma ring_step_history:
  assumes "ring_step A s t"
  shows "(rs_pushed t = rs_pushed s \<or> (\<exists>e. in_flight (rs_ppc s) = Some e \<and> rs_ppc t = PIdle \<and> rs_pushed t = rs_pushed s @ [e]))
    \<and> (rs_popped t = rs_popped s \<or> (\<exists>e. rs_popped t = rs_popped s @ [e]))
    \<and> (\<forall>e. in_flight (rs_ppc t) = Some e \<longrightarrow> rs_pushed t = rs_pushed s \<and> (in_flight (rs_ppc s) = Some e \<or> A (rs_pushed s) e))"
  using assms by (elim ring_stepE) auto

lemma bench_inv_init: "bench_inv n bench_init"
  by (auto simp: bench_inv_def bench_init_def ring_sys_init_def sent_events_def Let_def
      intro: ring_start [unfolded ring_sys_init_def])

lemma bench_counts:
  assumes "bench_inv n b" and "ring_step A (bs_ring b) s"
  shows "bs_sent (count_call s b) = of_nat (length (rs_pushed s))"
    and "bs_received (count_call s b) = of_nat (length (rs_popped s))"
    and "bs_checksum (count_call s b) = sum_list (map ev_timestamp (rs_popped s))"
proof -
  from ring_step_history [OF assms(2)] obtain es fs where
    "rs_pushed s = rs_pushed (bs_ring b) @ es" and "rs_popped s = rs_popped (bs_ring b) @ fs"
    by (metis append_Nil2)
  with assms(1) show "bs_sent (count_call s b) = of_nat (length (rs_pushed s))"
    and "bs_received (count_call s b) = of_nat (length (rs_popped s))"
    and "bs_checksum (count_call s b) = sum_list (map ev_timestamp (rs_popped s))"
    by (simp_all add: bench_inv_def count_call_def Let_def)
qed

lemma bench_step_inv [step_inv]:
  assumes "bench_step n b b'" and inv: "bench_inv n b"
  shows "bench_inv n b'"
  using assms(1)
proof cases
  case (bench_access s)
  let ?s = "bs_ring b" let ?np = "length (rs_pushed ?s)"
  have np: "?np \<le> unat n" "rs_pushed ?s = sent_events ?np" "bs_sent b = of_nat ?np"
    and flight: "\<And>e. in_flight (rs_ppc ?s) = Some e \<Longrightarrow> e = make_event (of_nat ?np) \<and> ?np < unat n"
    using inv by (simp_all add: bench_inv_def Let_def)
  have "ring_reachable (\<lambda>_ _. True) s"
    using inv ring_step_mono [OF bench_access(2)] by (auto simp: bench_inv_def Let_def intro: ring_next)
  moreover have "length (rs_pushed s) \<le> unat n \<and> rs_pushed s = sent_events (length (rs_pushed s))"
  proof (cases "rs_pushed s = rs_pushed ?s")
    case False
    then obtain e where "in_flight (rs_ppc ?s) = Some e" and "rs_pushed s = rs_pushed ?s @ [e]"
      using ring_step_history [OF bench_access(2)] by blast
    with np flight show ?thesis by (metis length_append_singleton sent_events_Suc Suc_leI)
  qed (use np in simp)
  moreover have "e = make_event (of_nat (length (rs_pushed s))) \<and> length (rs_pushed s) < unat n"
    if e: "in_flight (rs_ppc s) = Some e" for e
  proof -
    have same: "rs_pushed s = rs_pushed ?s"
      and "in_flight (rs_ppc ?s) = Some e \<or> bs_sent b < n \<and> e = make_event (bs_sent b)"
      using ring_step_history [OF bench_access(2)] e by blast+
    moreover have "?np < unat n" if "bs_sent b < n"
      using that np le_less_trans [OF np(1) unsigned_less, of]
      by (simp add: word_less_nat_alt unat_of_nat take_bit_nat_eq_self)
    ultimately show ?thesis
      using flight np(3) by auto
  qed
  moreover have "bs_ring b' = s"
    by (simp add: bench_access(1) count_call_def Let_def)
  ultimately show ?thesis
    using bench_counts [OF inv bench_access(2)] bench_access(1,3)
    unfolding bench_inv_def Let_def by metis
qed

lemma bench_reachable_inv: "bench_reachable n b \<Longrightarrow> bench_inv n b"
  by (induction rule: bench_reachable.induct) (auto intro: bench_inv_init bench_step_inv)

text \<open>
  The two-thread benchmark. However the accesses of the two threads interleave, the
  consumer has at every moment received a prefix of \<open>make_event 0, make_event 1, \<dots>\<close>, no
  slot is ever read and written at once, no access faults, and when it has received all \<open>n\<close>
  events the checksum is \<open>n (n - 1) / 2\<close>: the same as in the single-threaded loop.
\<close>

lemma bench_spsc_delivers:
  assumes "bench_reachable n b"
  shows "rs_popped (bs_ring b) = sent_events (length (rs_popped (bs_ring b))) \<and>
     bs_received b = of_nat (length (rs_popped (bs_ring b))) \<and> bs_received b \<le> bs_sent b \<and> bs_sent b \<le> n \<and>
     \<not> data_race (bs_ring b) \<and> \<not> faulting (bs_ring b) \<and>
     (bs_received b = n \<longrightarrow> bs_checksum b = of_nat (unat n * (unat n - 1) div 2))"
proof -
  let ?s = "bs_ring b" let ?np = "length (rs_pushed ?s)" and ?nc = "length (rs_popped ?s)"
  have inv: "bench_inv n b"
    using assms by (rule bench_reachable_inv)
  then have np: "?np \<le> unat n" "rs_pushed ?s = sent_events ?np" "bs_sent b = of_nat ?np" "bs_received b = of_nat ?nc"
    and sum: "bs_checksum b = sum_list (map ev_timestamp (rs_popped ?s))"
    by (simp_all add: bench_inv_def Let_def)
  have ring: "ring_sys_inv ?s"
    using inv ring_reachable_inv safe_regime_single unfolding bench_inv_def Let_def by blast
  then have nc: "?nc \<le> ?np" "rs_popped ?s = sent_events ?nc"
    using np(2) take_sent_events [of ?nc ?np] by (auto simp: ring_sys_inv_def counters_ok_def slots_ok_def)
  have small: "?np < 2 ^ 64"
    using le_less_trans [OF np(1)] unsigned_less [of n] by simp
  have "bs_checksum b = of_nat (unat n * (unat n - 1) div 2)" if "bs_received b = n"
  proof -
    have "?nc = unat n"
      using that np(4) small nc(1) by (auto simp: unat_of_nat take_bit_nat_eq_self)
    moreover have "sum_list (map ev_timestamp (sent_events k)) = (\<Sum>j<k. of_nat j)" for k
      by (simp add: sent_events_def make_event_def comp_def interv_sum_list_conv_sum_set_nat atLeast0LessThan)
    ultimately show ?thesis
      using sum nc(2) sum_of_nat_word by metis
  qed
  moreover have "bs_received b \<le> bs_sent b" "bs_sent b \<le> n"
    using small nc(1) np by (simp_all add: word_le_nat_alt unat_of_nat take_bit_nat_eq_self)
  ultimately show ?thesis
    using nc(2) np(4) inv_no_race [OF ring] inv_no_fault [OF ring] by simp
qed

text \<open>
  A run of the ring whose pushes are the benchmark's is a run of the benchmark, as long as the
  consumer still waits for events.
\<close>

definition bench_allowed :: "u64 \<Rightarrow> stroke_event list \<Rightarrow> stroke_event \<Rightarrow> bool" where
  "bench_allowed n pushed e \<longleftrightarrow> of_nat (length pushed) < n \<and> e = make_event (of_nat (length pushed))"

lemma ring_step_dom: "ring_step A s t \<Longrightarrow> dom (rs_handles s) \<subseteq> dom (rs_handles t)"
  by (cases rule: ring_step.cases, assumption) auto

lemma steps_any: "(ring_step A)\<^sup>*\<^sup>* s t \<Longrightarrow> (ring_step (\<lambda>_ _. True))\<^sup>*\<^sup>* s t"
  by (induction rule: rtranclp_induct) (auto intro: rtranclp.rtrancl_into_rtrancl ring_step_mono)

lemma bench_lift:
  assumes "(ring_step (bench_allowed n))\<^sup>*\<^sup>* (bs_ring b) t" and "bench_reachable n b"
    and "dom (rs_handles t) = {0}" and "length (rs_popped t) < unat n"
  shows "\<exists>b'. bench_reachable n b' \<and> bs_ring b' = t"
  using assms(1,3,4)
proof (induction rule: rtranclp_induct)
  case base
  then show ?case using assms(2) by blast
next
  case (step u t)
  have reach: "ring_reachable (\<lambda>_ _. True) u"
    using bench_reachable_inv [OF assms(2)]
    by (intro reachable_steps [OF steps_any [OF step.hyps(1)]]) (simp add: bench_inv_def Let_def)
  have "dom (rs_handles u) = {0}"
    using ring_step_dom [OF step.hyps(2)] step.prems(1) ring_reachable_inv [OF reach] by auto
  moreover have popped: "length (rs_popped u) < unat n"
    using ring_step_history [OF step.hyps(2)] step.prems(2) by auto
  ultimately obtain b1 where b1: "bench_reachable n b1" "bs_ring b1 = u"
    using step.IH by blast
  then have sent: "bs_sent b1 = of_nat (length (rs_pushed u))" "bs_received b1 = of_nat (length (rs_popped u))"
    using bench_reachable_inv [of n b1] by (auto simp: bench_inv_def Let_def)
  have "ring_step (\<lambda>_ e. bs_sent b1 < n \<and> e = make_event (bs_sent b1)) u t"
    using step.hyps(2) by (rule ring_step_mono) (simp add: bench_allowed_def sent)
  moreover have "bs_received b1 < n"
    using popped less_trans [OF popped unsigned_less [of n]]
    by (simp add: sent word_less_nat_alt unat_of_nat take_bit_nat_eq_self)
  ultimately have "bench_step n b1 (count_call t b1)"
    using b1(2) step.prems(1) by (intro bench_step.bench_access) auto
  then show ?case
    using b1(1) by (intro exI [of _ "count_call t b1"]) (auto simp: count_call_def Let_def intro: bench_next)
qed

lemma bench_spsc_delivers_example:
  "\<exists>b. bench_reachable 2 b \<and> rs_popped (bs_ring b) = [make_event 0] \<and> bs_received b = 1 \<and> \<not> faulting (bs_ring b)"
proof -
  let ?A = "bench_allowed 2"
  have "safe_regime ring_sys_init"
    by (simp add: safe_regime_def ring_sys_init_def)
  from push_completes [OF ring_sys_inv_init this, of 0 AegisProducer_new ?A "make_event 0"]
  obtain s where s: "(ring_step ?A)\<^sup>*\<^sup>* ring_sys_init s" "push_done ring_sys_init (make_event 0) s"
    by (auto simp: ring_sys_init_def bench_allowed_def)
  have reach: "ring_reachable ?A s"
    using reachable_steps [OF s(1) ring_start] .
  have single: "dom (rs_handles s) = {0}" and pc: "rs_cpc s = CIdle"
    and hist: "rs_pushed s = [make_event 0]" "rs_popped s = []"
    using s(2) by (simp_all add: push_done_def ring_sys_init_def)
  from ring_reachable_inv [OF reach] single have "ring_sys_inv s"
    by (simp add: safe_regime_def)
  from pop_completes [OF this safe_regime_single [OF single] pc, of ?A] hist
  obtain t where t: "(ring_step ?A)\<^sup>*\<^sup>* s t" "pop_done s (make_event 0) t"
    by auto
  have "(ring_step ?A)\<^sup>*\<^sup>* (bs_ring bench_init) t"
    using s(1) t(1) by (simp add: bench_init_def)
  from bench_lift [OF this bench_start] t(2) single hist
  obtain b where b: "bench_reachable 2 b" "bs_ring b = t"
    by (auto simp: pop_done_def)
  with bench_spsc_delivers [OF b(1)] t(2) hist show ?thesis
    by (auto simp: pop_done_def)
qed

end
