(* ===== verification/Aegis_Proxy.thy ===== *)
theory Aegis_Proxy
  imports Prelude "HOL-Library.Multiset"
begin

text \<open>
  The TCP proxy of \<^verbatim>\<open>aegis/src/main.rs\<close>: one \<^verbatim>\<open>io_uring\<close> thread per core, each with a pool
  of read buffers and a pool of idle connections to Chronos ("hot pipes"), one task per client
  connection, and three counters that all cores share. A task gives up its core only at an
  \<^verbatim>\<open>.await\<close>; the code between two awaits is one step. The contents of the sockets, the order
  in which operations complete and their failures come from outside, as events.

  The transfer of received bytes into a buffer is the \<^verbatim>\<open>tokio_uring\<close> crate's: it is the parameter
  \<open>read_into\<close>, of which the code relies on \<open>read_into [] d = d\<close> (reading into a cleared buffer
  leaves exactly the bytes read).
\<close>

section \<open>State\<close>

definition BUFFER_SIZE :: nat where "BUFFER_SIZE = 4096"
definition POOL_CAPACITY :: nat where "POOL_CAPACITY = 1024"
definition MAX_HOT_PIPES :: nat where "MAX_HOT_PIPES = 64"

record telemetry =
  active_connections :: usize
  total_bytes :: usize
  total_requests :: usize

definition telemetry_new :: telemetry where
  "telemetry_new = \<lparr>active_connections = 0, total_bytes = 0, total_requests = 0\<rparr>"

definition guard_new :: "telemetry \<Rightarrow> telemetry" where
  "guard_new tele = tele\<lparr>active_connections := active_connections tele + 1\<rparr>"

definition guard_drop :: "telemetry \<Rightarrow> telemetry" where
  "guard_drop tele = tele\<lparr>active_connections := active_connections tele - 1\<rparr>"

text \<open>
  Where a task waits: the await it is suspended at, with the buffer and the backend pipe it
  owns there. Pipes are numbered in the order they were opened.
\<close>

datatype task_phase =
    Spawned
  | Connecting bytes
  | ReadingClient bytes nat
  | WritingBackend bytes nat
  | ReadingBackend bytes nat
  | WritingClient bytes nat
  | Finished

record core =
  co_pool :: "bytes list"
  co_conn_pool :: "nat list"
  co_borrowed :: bool \<comment> \<open>a \<^verbatim>\<open>RefMut\<close> of \<^verbatim>\<open>conn_pool\<close> is alive\<close>
  co_next_pipe :: nat
  co_tasks :: "task_phase list"
  co_running :: bool

definition core_new :: core where
  "core_new = \<lparr>co_pool = replicate POOL_CAPACITY [], co_conn_pool = [], co_borrowed = False,
     co_next_pipe = 0, co_tasks = [], co_running = True\<rparr>"

datatype core_event =
    AcceptOk
  | AcceptErr
  | FirstPoll nat
  | ConnectDone nat bool
  | ClientRead nat "bytes option" \<comment> \<open>\<^verbatim>\<open>Err\<close>, or the bytes the client has sent (none: closed)\<close>
  | BackendWritten nat bool
  | BackendRead nat "bytes option"
  | ClientWritten nat bool
  | ShutdownSignal

datatype core_output =
    ToBackend nat nat bytes \<comment> \<open>task, pipe, data\<close>
  | ToClient nat nat bytes
  | Panicked nat

type_synonym core_result = "core_output list \<times> core \<times> telemetry"

section \<open>The connection task\<close>

definition clear :: "bytes \<Rightarrow> bytes" where "clear buf = []"

definition set_task :: "nat \<Rightarrow> task_phase \<Rightarrow> core \<Rightarrow> core" where
  "set_task k ph c = c\<lparr>co_tasks := (co_tasks c)[k := ph]\<rparr>"

text \<open>The task returns: its guard is dropped, and with it whatever it still owns.\<close>

definition task_return :: "nat \<Rightarrow> core \<Rightarrow> telemetry \<Rightarrow> core \<times> telemetry" where
  "task_return k c tele = (set_task k Finished c, guard_drop tele)"

definition recycle :: "nat \<Rightarrow> bytes \<Rightarrow> core \<Rightarrow> telemetry \<Rightarrow> core_result" where
  "recycle k buf c tele = ([], task_return k (c\<lparr>co_pool := co_pool c @ [clear buf]\<rparr>) tele)"

text \<open>
  From the spawn to the first await. \<^verbatim>\<open>borrow_mut\<close> panics while another task's \<^verbatim>\<open>RefMut\<close> lives:
  in \<^verbatim>\<open>if let Some(hot_pipe) = conn_pool_ref.borrow_mut().pop_front()\<close> the temporary lives to the
  end of the \<^verbatim>\<open>else\<close> branch (edition 2021), across the \<^verbatim>\<open>connect(..).await\<close> there. A panic unwinds
  the task: the guard is dropped and the buffer with it.
\<close>

definition first_poll :: "nat \<Rightarrow> core \<Rightarrow> telemetry \<Rightarrow> core_result" where
  "first_poll k c tele =
     (let tele1 = guard_new tele;
          buf0 = (case co_pool c of [] \<Rightarrow> [] | b # _ \<Rightarrow> b);
          c1 = c\<lparr>co_pool := tl (co_pool c)\<rparr>;
          buf = clear buf0 in
      if co_borrowed c1 then ([Panicked k], task_return k c1 tele1)
      else case co_conn_pool c1 of
          hot_pipe # pipes \<Rightarrow> ([], set_task k (ReadingClient buf hot_pipe) (c1\<lparr>co_conn_pool := pipes\<rparr>), tele1)
        | [] \<Rightarrow> ([], set_task k (Connecting buf) (c1\<lparr>co_borrowed := True\<rparr>), tele1))"

definition connect_done :: "nat \<Rightarrow> bool \<Rightarrow> bytes \<Rightarrow> core \<Rightarrow> telemetry \<Rightarrow> core_result" where
  "connect_done k ok buf c tele =
     (let c1 = c\<lparr>co_borrowed := False\<rparr> in
      if ok
      then ([], set_task k (ReadingClient buf (co_next_pipe c1)) (c1\<lparr>co_next_pipe := co_next_pipe c1 + 1\<rparr>), tele)
      else ([], task_return k (c1\<lparr>co_pool := co_pool c1 @ [buf]\<rparr>) tele))"

definition count_bytes :: "nat \<Rightarrow> telemetry \<Rightarrow> telemetry" where
  "count_bytes n tele = tele\<lparr>total_bytes := total_bytes tele + of_nat n\<rparr>"

text \<open>A read returns at most the capacity of the buffer.\<close>

definition client_read ::
    "(bytes \<Rightarrow> bytes \<Rightarrow> bytes) \<Rightarrow> nat \<Rightarrow> bytes option \<Rightarrow> bytes \<Rightarrow> nat \<Rightarrow> core \<Rightarrow> telemetry \<Rightarrow> core_result" where
  "client_read read_into k res buf pipe c tele =
     (case map_option (take BUFFER_SIZE) res of
        None \<Rightarrow> recycle k buf c tele
      | Some data \<Rightarrow>
          (let n = length data; buf_read = read_into buf data in
           if 0 < n
           then ([ToBackend k pipe buf_read], set_task k (WritingBackend buf_read pipe) c, count_bytes n tele)
           else recycle k buf_read c tele))"

definition backend_written :: "nat \<Rightarrow> bool \<Rightarrow> bytes \<Rightarrow> nat \<Rightarrow> core \<Rightarrow> telemetry \<Rightarrow> core_result" where
  "backend_written k ok buf pipe c tele =
     (if ok then ([], set_task k (ReadingBackend (clear buf) pipe) c, tele) else recycle k buf c tele)"

definition backend_read ::
    "(bytes \<Rightarrow> bytes \<Rightarrow> bytes) \<Rightarrow> nat \<Rightarrow> bytes option \<Rightarrow> bytes \<Rightarrow> nat \<Rightarrow> core \<Rightarrow> telemetry \<Rightarrow> core_result" where
  "backend_read read_into k res buf pipe c tele =
     (case map_option (take BUFFER_SIZE) res of
        None \<Rightarrow> recycle k buf c tele
      | Some data \<Rightarrow>
          (let resp_n = length data; buf_resp = read_into buf data in
           if 0 < resp_n
           then ([ToClient k pipe buf_resp], set_task k (WritingClient buf_resp pipe) c, count_bytes resp_n tele)
           else recycle k buf_resp c tele))"

text \<open>
  The final write, whose result is ignored. \<^verbatim>\<open>conn_pool_ref.borrow()\<close> panics too while a
  \<^verbatim>\<open>RefMut\<close> lives; the request is counted and the buffer is back in the pool by then.
\<close>

definition client_written :: "nat \<Rightarrow> bytes \<Rightarrow> nat \<Rightarrow> core \<Rightarrow> telemetry \<Rightarrow> core_result" where
  "client_written k buf pipe c tele =
     (let tele1 = tele\<lparr>total_requests := total_requests tele + 1\<rparr>;
          c1 = c\<lparr>co_pool := co_pool c @ [clear buf]\<rparr> in
      if co_borrowed c1 then ([Panicked k], task_return k c1 tele1)
      else if length (co_conn_pool c1) < MAX_HOT_PIPES
      then ([], task_return k (c1\<lparr>co_conn_pool := co_conn_pool c1 @ [pipe]\<rparr>) tele1)
      else ([], task_return k c1 tele1))"

fun guarded :: "task_phase \<Rightarrow> nat" where
  "guarded Spawned = 0"
| "guarded Finished = 0"
| "guarded _ = 1"

definition live_guards :: "core \<Rightarrow> nat" where
  "live_guards c = sum_list (map guarded (co_tasks c))"

text \<open>Leaving the accept loop ends the runtime of the core, which drops its tasks.\<close>

definition core_shutdown :: "core \<Rightarrow> telemetry \<Rightarrow> core_result" where
  "core_shutdown c tele =
     ([], c\<lparr>co_running := False, co_borrowed := False, co_pool := [], co_conn_pool := [],
            co_tasks := map (\<lambda>_. Finished) (co_tasks c)\<rparr>,
      (guard_drop ^^ live_guards c) tele)"

text \<open>An event that no task waits for does not occur; it leaves the core alone.\<close>

definition task_at :: "nat \<Rightarrow> core \<Rightarrow> task_phase" where
  "task_at k c = (if k < length (co_tasks c) then co_tasks c ! k else Finished)"

fun core_step ::
    "(bytes \<Rightarrow> bytes \<Rightarrow> bytes) \<Rightarrow> core_event \<Rightarrow> core \<Rightarrow> telemetry \<Rightarrow> core_result" where
  "core_step read_into AcceptOk c tele =
     ([], if co_running c then c\<lparr>co_tasks := co_tasks c @ [Spawned]\<rparr> else c, tele)"
| "core_step read_into AcceptErr c tele = ([], c, tele)"
| "core_step read_into (FirstPoll k) c tele =
     (case task_at k c of Spawned \<Rightarrow> first_poll k c tele | _ \<Rightarrow> ([], c, tele))"
| "core_step read_into (ConnectDone k ok) c tele =
     (case task_at k c of Connecting buf \<Rightarrow> connect_done k ok buf c tele | _ \<Rightarrow> ([], c, tele))"
| "core_step read_into (ClientRead k res) c tele =
     (case task_at k c of ReadingClient buf pipe \<Rightarrow> client_read read_into k res buf pipe c tele | _ \<Rightarrow> ([], c, tele))"
| "core_step read_into (BackendWritten k ok) c tele =
     (case task_at k c of WritingBackend buf pipe \<Rightarrow> backend_written k ok buf pipe c tele | _ \<Rightarrow> ([], c, tele))"
| "core_step read_into (BackendRead k res) c tele =
     (case task_at k c of ReadingBackend buf pipe \<Rightarrow> backend_read read_into k res buf pipe c tele | _ \<Rightarrow> ([], c, tele))"
| "core_step read_into (ClientWritten k ok) c tele =
     (case task_at k c of WritingClient buf pipe \<Rightarrow> client_written k buf pipe c tele | _ \<Rightarrow> ([], c, tele))"
| "core_step read_into ShutdownSignal c tele = (if co_running c then core_shutdown c tele else ([], c, tele))"

lemmas task_defs [handle_defs] =
  first_poll_def connect_done_def client_read_def backend_written_def backend_read_def
  client_written_def recycle_def task_return_def core_shutdown_def

section \<open>All cores\<close>

record proxy =
  px_cores :: "core list"
  px_tele :: telemetry

definition proxy_new :: "nat \<Rightarrow> proxy" where
  "proxy_new cores = \<lparr>px_cores = replicate cores core_new, px_tele = telemetry_new\<rparr>"

definition proxy_step ::
    "(bytes \<Rightarrow> bytes \<Rightarrow> bytes) \<Rightarrow> nat \<times> core_event \<Rightarrow> proxy \<Rightarrow> (nat \<times> core_output) list \<times> proxy" where
  "proxy_step read_into ie px =
     (case ie of (i, ev) \<Rightarrow>
        if i < length (px_cores px)
        then (case core_step read_into ev (px_cores px ! i) (px_tele px) of
                (outs, c, tele) \<Rightarrow> (map (Pair i) outs, \<lparr>px_cores = (px_cores px)[i := c], px_tele = tele\<rparr>))
        else ([], px))"

fun proxy_run ::
    "(bytes \<Rightarrow> bytes \<Rightarrow> bytes) \<Rightarrow> (nat \<times> core_event) list \<Rightarrow> proxy \<Rightarrow> (nat \<times> core_output) list \<times> proxy" where
  "proxy_run read_into [] px = ([], px)"
| "proxy_run read_into (e # es) px =
     (case proxy_step read_into e px of (outs, px1) \<Rightarrow>
        (case proxy_run read_into es px1 of (outs', px2) \<Rightarrow> (outs @ outs', px2)))"

section \<open>The invariant of a core\<close>

fun connecting :: "task_phase \<Rightarrow> nat" where
  "connecting (Connecting _) = 1"
| "connecting _ = 0"

fun pipes_of :: "task_phase \<Rightarrow> nat multiset" where
  "pipes_of (ReadingClient _ p) = {#p#}"
| "pipes_of (WritingBackend _ p) = {#p#}"
| "pipes_of (ReadingBackend _ p) = {#p#}"
| "pipes_of (WritingClient _ p) = {#p#}"
| "pipes_of _ = {#}"

text \<open>The buffer a task reads into next is empty.\<close>

fun cleared :: "task_phase \<Rightarrow> bool" where
  "cleared (Connecting buf) = (buf = [])"
| "cleared (ReadingClient buf _) = (buf = [])"
| "cleared (ReadingBackend buf _) = (buf = [])"
| "cleared _ = True"

definition owned_pipes :: "core \<Rightarrow> nat multiset" where
  "owned_pipes c = mset (co_conn_pool c) + sum_list (map pipes_of (co_tasks c))"

definition core_inv :: "core \<Rightarrow> bool" where
  "core_inv c \<longleftrightarrow> length (co_conn_pool c) \<le> MAX_HOT_PIPES \<and> set (co_pool c) \<subseteq> {[]} \<and>
     list_all cleared (co_tasks c) \<and>
     sum_list (map connecting (co_tasks c)) = of_bool (co_borrowed c) \<and>
     (\<forall>p. count (owned_pipes c) p \<le> of_bool (p < co_next_pipe c))"

lemma sum_list_map_update:
  "k < length xs \<Longrightarrow> sum_list (map f (xs[k := y])) + f (xs ! k) = sum_list (map f xs) + (f y :: 'a::comm_monoid_add)"
  by (induction xs arbitrary: k) (auto simp: nth_Cons ac_simps split: nat.splits)

lemma task_at_less: "task_at k c \<noteq> Finished \<Longrightarrow> k < length (co_tasks c) \<and> co_tasks c ! k = task_at k c"
  by (simp add: task_at_def split: if_splits)

text \<open>One task moves on: what has to be checked of the move for the invariant to hold after it.\<close>

lemma core_inv_move:
  assumes inv: "core_inv c" and old: "task_at k c = old" "old \<noteq> Finished"
    and tasks: "co_tasks c' = (co_tasks c)[k := ph]" and ph: "cleared ph"
    and pool: "set (co_pool c') \<subseteq> insert [] (set (co_pool c))" and hot: "length (co_conn_pool c') \<le> MAX_HOT_PIPES"
    and flag: "connecting ph + of_bool (co_borrowed c) = connecting old + of_bool (co_borrowed c')"
    and pipes: "mset (co_conn_pool c') + pipes_of ph \<subseteq># mset (co_conn_pool c) + pipes_of old +
      (if co_next_pipe c < co_next_pipe c' then {#co_next_pipe c#} else {#})"
    and next_pipe: "co_next_pipe c \<le> co_next_pipe c'"
  shows "core_inv c'"
proof -
  have k: "k < length (co_tasks c)" and at: "co_tasks c ! k = old"
    using task_at_less [of k c] old by auto
  have "list_all cleared (co_tasks c')"
    using inv ph by (auto simp: core_inv_def tasks list_all_iff dest!: set_update_subset_insert [THEN subsetD])
  moreover have "sum_list (map connecting (co_tasks c')) = of_bool (co_borrowed c')"
    using sum_list_map_update [OF k, of connecting ph] inv flag unfolding core_inv_def tasks at by linarith
  moreover have "count (owned_pipes c') p \<le> of_bool (p < co_next_pipe c')" for p
  proof -
    have "count (sum_list (map pipes_of (co_tasks c'))) p + count (pipes_of old) p =
        count (sum_list (map pipes_of (co_tasks c))) p + count (pipes_of ph) p"
      using arg_cong [OF sum_list_map_update [OF k, of pipes_of ph], of "\<lambda>m. count m p"] tasks at by simp
    moreover have "count (mset (co_conn_pool c')) p + count (pipes_of ph) p \<le> count (mset (co_conn_pool c)) p +
        count (pipes_of old) p + of_bool (co_next_pipe c < co_next_pipe c' \<and> p = co_next_pipe c)"
      using mset_subset_eq_count [OF pipes, of p] by (auto split: if_splits)
    moreover have "count (owned_pipes c) p \<le> of_bool (p < co_next_pipe c)"
      using inv by (simp add: core_inv_def)
    ultimately have "count (owned_pipes c') p \<le>
        of_bool (p < co_next_pipe c) + of_bool (co_next_pipe c < co_next_pipe c' \<and> p = co_next_pipe c)"
      by (simp add: owned_pipes_def)
    also have "\<dots> \<le> of_bool (p < co_next_pipe c')"
      using next_pipe by auto
    finally show ?thesis .
  qed
  ultimately show ?thesis
    using inv pool hot by (auto simp: core_inv_def)
qed

lemma MAX_HOT_PIPES_pos: "0 < MAX_HOT_PIPES"
  by (simp add: MAX_HOT_PIPES_def)

lemma core_inv_basic:
  assumes "core_inv c"
  shows "length (co_conn_pool c) \<le> MAX_HOT_PIPES" and "set (co_pool c) \<subseteq> {[]}"
  using assms by (simp_all add: core_inv_def)

lemma tl_pool: "set (co_pool c) \<subseteq> {[]} \<Longrightarrow> set (tl (co_pool c)) \<subseteq> {[]}"
  by (auto dest: list.set_sel(2) [rotated] intro: ccontr) (metis list.sel(2) list.set_sel(2) singletonD subsetD)

lemmas move_simps = task_return_def set_task_def clear_def Let_def

lemma recycle_inv:
  assumes "core_inv c" and "task_at k c = old" and "old \<noteq> Finished" and "connecting old = 0"
    and "recycle k buf c tele = (outs, c', tele')"
  shows "core_inv c'"
  using assms(4,5) core_inv_basic [OF assms(1)]
  by (intro core_inv_move [OF assms(1-3), where ph = Finished])
     (auto simp: recycle_def move_simps)

lemma first_poll_inv:
  assumes "core_inv c" and "task_at k c = Spawned" and "first_poll k c tele = (outs, c', tele')"
  shows "core_inv c'"
proof -
  note basic = core_inv_basic [OF assms(1)] tl_pool [OF core_inv_basic(2) [OF assms(1)]]
  note move = core_inv_move [OF assms(1,2)]
  consider (panic) "co_borrowed c" | (hot) p ps where "\<not> co_borrowed c" "co_conn_pool c = p # ps"
    | (cold) "\<not> co_borrowed c" "co_conn_pool c = []"
    by (cases "co_conn_pool c") auto
  then show ?thesis
  proof cases
    case panic
    with assms(3) basic show ?thesis
      by (intro move [where ph = Finished]) (auto simp: first_poll_def move_simps)
  next
    case hot
    with assms(3) basic show ?thesis
      by (intro move [where ph = "ReadingClient [] p"]) (auto simp: first_poll_def move_simps)
  next
    case cold
    with assms(3) basic show ?thesis
      by (intro move [where ph = "Connecting []"]) (auto simp: first_poll_def move_simps)
  qed
qed

lemma task_cleared: "core_inv c \<Longrightarrow> task_at k c = ph \<Longrightarrow> cleared ph"
  by (auto simp: core_inv_def list_all_length task_at_def)

lemma connect_done_inv:
  assumes "core_inv c" and "task_at k c = Connecting buf" and "connect_done k ok buf c tele = (outs, c', tele')"
  shows "core_inv c'"
proof -
  note basic = core_inv_basic [OF assms(1)]
  note move = core_inv_move [OF assms(1,2)]
  have buf: "buf = []"
    using task_cleared [OF assms(1,2)] by simp
  have "Connecting buf \<in> set (co_tasks c)"
    using task_at_less [of k c] assms(2) nth_mem [of k "co_tasks c"] by auto
  then have flag: "co_borrowed c"
    using assms(1) by (cases "co_borrowed c") (auto simp: core_inv_def)
  show ?thesis
  proof (cases ok)
    case True
    with assms(3) basic flag buf show ?thesis
      by (intro move [where ph = "ReadingClient [] (co_next_pipe c)"]) (auto simp: connect_done_def move_simps)
  next
    case False
    with assms(3) basic flag buf show ?thesis
      by (intro move [where ph = Finished]) (auto simp: connect_done_def move_simps)
  qed
qed

lemma client_read_inv:
  assumes "core_inv c" and "task_at k c = ReadingClient buf pipe"
    and "client_read read_into k res buf pipe c tele = (outs, c', tele')"
  shows "core_inv c'"
proof (cases res)
  case None
  with assms(3) show ?thesis
    by (intro recycle_inv [OF assms(1,2)]) (auto simp: client_read_def)
next
  case (Some avail)
  show ?thesis
  proof (cases "take BUFFER_SIZE avail = []")
    case True
    with Some assms(3) show ?thesis
      by (intro recycle_inv [OF assms(1,2)]) (auto simp: client_read_def)
  next
    case False
    with Some assms(3) core_inv_basic [OF assms(1)] show ?thesis
      by (intro core_inv_move [OF assms(1,2), where ph = "WritingBackend (read_into buf (take BUFFER_SIZE avail)) pipe"])
         (auto simp: client_read_def move_simps)
  qed
qed

lemma backend_read_inv:
  assumes "core_inv c" and "task_at k c = ReadingBackend buf pipe"
    and "backend_read read_into k res buf pipe c tele = (outs, c', tele')"
  shows "core_inv c'"
proof (cases res)
  case None
  with assms(3) show ?thesis
    by (intro recycle_inv [OF assms(1,2)]) (auto simp: backend_read_def)
next
  case (Some avail)
  show ?thesis
  proof (cases "take BUFFER_SIZE avail = []")
    case True
    with Some assms(3) show ?thesis
      by (intro recycle_inv [OF assms(1,2)]) (auto simp: backend_read_def)
  next
    case False
    with Some assms(3) core_inv_basic [OF assms(1)] show ?thesis
      by (intro core_inv_move [OF assms(1,2), where ph = "WritingClient (read_into buf (take BUFFER_SIZE avail)) pipe"])
         (auto simp: backend_read_def move_simps)
  qed
qed

lemma backend_written_inv:
  assumes "core_inv c" and "task_at k c = WritingBackend buf pipe"
    and "backend_written k ok buf pipe c tele = (outs, c', tele')"
  shows "core_inv c'"
proof (cases ok)
  case True
  with assms(3) core_inv_basic [OF assms(1)] show ?thesis
    by (intro core_inv_move [OF assms(1,2), where ph = "ReadingBackend [] pipe"])
       (auto simp: backend_written_def move_simps)
next
  case False
  with assms(3) show ?thesis
    by (intro recycle_inv [OF assms(1,2)]) (auto simp: backend_written_def)
qed

lemma client_written_inv:
  assumes "core_inv c" and "task_at k c = WritingClient buf pipe"
    and "client_written k buf pipe c tele = (outs, c', tele')"
  shows "core_inv c'"
  using assms(3) core_inv_basic [OF assms(1)]
  by (intro core_inv_move [OF assms(1,2), where ph = Finished])
     (auto simp: client_written_def move_simps split: if_splits)

lemma shutdown_inv: "core_shutdown c tele = (outs, c', tele') \<Longrightarrow> core_inv c'"
  by (auto simp: core_shutdown_def core_inv_def owned_pipes_def list_all_iff comp_def sum_list_triv)

lemma accept_inv: "core_inv c \<Longrightarrow> core_inv (c\<lparr>co_tasks := co_tasks c @ [Spawned]\<rparr>)"
  by (simp add: core_inv_def owned_pipes_def)

lemmas handler_inv = first_poll_inv connect_done_inv client_read_inv backend_written_inv backend_read_inv
  client_written_inv shutdown_inv

lemma core_step_inv [step_inv]:
  assumes "core_inv c" and "core_step read_into ev c tele = (outs, c', tele')"
  shows "core_inv c'"
  using assms by (cases ev) (auto intro: handler_inv accept_inv split: task_phase.splits if_splits)

section \<open>The shared counters\<close>

fun answering :: "task_phase \<Rightarrow> nat" where
  "answering (WritingClient _ _) = 1"
| "answering _ = 0"

definition answers_pending :: "core \<Rightarrow> nat" where
  "answers_pending c = sum_list (map answering (co_tasks c))"

fun output_bytes :: "core_output \<Rightarrow> nat" where
  "output_bytes (ToBackend _ _ d) = length d"
| "output_bytes (ToClient _ _ d) = length d"
| "output_bytes (Panicked _) = 0"

fun is_answer :: "core_output \<Rightarrow> nat" where
  "is_answer (ToClient _ _ _) = 1"
| "is_answer _ = 0"

definition relayed :: "core_output list \<Rightarrow> nat" where
  "relayed outs = sum_list (map output_bytes outs)"

definition answers :: "core_output list \<Rightarrow> nat" where
  "answers outs = sum_list (map is_answer outs)"

text \<open>What one step changes: the tasks under guard, the bytes relayed, the answers under way.\<close>

definition step_accounted :: "core_event \<Rightarrow> core \<Rightarrow> telemetry \<Rightarrow> core_result \<Rightarrow> bool" where
  "step_accounted ev c tele res \<longleftrightarrow> (case res of (outs, c', tele') \<Rightarrow>
     active_connections tele' + of_nat (live_guards c) = active_connections tele + of_nat (live_guards c') \<and>
     total_bytes tele' = total_bytes tele + of_nat (relayed outs) \<and>
     (ev \<noteq> ShutdownSignal \<longrightarrow> total_requests tele' + of_nat (answers_pending c') =
        total_requests tele + of_nat (answers_pending c) + of_nat (answers outs)))"

lemma set_task_live:
  "k < length (co_tasks c) \<Longrightarrow> (of_nat (live_guards (set_task k ph c)) :: usize) =
     of_nat (live_guards c) + of_nat (guarded ph) - of_nat (guarded (co_tasks c ! k))"
  using arg_cong [OF sum_list_map_update [of k "co_tasks c" guarded ph], of "of_nat :: nat \<Rightarrow> usize"]
  by (simp add: live_guards_def set_task_def algebra_simps)

lemma set_task_answers:
  "k < length (co_tasks c) \<Longrightarrow> (of_nat (answers_pending (set_task k ph c)) :: usize) =
     of_nat (answers_pending c) + of_nat (answering ph) - of_nat (answering (co_tasks c ! k))"
  using arg_cong [OF sum_list_map_update [of k "co_tasks c" answering ph], of "of_nat :: nat \<Rightarrow> usize"]
  by (simp add: answers_pending_def set_task_def algebra_simps)

lemma accounts_frame [simp]:
  "live_guards (c\<lparr>co_pool := pool\<rparr>) = live_guards c" "answers_pending (c\<lparr>co_pool := pool\<rparr>) = answers_pending c"
  "live_guards (c\<lparr>co_conn_pool := ps\<rparr>) = live_guards c" "answers_pending (c\<lparr>co_conn_pool := ps\<rparr>) = answers_pending c"
  "live_guards (c\<lparr>co_borrowed := b\<rparr>) = live_guards c" "answers_pending (c\<lparr>co_borrowed := b\<rparr>) = answers_pending c"
  "live_guards (c\<lparr>co_next_pipe := n\<rparr>) = live_guards c" "answers_pending (c\<lparr>co_next_pipe := n\<rparr>) = answers_pending c"
  by (simp_all add: live_guards_def answers_pending_def)

lemma guard_drop_funpow: "(guard_drop ^^ n) tele = tele\<lparr>active_connections := active_connections tele - of_nat n\<rparr>"
  by (induction n) (simp_all add: guard_drop_def algebra_simps)

lemmas account_simps = step_accounted_def set_task_live set_task_answers task_return_def recycle_def guard_new_def
  guard_drop_def count_bytes_def relayed_def answers_def Let_def

lemma core_step_accounted:
  assumes "core_inv c" and read: "\<And>d. read_into [] d = d"
  shows "step_accounted ev c tele (core_step read_into ev c tele)"
proof (cases ev)
  case AcceptOk
  then show ?thesis by (simp add: account_simps) (simp add: live_guards_def answers_pending_def)
next
  case (FirstPoll k)
  then show ?thesis
    using task_at_less [of k c]
    by (cases "task_at k c") (auto simp: first_poll_def account_simps split: list.splits)
next
  case (ConnectDone k ok)
  then show ?thesis
    using task_at_less [of k c]
    by (cases "task_at k c") (auto simp: connect_done_def account_simps)
next
  case (ClientRead k res)
  then show ?thesis
    using task_at_less [of k c] task_cleared [OF assms(1), of k]
    by (cases "task_at k c"; cases res) (auto simp: client_read_def account_simps read)
next
  case (BackendWritten k ok)
  then show ?thesis
    using task_at_less [of k c]
    by (cases "task_at k c") (auto simp: backend_written_def account_simps)
next
  case (BackendRead k res)
  then show ?thesis
    using task_at_less [of k c] task_cleared [OF assms(1), of k]
    by (cases "task_at k c"; cases res) (auto simp: backend_read_def account_simps read)
next
  case (ClientWritten k ok)
  then show ?thesis
    using task_at_less [of k c]
    by (cases "task_at k c") (auto simp: client_written_def account_simps)
next
  case ShutdownSignal
  then show ?thesis
    by (simp add: core_shutdown_def account_simps guard_drop_funpow)
       (simp add: live_guards_def comp_def sum_list_triv)
qed (simp add: account_simps)

section \<open>Runs of the proxy\<close>

definition proxy_inv :: "proxy \<Rightarrow> bool" where
  "proxy_inv px \<longleftrightarrow> (\<forall>c \<in> set (px_cores px). core_inv c)"

definition total_of :: "(core \<Rightarrow> nat) \<Rightarrow> proxy \<Rightarrow> nat" where
  "total_of f px = sum_list (map f (px_cores px))"

lemma core_inv_new: "core_inv core_new"
  by (auto simp: core_inv_def core_new_def owned_pipes_def set_replicate_conv_if)

lemma proxy_inv_new: "proxy_inv (proxy_new n)"
  by (simp add: proxy_inv_def proxy_new_def core_inv_new)

lemma proxy_step_cases:
  assumes "proxy_step read_into e px = (outs, px')"
  obtains (idle) "outs = []" and "px' = px"
    | (core) i ev os c tele where "e = (i, ev)" and "i < length (px_cores px)"
        and "core_step read_into ev (px_cores px ! i) (px_tele px) = (os, c, tele)"
        and "outs = map (Pair i) os" and "px' = \<lparr>px_cores = (px_cores px)[i := c], px_tele = tele\<rparr>"
  using assms by (cases e) (auto simp: proxy_step_def split: if_splits prod.splits)

lemma proxy_step_inv [step_inv]:
  assumes "proxy_inv px" and "proxy_step read_into e px = (outs, px')"
  shows "proxy_inv px'"
  using assms(2)
proof (cases rule: proxy_step_cases)
  case (core i ev os c tele)
  then have "core_inv c"
    using assms(1) by (auto simp: proxy_inv_def intro: core_step_inv)
  with assms(1) core(5) show ?thesis
    by (auto simp: proxy_inv_def dest!: set_update_subset_insert [THEN subsetD])
qed (use assms in simp)

lemma proxy_run_inv: "proxy_inv px \<Longrightarrow> proxy_run read_into es px = (outs, px') \<Longrightarrow> proxy_inv px'"
proof (induction es arbitrary: px outs)
  case (Cons e es)
  then show ?case by (auto split: prod.splits dest: proxy_step_inv)
qed simp

text \<open>
  C15: resources of the proxy, over any run on any number of cores, whatever the sockets do. At
  most 64 idle pipes are kept per core; every backend pipe has at most one owner, a task or the
  idle pool; every pooled buffer is empty, so no bytes of one client reach another through a
  buffer; and a borrow of the pipe pool outlives a step exactly while one task, and only one,
  is connecting.
\<close>

theorem proxy_resources:
  "\<forall>c \<in> set (px_cores (snd (proxy_run read_into es (proxy_new n)))).
     length (co_conn_pool c) \<le> 64 \<and> (\<forall>p. count (owned_pipes c) p \<le> 1) \<and>
     set (co_pool c) \<subseteq> {[]} \<and> sum_list (map connecting (co_tasks c)) = of_bool (co_borrowed c)"
proof -
  have "proxy_inv (snd (proxy_run read_into es (proxy_new n)))"
    using proxy_run_inv [OF proxy_inv_new] by (metis prod.collapse)
  moreover have "count (owned_pipes c) p \<le> 1" if "core_inv c" for c p
    using that by (auto simp: core_inv_def intro: order_trans [of _ "of_bool (p < co_next_pipe c)"])
  ultimately show ?thesis
    by (auto simp: proxy_inv_def core_inv_def MAX_HOT_PIPES_def)
qed

theorem proxy_resources_witness:
  "\<exists>c. px_cores (snd (proxy_run (\<lambda>_ d. d)
      [(0, AcceptOk), (0, FirstPoll 0), (0, ConnectDone 0 True), (0, ClientRead 0 (Some [71]))] (proxy_new 1))) = [c] \<and>
     co_tasks c = [WritingBackend [71] 0] \<and> count (owned_pipes c) 0 \<le> 1 \<and> set (co_pool c) \<subseteq> {[]}"
proof -
  let ?es = "[(0, AcceptOk), (0, FirstPoll 0), (0, ConnectDone 0 True), (0, ClientRead 0 (Some [71 :: u8]))]"
  let ?px = "proxy_run (\<lambda>_ d. d) ?es (proxy_new 1)"
  obtain c where c: "px_cores (snd ?px) = [c]" "co_tasks c = [WritingBackend [71] 0]"
    by (auto simp: proxy_new_def proxy_step_def core_new_def task_at_def task_defs
        set_task_def clear_def Let_def BUFFER_SIZE_def)
  then show ?thesis
    using proxy_resources [of "\<lambda>_ d. d" ?es 1] by auto
qed

definition accounted :: "bool \<Rightarrow> core_output list \<Rightarrow> proxy \<Rightarrow> bool" where
  "accounted up outs px \<longleftrightarrow>
     active_connections (px_tele px) = of_nat (total_of live_guards px) \<and>
     total_bytes (px_tele px) = of_nat (relayed outs) \<and>
     (up \<longrightarrow> total_requests (px_tele px) + of_nat (total_of answers_pending px) = of_nat (answers outs))"

lemma total_of_update:
  "i < length (px_cores px) \<Longrightarrow> (of_nat (total_of f \<lparr>px_cores = (px_cores px)[i := c], px_tele = tele\<rparr>) :: usize) =
     of_nat (total_of f px) + of_nat (f c) - of_nat (f (px_cores px ! i))"
  using arg_cong [OF sum_list_map_update [of i "px_cores px" f c], of "of_nat :: nat \<Rightarrow> usize"]
  by (simp add: total_of_def algebra_simps)

lemma chain_equations:
  fixes a b :: "'a::ab_group_add"
  shows "a + p = h \<Longrightarrow> t + b = a + (u + q) \<Longrightarrow> t + (b + p) = h + (u + q)"
  by (metis add.assoc add.commute)

lemma accounted_step:
  assumes inv: "proxy_inv px" and acc: "accounted up hist px" and read: "\<And>d. read_into [] d = d"
    and step: "proxy_step read_into e px = (outs, px')" and up: "up \<Longrightarrow> snd e \<noteq> ShutdownSignal"
  shows "accounted up (hist @ map snd outs) px'"
  using step
proof (cases rule: proxy_step_cases)
  case idle
  with acc show ?thesis by simp
next
  case (core i ev os c tele)
  let ?c = "px_cores px ! i"
  have "core_inv ?c"
    using inv core(2) by (simp add: proxy_inv_def)
  then have "step_accounted ev ?c (px_tele px) (os, c, tele)"
    using core_step_accounted [where read_into = read_into] core(3) read by metis
  with acc up core(1) show ?thesis
    unfolding core(4,5) accounted_def total_of_update [OF core(2)] step_accounted_def
    by (auto simp: relayed_def answers_def comp_def algebra_simps intro: chain_equations)
qed

lemma accounted_run:
  "proxy_inv px \<Longrightarrow> accounted up hist px \<Longrightarrow> (\<And>d. read_into [] d = d) \<Longrightarrow>
   proxy_run read_into es px = (outs, px') \<Longrightarrow> (up \<Longrightarrow> ShutdownSignal \<notin> snd ` set es) \<Longrightarrow>
   accounted up (hist @ map snd outs) px'"
proof (induction es arbitrary: px hist outs)
  case (Cons e es)
  obtain os px1 where s: "proxy_step read_into e px = (os, px1)" by fastforce
  obtain os' where r: "proxy_run read_into es px1 = (os', px')" and outs: "outs = os @ os'"
    using Cons.prems(4) by (auto simp: s split: prod.splits)
  have "accounted up (hist @ map snd os) px1"
    using Cons.prems(5) by (intro accounted_step [OF Cons.prems(1-3) s]) force
  from Cons.IH [OF proxy_step_inv [OF Cons.prems(1) s] this Cons.prems(3) r] Cons.prems(5)
  show ?case by (auto simp: outs)
qed simp

lemma accounted_new: "accounted up [] (proxy_new n)"
  by (simp add: accounted_def proxy_new_def telemetry_new_def total_of_def core_new_def relayed_def
      answers_def sum_list_replicate) (simp add: live_guards_def answers_pending_def)

text \<open>
  C9: the three counters, in 64-bit arithmetic, tell the truth about any run over any number of
  cores: the active connections are the tasks under guard (guards are balanced on every return,
  every error and every panic), the total bytes are the bytes relayed in both directions, and
  while no core shuts down the completed requests plus the answers still being written are the
  answers sent.
\<close>

theorem proxy_telemetry:
  assumes "\<And>d. read_into [] d = d" and "proxy_run read_into es (proxy_new n) = (outs, px)"
  shows "active_connections (px_tele px) = of_nat (total_of live_guards px) \<and>
    total_bytes (px_tele px) = of_nat (relayed (map snd outs)) \<and>
    (ShutdownSignal \<notin> snd ` set es \<longrightarrow>
      total_requests (px_tele px) + of_nat (total_of answers_pending px) = of_nat (answers (map snd outs)))"
  using accounted_run [OF proxy_inv_new accounted_new assms, of "ShutdownSignal \<notin> snd ` set es"]
  by (simp add: accounted_def)

definition one_request :: "(nat \<times> core_event) list" where
  "one_request = [(0, AcceptOk), (0, FirstPoll 0), (0, ConnectDone 0 True), (0, ClientRead 0 (Some [71, 69, 84])),
     (0, BackendWritten 0 True), (0, BackendRead 0 (Some [79, 75])), (0, ClientWritten 0 True)]"

theorem proxy_telemetry_witness:
  "\<exists>outs px. proxy_run (\<lambda>_ d. d) one_request (proxy_new 1) = (outs, px) \<and>
     map snd outs = [ToBackend 0 0 [71, 69, 84], ToClient 0 0 [79, 75]] \<and>
     active_connections (px_tele px) = 0 \<and> total_bytes (px_tele px) = 5 \<and> total_requests (px_tele px) = 1"
proof -
  obtain outs px where run: "proxy_run (\<lambda>_ d. d) one_request (proxy_new 1) = (outs, px)"
    by fastforce
  then have "map snd outs = [ToBackend 0 0 [71, 69, 84], ToClient 0 0 [79, 75]]"
    and "total_of live_guards px = 0" and "total_of answers_pending px = 0"
    by (auto simp: one_request_def proxy_new_def proxy_step_def core_new_def task_at_def total_of_def task_defs
        live_guards_def answers_pending_def set_task_def clear_def BUFFER_SIZE_def POOL_CAPACITY_def
        MAX_HOT_PIPES_def Let_def)
  with run proxy_telemetry [OF _ run] show ?thesis
    by (auto simp: one_request_def relayed_def answers_def)
qed

section \<open>The borrow held across an await\<close>

lemma connecting_iff: "connecting t \<noteq> 0 \<longleftrightarrow> (\<exists>buf. t = Connecting buf)"
  by (cases t) auto

lemma borrowed_iff:
  assumes "core_inv c"
  shows "co_borrowed c \<longleftrightarrow> (\<exists>j buf. task_at j c = Connecting buf)"
proof -
  have "sum_list (map connecting (co_tasks c)) = of_bool (co_borrowed c)"
    using assms by (simp add: core_inv_def)
  then have "co_borrowed c \<longleftrightarrow> sum_list (map connecting (co_tasks c)) \<noteq> 0"
    by simp
  also have "\<dots> \<longleftrightarrow> (\<exists>t \<in> set (co_tasks c). connecting t \<noteq> 0)"
    by (simp only: sum_list_eq_0_iff) auto
  also have "\<dots> \<longleftrightarrow> (\<exists>j < length (co_tasks c). connecting (co_tasks c ! j) \<noteq> 0)"
    by (metis in_set_conv_nth)
  also have "\<dots> \<longleftrightarrow> (\<exists>j buf. task_at j c = Connecting buf)"
    unfolding connecting_iff by (auto simp: task_at_def)
  finally show ?thesis .
qed

text \<open>
  C20: exactly when a task panics. While one task of a core waits for its connection to Chronos,
  every other task of that core that starts, or that has just answered its client and returns
  its pipe, panics on the borrowed pipe pool; at any other time none does.
\<close>

theorem panics_iff_connecting:
  assumes "core_inv c"
  shows "Panicked k \<in> set (fst (core_step read_into ev c tele)) \<longleftrightarrow>
     (\<exists>j buf. task_at j c = Connecting buf) \<and>
     (ev = FirstPoll k \<and> task_at k c = Spawned \<or>
      (\<exists>ok buf pipe. ev = ClientWritten k ok \<and> task_at k c = WritingClient buf pipe))"
  unfolding borrowed_iff [OF assms, symmetric]
  by (cases ev) (auto simp: task_defs Let_def split: task_phase.splits option.splits list.splits)

definition two_accepts :: "(nat \<times> core_event) list" where
  "two_accepts = [(0, AcceptOk), (0, AcceptOk), (0, FirstPoll 0)]"

text \<open>
  Two clients on a fresh core: the first waits for the backend, the second is dropped.
\<close>

theorem panics_iff_connecting_witness:
  "\<exists>c. px_cores (snd (proxy_run (\<lambda>_ d. d) two_accepts (proxy_new 1))) = [c] \<and>
     Panicked 1 \<in> set (fst (core_step (\<lambda>_ d. d) (FirstPoll 1) c telemetry_new))"
proof -
  let ?px = "proxy_run (\<lambda>_ d. d) two_accepts (proxy_new 1)"
  obtain c where c: "px_cores (snd ?px) = [c]" "co_tasks c = [Connecting [], Spawned]"
    by (auto simp: two_accepts_def proxy_new_def proxy_step_def core_new_def task_at_def task_defs
        set_task_def clear_def Let_def)
  have "proxy_inv (snd ?px)"
    using proxy_run_inv [OF proxy_inv_new] by (metis prod.collapse)
  then have inv: "core_inv c"
    using c(1) by (simp add: proxy_inv_def)
  have "task_at 0 c = Connecting []" and "task_at 1 c = Spawned"
    using c(2) by (simp_all add: task_at_def)
  with panics_iff_connecting [OF inv] c(1) show ?thesis by blast
qed

section \<open>An answer follows its request\<close>

definition answered_after_request :: "(nat \<times> core_output) list \<Rightarrow> bool" where
  "answered_after_request =
     each_after (\<lambda>xs out. \<forall>i k p d. out = (i, ToClient k p d) \<longrightarrow> (\<exists>d'. (i, ToBackend k p d') \<in> set xs))"

fun sent_on :: "task_phase \<Rightarrow> nat option" where
  "sent_on (WritingBackend _ p) = Some p"
| "sent_on (ReadingBackend _ p) = Some p"
| "sent_on (WritingClient _ p) = Some p"
| "sent_on _ = None"

definition requests_logged :: "(nat \<times> core_output) list \<Rightarrow> proxy \<Rightarrow> bool" where
  "requests_logged hist px \<longleftrightarrow>
     (\<forall>i < length (px_cores px). \<forall>k p. sent_on (task_at k (px_cores px ! i)) = Some p \<longrightarrow>
        (\<exists>d. (i, ToBackend k p d) \<in> set hist))"

text \<open>One step of a core: at most one output, and a task that enters the answering phases has sent.\<close>

definition core_logs :: "core \<Rightarrow> core_output list \<Rightarrow> core \<Rightarrow> bool" where
  "core_logs c outs c' \<longleftrightarrow>
     (outs = [] \<or> (\<exists>out. outs = [out] \<and> (\<forall>k p d. out = ToClient k p d \<longrightarrow> sent_on (task_at k c) = Some p))) \<and>
     (\<forall>k p. sent_on (task_at k c') = Some p \<longrightarrow> sent_on (task_at k c) = Some p \<or> (\<exists>d. ToBackend k p d \<in> set outs))"

lemma task_at_set: "k < length (co_tasks c) \<Longrightarrow> task_at j (c\<lparr>co_tasks := (co_tasks c)[k := ph]\<rparr>) = (if j = k then ph else task_at j c)"
  by (simp add: task_at_def)

lemma task_at_frame [simp]:
  "task_at k (c\<lparr>co_pool := pool\<rparr>) = task_at k c" "task_at k (c\<lparr>co_conn_pool := ps\<rparr>) = task_at k c"
  "task_at k (c\<lparr>co_borrowed := b\<rparr>) = task_at k c" "task_at k (c\<lparr>co_next_pipe := n\<rparr>) = task_at k c"
  by (simp_all add: task_at_def)

lemma task_at_set_task:
  "task_at k c = old \<Longrightarrow> old \<noteq> Finished \<Longrightarrow> co_tasks c' = co_tasks c \<Longrightarrow>
   task_at j (set_task k ph c') = (if j = k then ph else task_at j c)"
  by (auto simp: task_at_def set_task_def split: if_splits)

lemma core_step_logs:
  assumes "core_step read_into ev c tele = (outs, c', tele')"
  shows "core_logs c outs c'"
proof -
  have idle: "core_logs c [] c" by (simp add: core_logs_def)
  note moves = task_at_set_task [where c = c]
  show ?thesis
  proof (cases ev)
    case AcceptOk
    with assms show ?thesis by (auto simp: core_logs_def task_at_def nth_append split: if_splits)
  next
    case (FirstPoll k)
    with assms idle show ?thesis
      by (cases "task_at k c")
         (auto simp: core_logs_def task_defs Let_def moves split: list.splits if_splits)
  next
    case (ConnectDone k ok)
    with assms idle show ?thesis
      by (cases "task_at k c") (auto simp: core_logs_def task_defs Let_def moves split: if_splits)
  next
    case (ClientRead k res)
    with assms idle show ?thesis
      by (cases "task_at k c"; cases res) (auto simp: core_logs_def task_defs Let_def moves split: if_splits)
  next
    case (BackendWritten k ok)
    with assms idle show ?thesis
      by (cases "task_at k c") (auto simp: core_logs_def task_defs Let_def moves split: if_splits)
  next
    case (BackendRead k res)
    with assms idle show ?thesis
      by (cases "task_at k c"; cases res) (auto simp: core_logs_def task_defs Let_def moves split: if_splits)
  next
    case (ClientWritten k ok)
    with assms idle show ?thesis
      by (cases "task_at k c") (auto simp: core_logs_def task_defs Let_def moves split: if_splits)
  next
    case ShutdownSignal
    with assms idle show ?thesis
      by (auto simp: core_logs_def core_shutdown_def task_at_def split: if_splits)
  qed (use assms idle in simp)
qed

lemma logged_step:
  assumes logged: "requests_logged hist px" and ordered: "answered_after_request hist"
    and step: "proxy_step read_into e px = (outs, px')"
  shows "requests_logged (hist @ outs) px' \<and> answered_after_request (hist @ outs)"
  using step
proof (cases rule: proxy_step_cases)
  case idle
  with logged ordered show ?thesis by simp
next
  case (core i ev os c tele)
  have logs: "core_logs (px_cores px ! i) os c"
    using core(3) by (rule core_step_logs)
  have sent: "sent_on (task_at k (px_cores px ! j)) = Some p \<Longrightarrow> \<exists>d. (j, ToBackend k p d) \<in> set hist"
    if "j < length (px_cores px)" for j k p
    using logged that unfolding requests_logged_def by blast
  have "requests_logged (hist @ outs) px'"
    unfolding requests_logged_def
  proof (intro allI impI)
    fix j k p
    assume j: "j < length (px_cores px')" and "sent_on (task_at k (px_cores px' ! j)) = Some p"
    then show "\<exists>d. (j, ToBackend k p d) \<in> set (hist @ outs)"
      using logs sent [of j k p] core(2) unfolding core_logs_def core(4,5)
      by (cases "j = i") (auto; blast)+
  qed
  moreover have "answered_after_request (hist @ outs)"
  proof (cases os)
    case (Cons out os')
    with logs have os: "os' = []" and "\<And>k p d. out = ToClient k p d \<Longrightarrow> sent_on (task_at k (px_cores px ! i)) = Some p"
      by (auto simp: core_logs_def)
    with sent [OF core(2)] show ?thesis
      using ordered by (auto simp: core(4) Cons answered_after_request_def)
  qed (use ordered core(4) in simp)
  ultimately show ?thesis ..
qed

lemma logged_run:
  "requests_logged hist px \<Longrightarrow> answered_after_request hist \<Longrightarrow> proxy_run read_into es px = (outs, px') \<Longrightarrow>
   answered_after_request (hist @ outs)"
proof (induction es arbitrary: px hist outs)
  case (Cons e es)
  obtain os px1 where s: "proxy_step read_into e px = (os, px1)" by fastforce
  obtain os' where r: "proxy_run read_into es px1 = (os', px')" and outs: "outs = os @ os'"
    using Cons.prems(3) by (auto simp: s split: prod.splits)
  from logged_step [OF Cons.prems(1,2) s] Cons.IH [OF _ _ r, of "hist @ os"] show ?case
    by (simp add: outs)
qed simp

text \<open>
  An answer goes back only on the connection, and only from the pipe, that carried the
  request: in every run, a client is sent bytes of a pipe after its own bytes were sent on that
  same pipe. (Whether those bytes answer that request depends on what else is in the pipe.)
\<close>

lemma answer_after_request:
  assumes "fst (proxy_run read_into es (proxy_new n)) = xs @ (i, ToClient k p d) # ys"
  shows "\<exists>d'. (i, ToBackend k p d') \<in> set xs"
proof -
  have "requests_logged [] (proxy_new n)"
    by (auto simp: requests_logged_def proxy_new_def core_new_def task_at_def)
  moreover have "answered_after_request []"
    by (simp add: answered_after_request_def)
  ultimately have "answered_after_request (fst (proxy_run read_into es (proxy_new n)))"
    using logged_run [of "[]"] by (metis append_Nil prod.collapse)
  with assms show ?thesis
    unfolding answered_after_request_def by (auto dest: each_afterD)
qed

lemma answer_after_request_example:
  "\<exists>d'. (0, ToBackend 0 0 d') \<in> set [(0 :: nat, ToBackend 0 0 [71, 69, 84])]"
proof -
  have "fst (proxy_run (\<lambda>_ d. d) one_request (proxy_new 1)) =
      [(0, ToBackend 0 0 [71, 69, 84])] @ (0, ToClient 0 0 [79, 75]) # []"
    by (simp add: one_request_def proxy_new_def proxy_step_def core_new_def task_at_def task_defs
        set_task_def clear_def BUFFER_SIZE_def Let_def)
  then show ?thesis by (rule answer_after_request)
qed

end
