(* ===== verification/Chronos_Engine.thy ===== *)
theory Chronos_Engine
  imports Rust_Text "HOL-Library.AList" "HOL-Library.Multiset"
begin

text \<open>
  The storage engine of Chronos: \<^verbatim>\<open>chronos/src/engine.rs\<close>. A map in memory, a log file that every
  \<^verbatim>\<open>set\<close> appends a line to, recovery of the map from the log, and compaction through a temporary
  file that replaces the log by a rename. Files are inodes: an open handle keeps its inode when
  the path comes to name another. Every system call may fail, and a write may fail half way.
\<close>

section \<open>Files\<close>

record file_system =
  fs_paths :: "string \<Rightarrow> nat option"
  fs_data :: "nat \<Rightarrow> bytes"
  fs_next :: nat

definition fs_empty :: file_system where
  "fs_empty = \<lparr>fs_paths = (\<lambda>_. None), fs_data = (\<lambda>_. []), fs_next = 0\<rparr>"

definition fs_create :: "string \<Rightarrow> file_system \<Rightarrow> nat \<times> file_system" where
  "fs_create path fs = (fs_next fs,
     fs\<lparr>fs_paths := (fs_paths fs)(path \<mapsto> fs_next fs), fs_data := (fs_data fs)(fs_next fs := []),
        fs_next := fs_next fs + 1\<rparr>)"

definition open_append :: "string \<Rightarrow> file_system \<Rightarrow> nat \<times> file_system" where
  "open_append path fs = (case fs_paths fs path of Some i \<Rightarrow> (i, fs) | None \<Rightarrow> fs_create path fs)"

definition open_truncate :: "string \<Rightarrow> file_system \<Rightarrow> nat \<times> file_system" where
  "open_truncate path fs =
     (case fs_paths fs path of Some i \<Rightarrow> (i, fs\<lparr>fs_data := (fs_data fs)(i := [])\<rparr>) | None \<Rightarrow> fs_create path fs)"

definition fs_append :: "nat \<Rightarrow> bytes \<Rightarrow> file_system \<Rightarrow> file_system" where
  "fs_append i bs fs = fs\<lparr>fs_data := (fs_data fs)(i := fs_data fs i @ bs)\<rparr>"

definition fs_rename :: "string \<Rightarrow> string \<Rightarrow> file_system \<Rightarrow> file_system" where
  "fs_rename old new fs = fs\<lparr>fs_paths := (fs_paths fs)(new := fs_paths fs old, old := None)\<rparr>"

text \<open>The outcome of a write of \<open>n\<close> bytes: done, or an error after fewer than \<open>n\<close> of them.\<close>

type_synonym io_error = ustring \<comment> \<open>its \<^verbatim>\<open>Display\<close>\<close>

datatype io_outcome = IoOk | IoFail nat io_error

definition fs_write :: "nat \<Rightarrow> bytes \<Rightarrow> io_outcome \<Rightarrow> file_system \<Rightarrow> (io_error + unit) \<times> file_system" where
  "fs_write i bs out fs =
     (case out of
        IoOk \<Rightarrow> (Inr (), fs_append i bs fs)
      | IoFail j e \<Rightarrow> (Inl e, fs_append i (take (min j (length bs - 1)) bs) fs))"

section \<open>The engine\<close>

text \<open>
  \<^verbatim>\<open>HashMap<String, String>\<close> as an association list with distinct keys, and the order its random
  seed makes it iterate in.
\<close>

type_synonym kv = "(ustring \<times> ustring) list"

record engine =
  en_map :: kv
  en_order :: "kv \<Rightarrow> kv"
  en_log_file :: nat

definition DB_PATH :: string where "DB_PATH = ''chronos_v3.db''"
definition TEMP_PATH :: string where "TEMP_PATH = ''chronos_temp.db''"

definition comma :: nat where "comma = 44"

text \<open>\<^verbatim>\<open>writeln!(f, "{},{}", key, value)\<close>\<close>

definition record_bytes :: "ustring \<times> ustring \<Rightarrow> bytes" where
  "record_bytes kv = utf8_encode (fst kv @ comma # snd kv) @ [10]"

definition rehydrate_line :: "kv \<Rightarrow> ustring option \<Rightarrow> kv" where
  "rehydrate_line m line =
     (case line of
        None \<Rightarrow> m
      | Some rec \<Rightarrow> (case split_once comma rec of None \<Rightarrow> m | Some (k, v) \<Rightarrow> AList.update k v m))"

definition rehydrate :: "bytes \<Rightarrow> kv" where
  "rehydrate log = foldl rehydrate_line [] (buf_lines log)"

definition Engine_new ::
    "string \<Rightarrow> io_outcome \<Rightarrow> (kv \<Rightarrow> kv) \<Rightarrow> file_system \<Rightarrow> (io_error + engine) \<times> file_system" where
  "Engine_new filepath out order fs =
     (case out of
        IoFail _ e \<Rightarrow> (Inl e, fs)
      | IoOk \<Rightarrow>
          (case open_append filepath fs of
             (i, fs') \<Rightarrow>
               (Inr \<lparr>en_map = rehydrate (fs_data fs' i), en_order = order, en_log_file = i\<rparr>, fs')))"

definition Engine_set ::
    "ustring \<Rightarrow> ustring \<Rightarrow> io_outcome \<Rightarrow> engine \<times> file_system \<Rightarrow> (io_error + unit) \<times> engine \<times> file_system" where
  "Engine_set key value out st =
     (case st of (en, fs) \<Rightarrow>
        (let en' = en\<lparr>en_map := AList.update key value (en_map en)\<rparr> in
         case fs_write (en_log_file en') (record_bytes (key, value)) out fs of
           (res, fs') \<Rightarrow> (res, en', fs')))"

definition Engine_get :: "ustring \<Rightarrow> engine \<Rightarrow> ustring option" where
  "Engine_get key en = map_of (en_map en) key"

text \<open>Where a compaction stops, if it does.\<close>

datatype compact_outcome =
    CompactOk
  | OpenTempFails io_error
  | WriteTempFails nat io_error
  | SyncFails io_error
  | RenameFails io_error
  | ReopenFails io_error

definition Engine_compact ::
    "compact_outcome \<Rightarrow> engine \<times> file_system \<Rightarrow> (io_error + unit) \<times> engine \<times> file_system" where
  "Engine_compact out st =
     (case st of (en, fs) \<Rightarrow>
        (let content = concat (map record_bytes (en_order en (en_map en)));
             (temp, fs1) = open_truncate TEMP_PATH fs;
             fs2 = fs_append temp content fs1;
             fs3 = fs_rename TEMP_PATH DB_PATH fs2;
             (i, fs4) = open_append DB_PATH fs3 in
         case out of
           OpenTempFails e \<Rightarrow> (Inl e, en, fs)
         | WriteTempFails j e \<Rightarrow> (Inl e, en, fs_append temp (take j content) fs1)
         | SyncFails e \<Rightarrow> (Inl e, en, fs2)
         | RenameFails e \<Rightarrow> (Inl e, en, fs2)
         | ReopenFails e \<Rightarrow> (Inl e, en, fs3)
         | CompactOk \<Rightarrow> (Inr (), en\<lparr>en_log_file := i\<rparr>, fs4)))"

lemmas engine_defs [handle_defs] = Engine_set_def Engine_compact_def fs_write_def fs_append_def
  open_append_def open_truncate_def fs_create_def fs_rename_def

section \<open>Recovery of a log\<close>

text \<open>
  The records that survive a round trip through the log: Unicode text whose key has no comma
  and no line feed, whose value has no line feed and does not end in a carriage return.
\<close>

definition storable :: "ustring \<times> ustring \<Rightarrow> bool" where
  "storable kv \<longleftrightarrow> list_all is_scalar (fst kv) \<and> list_all is_scalar (snd kv) \<and>
     comma \<notin> set (fst kv) \<and> 10 \<notin> set (fst kv) \<and> 10 \<notin> set (snd kv) \<and>
     (snd kv \<noteq> [] \<longrightarrow> last (snd kv) \<noteq> 13)"

definition log_of :: "kv \<Rightarrow> bytes" where
  "log_of rs = concat (map record_bytes rs)"

lemma byte_eq: "m < 256 \<Longrightarrow> n < 256 \<Longrightarrow> (of_nat m :: u8) = of_nat n \<longleftrightarrow> m = n"
  by (metis unat_byte)

lemma utf8_low_bytes:
  assumes "is_scalar c" and "b < 0x80" and "of_nat b \<in> set (utf8_encode_char c)"
  shows "c = b"
proof -
  have digits: "192 + c div 64 < 256" if "c < 2048" using that by (simp add: less_mult_imp_div_less)
  have digits3: "224 + c div 4096 < 256" if "c < 65536" using that by (simp add: less_mult_imp_div_less)
  have "c < 0x110000"
    using assms(1) by (auto simp: is_scalar_def)
  then have digits4: "240 + c div 262144 < 256"
    by (simp add: less_mult_imp_div_less)
  have low: "128 + x mod 64 < 256" for x :: nat
    using mod_less_divisor [of 64 x] by simp
  from assms(2,3) show ?thesis
    by (auto simp: utf8_encode_char_def byte_eq digits digits3 digits4 low simp del: of_nat_add of_nat_numeral
        split: if_splits)
qed

lemma utf8_low_bytes_iff:
  "list_all is_scalar t \<Longrightarrow> b < 0x80 \<Longrightarrow> of_nat b \<in> set (utf8_encode t) \<Longrightarrow> b \<in> set t"
  by (induction t) (auto simp: utf8_encode_def dest: utf8_low_bytes)

lemma utf8_encode_append: "utf8_encode (s @ t) = utf8_encode s @ utf8_encode t"
  by (simp add: utf8_encode_def)

lemma last_utf8:
  assumes "list_all is_scalar t" and "t \<noteq> []" and "last t \<noteq> 13"
  shows "utf8_encode t \<noteq> [] \<and> last (utf8_encode t) \<noteq> 13"
proof -
  obtain s c where t: "t = s @ [c]"
    using assms(2) by (metis append_butlast_last_id)
  have "last (utf8_encode_char c) \<in> set (utf8_encode_char c)"
    using utf8_encode_char_not_Nil by simp
  moreover have "of_nat 13 \<notin> set (utf8_encode_char c)"
    using assms(1,3) utf8_low_bytes [of c 13] by (auto simp: t)
  ultimately have "last (utf8_encode_char c) \<noteq> 13" by (metis of_nat_numeral)
  then show ?thesis
    using utf8_encode_char_not_Nil by (simp add: t utf8_encode_def)
qed

lemma storable_line:
  assumes "storable kv"
  shows "10 \<notin> set (utf8_encode (fst kv @ comma # snd kv))"
    and "strip_cr (utf8_encode (fst kv @ comma # snd kv)) = utf8_encode (fst kv @ comma # snd kv)"
    and "from_utf8 (utf8_encode (fst kv @ comma # snd kv)) = Some (fst kv @ comma # snd kv)"
    and "split_once comma (fst kv @ comma # snd kv) = Some kv"
proof -
  let ?t = "fst kv @ comma # snd kv"
  have scalars: "list_all is_scalar ?t"
    using assms by (simp add: storable_def comma_def is_scalar_def)
  show "10 \<notin> set (utf8_encode ?t)"
    using utf8_low_bytes_iff [OF scalars, of 10] assms by (auto simp: storable_def comma_def)
  have "last ?t \<noteq> 13"
    using assms by (auto simp: storable_def comma_def)
  then show "strip_cr (utf8_encode ?t) = utf8_encode ?t"
    using last_utf8 [OF scalars] by (simp add: strip_cr_def)
  show "from_utf8 (utf8_encode ?t) = Some ?t"
    using scalars by simp
  show "split_once comma ?t = Some kv"
    using assms by (simp add: storable_def split_once_append)
qed

lemma raw_lines_log:
  "list_all storable rs \<Longrightarrow>
   raw_lines [] (log_of rs @ bs) = map (\<lambda>kv. utf8_encode (fst kv @ comma # snd kv)) rs @ raw_lines [] bs"
proof (induction rs)
  case (Cons r rs)
  then have "raw_lines [] (record_bytes r @ log_of rs @ bs) =
      utf8_encode (fst r @ comma # snd r) # raw_lines [] (log_of rs @ bs)"
    using raw_lines_line [OF storable_line(1)] storable_line(2) by (simp add: record_bytes_def)
  with Cons show ?case by (simp add: log_of_def)
qed (simp add: log_of_def)

definition upd :: "kv \<Rightarrow> ustring \<times> ustring \<Rightarrow> kv" where
  "upd m kv = AList.update (fst kv) (snd kv) m"

lemma foldl_lines: "list_all storable rs \<Longrightarrow>
  foldl rehydrate_line m (map from_utf8 (map (\<lambda>kv. utf8_encode (fst kv @ comma # snd kv)) rs)) = foldl upd m rs"
  by (induction rs arbitrary: m) (simp_all add: rehydrate_line_def storable_line upd_def split: prod.split)

text \<open>Recovery of a log of good records replays them; what follows them is read as the lines it makes.\<close>

lemma rehydrate_log_append:
  "list_all storable rs \<Longrightarrow>
   rehydrate (log_of rs @ bs) = foldl rehydrate_line (foldl upd [] rs) (map from_utf8 (raw_lines [] bs))"
  using foldl_lines [of rs "[]"] by (simp add: rehydrate_def buf_lines_def raw_lines_log del: map_map)

lemma rehydrate_log: "list_all storable rs \<Longrightarrow> rehydrate (log_of rs) = foldl upd [] rs"
  using rehydrate_log_append [of rs "[]"] by simp

lemma map_of_upd: "map_of (upd m kv) = (map_of m)(fst kv \<mapsto> snd kv)"
  by (simp add: upd_def update_conv')

lemma map_of_foldl_upd: "map_of (foldl upd m rs) = map_of m ++ map_of (rev rs)"
  by (induction rs arbitrary: m) (auto simp: map_of_upd map_add_def fun_eq_iff split: option.splits)

section \<open>The invariant\<close>

definition fs_ok :: "file_system \<Rightarrow> bool" where
  "fs_ok fs \<longleftrightarrow> (\<forall>p i. fs_paths fs p = Some i \<longrightarrow> i < fs_next fs) \<and>
     (\<forall>p q i. fs_paths fs p = Some i \<longrightarrow> fs_paths fs q = Some i \<longrightarrow> p = q)"

definition log_holds :: "bytes \<Rightarrow> kv \<Rightarrow> bool" where
  "log_holds log m \<longleftrightarrow> (\<exists>rs. list_all storable rs \<and> log = log_of rs \<and> map_of (foldl upd [] rs) = map_of m)"

definition map_ok :: "engine \<Rightarrow> bool" where
  "map_ok en \<longleftrightarrow> distinct (map fst (en_map en)) \<and> list_all storable (en_map en) \<and>
     (\<forall>m. mset (en_order en m) = mset m)"

definition db_inv :: "engine \<times> file_system \<Rightarrow> bool" where
  "db_inv st \<longleftrightarrow> (case st of (en, fs) \<Rightarrow>
     fs_ok fs \<and> fs_paths fs DB_PATH = Some (en_log_file en) \<and>
     log_holds (fs_data fs (en_log_file en)) (en_map en) \<and> map_ok en)"

text \<open>What is in memory, and what opening the database again would find.\<close>

definition contents :: "engine \<times> file_system \<Rightarrow> ustring \<rightharpoonup> ustring" where
  "contents st = map_of (en_map (fst st))"

definition recovered :: "engine \<times> file_system \<Rightarrow> ustring \<rightharpoonup> ustring" where
  "recovered st = (case fs_paths (snd st) DB_PATH of
     None \<Rightarrow> Map.empty | Some i \<Rightarrow> map_of (rehydrate (fs_data (snd st) i)))"

lemma paths_differ [simp]: "TEMP_PATH \<noteq> DB_PATH" "DB_PATH \<noteq> TEMP_PATH"
  by (simp_all add: TEMP_PATH_def DB_PATH_def)

lemma log_holds_recovers: "log_holds log m \<Longrightarrow> map_of (rehydrate log) = map_of m"
  by (auto simp: log_holds_def rehydrate_log)

lemma db_inv_durable: "db_inv st \<Longrightarrow> recovered st = contents st"
  by (auto simp: db_inv_def recovered_def contents_def log_holds_recovers split: prod.splits)

lemma set_update: "set (AList.update k v m) \<subseteq> insert (k, v) (set m)"
  by (induction m) auto

lemma map_ok_update:
  assumes "map_ok en" and "storable (k, v)"
  shows "map_ok (en\<lparr>en_map := AList.update k v (en_map en)\<rparr>)"
  using assms set_update [of k v "en_map en"]
  by (auto simp: map_ok_def distinct_update list_all_iff)

lemma log_holds_append:
  assumes "log_holds log m" and "storable kv"
  shows "log_holds (log @ record_bytes kv) (AList.update (fst kv) (snd kv) m)"
proof -
  from assms(1) obtain rs where "list_all storable rs" "log = log_of rs" "map_of (foldl upd [] rs) = map_of m"
    by (auto simp: log_holds_def)
  with assms(2) show ?thesis
    unfolding log_holds_def by (intro exI [of _ "rs @ [kv]"]) (simp add: log_of_def map_of_upd update_conv')
qed

lemma Engine_set_ok:
  assumes "db_inv st" and "storable (k, v)"
  shows "\<exists>st'. Engine_set k v IoOk st = (Inr (), st') \<and> contents st' = (contents st)(k \<mapsto> v) \<and> db_inv st'"
  using assms log_holds_append [of _ _ "(k, v)"] map_ok_update [of _ k v]
  by (cases st) (auto simp: Engine_set_def fs_write_def fs_append_def db_inv_def contents_def update_conv' fs_ok_def)

text \<open>The records of the map in any order replay to the map, since its keys are distinct.\<close>

lemma compacted_records:
  assumes "map_ok en"
  shows "list_all storable (en_order en (en_map en))"
    and "map_of (foldl upd [] (en_order en (en_map en))) = map_of (en_map en)"
proof -
  let ?rs = "en_order en (en_map en)"
  have same: "mset ?rs = mset (en_map en)"
    using assms by (simp add: map_ok_def)
  then have set: "set ?rs = set (en_map en)"
    by (rule mset_eq_setD)
  have "mset (map fst ?rs) = mset (map fst (en_map en))"
    using same by simp
  then have "distinct (map fst (rev ?rs))"
    using assms by (metis map_ok_def mset_eq_imp_distinct_iff distinct_rev rev_map)
  then have "map_of (rev ?rs) = map_of (en_map en)"
    using set assms by (simp only: map_ok_def map_of_inject_set set_rev)
  then show "map_of (foldl upd [] ?rs) = map_of (en_map en)"
    by (simp add: map_of_foldl_upd)
  show "list_all storable ?rs"
    using assms set by (simp add: map_ok_def list_all_iff)
qed

lemma log_holds_compacted: "map_ok en \<Longrightarrow> log_holds (log_of (en_order en (en_map en))) (en_map en)"
  unfolding log_holds_def using compacted_records by blast

section \<open>Compaction\<close>

lemma open_truncate_temp:
  assumes "fs_ok fs" and "fs_paths fs DB_PATH = Some i"
  obtains t fs1 where "open_truncate TEMP_PATH fs = (t, fs1)" and "t \<noteq> i" and "fs_data fs1 t = []"
    and "fs_data fs1 i = fs_data fs i" and "fs_paths fs1 = (fs_paths fs)(TEMP_PATH \<mapsto> t)" and "fs_ok fs1"
proof (cases "fs_paths fs TEMP_PATH")
  case None
  have "i < fs_next fs"
    using assms by (simp add: fs_ok_def)
  moreover have "fs_ok (snd (fs_create TEMP_PATH fs))"
    using assms(1) by (auto simp: fs_ok_def fs_create_def less_Suc_eq)
  ultimately show thesis
    using None by (intro that [of "fs_next fs" "snd (fs_create TEMP_PATH fs)"]) (auto simp: open_truncate_def fs_create_def)
next
  case (Some t)
  then have "t \<noteq> i"
    using assms unfolding fs_ok_def by (metis paths_differ(1))
  with Some assms(1) show thesis
    by (intro that [of t "fs\<lparr>fs_data := (fs_data fs)(t := [])\<rparr>"]) (auto simp: open_truncate_def fs_ok_def)
qed

lemma rename_ok: "fs_ok fs \<Longrightarrow> fs_paths fs TEMP_PATH = Some t \<Longrightarrow> fs_ok (fs_rename TEMP_PATH DB_PATH fs)"
  by (auto simp: fs_ok_def fs_rename_def split: if_splits)

lemma append_other [simp]:
  "t \<noteq> i \<Longrightarrow> fs_data (fs_append t bs fs) i = fs_data fs i" "fs_paths (fs_append t bs fs) = fs_paths fs"
  "fs_ok (fs_append t bs fs) = fs_ok fs"
  by (simp_all add: fs_append_def fs_ok_def)

text \<open>A compaction rewrites the log from the map, whatever the old log holds.\<close>

lemma compact_rewrites:
  assumes "fs_ok fs" and "fs_paths fs DB_PATH = Some i" and "map_ok en"
  shows "\<exists>st'. Engine_compact CompactOk (en, fs) = (Inr (), st') \<and> contents st' = contents (en, fs) \<and> db_inv st'"
proof -
  let ?content = "log_of (en_order en (en_map en))"
  obtain t fs1 where t: "open_truncate TEMP_PATH fs = (t, fs1)" "fs_data fs1 t = []"
      "fs_paths fs1 = (fs_paths fs)(TEMP_PATH \<mapsto> t)" "fs_ok fs1"
    using assms(1,2) by (rule open_truncate_temp)
  let ?fs3 = "fs_rename TEMP_PATH DB_PATH (fs_append t ?content fs1)"
  have paths: "fs_paths ?fs3 DB_PATH = Some t" and data: "fs_data ?fs3 t = ?content"
    using t by (simp_all add: fs_rename_def fs_append_def)
  have "Engine_compact CompactOk (en, fs) = (Inr (), en\<lparr>en_log_file := t\<rparr>, ?fs3)"
    using t(1) paths by (simp add: Engine_compact_def open_append_def log_of_def)
  moreover have "db_inv (en\<lparr>en_log_file := t\<rparr>, ?fs3)"
    using log_holds_compacted [OF assms(3)] paths data assms(3) rename_ok [of "fs_append t ?content fs1" t] t(3,4)
    by (simp add: db_inv_def map_ok_def)
  ultimately show ?thesis by (simp add: contents_def)
qed

lemma Engine_compact_ok:
  "db_inv st \<Longrightarrow> \<exists>st'. Engine_compact CompactOk st = (Inr (), st') \<and> contents st' = contents st \<and> db_inv st'"
  using compact_rewrites by (cases st) (auto simp: db_inv_def)

text \<open>A compaction that stops before the rename has touched nothing but the temporary file.\<close>

lemma Engine_compact_fails:
  assumes "db_inv st" and "out \<noteq> CompactOk" and "\<forall>e. out \<noteq> ReopenFails e"
  shows "\<exists>e st'. Engine_compact out st = (Inl e, st') \<and> fst st' = fst st \<and> db_inv st'"
proof -
  obtain en fs where st: "st = (en, fs)" by (cases st)
  with assms(1) have inv: "fs_ok fs" "fs_paths fs DB_PATH = Some (en_log_file en)" "map_ok en"
      "log_holds (fs_data fs (en_log_file en)) (en_map en)"
    by (simp_all add: db_inv_def)
  obtain t fs1 where t: "open_truncate TEMP_PATH fs = (t, fs1)" "t \<noteq> en_log_file en"
      "fs_data fs1 (en_log_file en) = fs_data fs (en_log_file en)"
      "fs_paths fs1 = (fs_paths fs)(TEMP_PATH \<mapsto> t)" "fs_ok fs1"
    using inv(1,2) by (rule open_truncate_temp)
  then have "db_inv (en, fs_append t bs fs1)" for bs
    using inv by (simp add: db_inv_def)
  then show ?thesis
    using assms t(1) by (cases out) (auto simp: st Engine_compact_def case_prod_beta)
qed

text \<open>
  C13: compaction is atomic. Let memory and log agree and all entries be storable (\<open>db_inv\<close>: no comma or line
  feed in a key, no line feed or final carriage return in a value, which no log can bring back). Then a
  compaction keeps the contents in memory, and reopening the database afterwards finds them, whatever order
  the hash map is written in and at whatever step short of the final reopen it fails; memory and log agree
  again, so that the engine can go on appending, to the new log when it succeeds.
\<close>

theorem compact_atomic:
  assumes "db_inv st" and "\<forall>e. out \<noteq> ReopenFails e"
  shows "(isl (fst (Engine_compact out st)) \<longleftrightarrow> out \<noteq> CompactOk) \<and> db_inv (snd (Engine_compact out st)) \<and>
    contents (snd (Engine_compact out st)) = contents st \<and> recovered (snd (Engine_compact out st)) = contents st"
proof (cases "out = CompactOk")
  case True
  then show ?thesis
    using Engine_compact_ok [OF assms(1)] db_inv_durable by fastforce
next
  case False
  then show ?thesis
    using Engine_compact_fails [OF assms(1) False assms(2)] db_inv_durable by (fastforce simp: contents_def)
qed

section \<open>Start and restart\<close>

lemma foldl_upd_ok: "distinct (map fst m) \<Longrightarrow> list_all storable m \<Longrightarrow> list_all storable rs \<Longrightarrow>
   distinct (map fst (foldl upd m rs)) \<and> list_all storable (foldl upd m rs)"
proof (induction rs arbitrary: m)
  case (Cons r rs)
  have "list_all storable (upd m r)"
    using Cons.prems set_update [of "fst r" "snd r" m] by (auto simp: upd_def list_all_iff)
  with Cons show ?case by (simp add: upd_def distinct_update)
qed simp

text \<open>A start after a stop at any point: a new process opens the path again.\<close>

lemma Engine_restart:
  assumes "db_inv (en, fs)" and "\<forall>m. mset (order m) = mset m"
  shows "\<exists>en'. Engine_new DB_PATH IoOk order fs = (Inr en', fs) \<and> db_inv (en', fs) \<and>
    contents (en', fs) = contents (en, fs)"
proof -
  let ?log = "fs_data fs (en_log_file en)"
  let ?en = "\<lparr>en_map = rehydrate ?log, en_order = order, en_log_file = en_log_file en\<rparr>"
  from assms(1) obtain rs where rs: "list_all storable rs" "?log = log_of rs"
    and m: "map_of (foldl upd [] rs) = map_of (en_map en)" and fs: "fs_ok fs" "fs_paths fs DB_PATH = Some (en_log_file en)"
    by (auto simp: db_inv_def log_holds_def)
  then have "rehydrate ?log = foldl upd [] rs"
    by (simp add: rehydrate_log)
  with rs m fs assms(2) foldl_upd_ok [of "[]" rs] have "db_inv (?en, fs)"
    by (auto simp: db_inv_def log_holds_def map_ok_def intro!: exI [of _ rs])
  moreover have "Engine_new DB_PATH IoOk order fs = (Inr ?en, fs)"
    using fs(2) by (simp add: Engine_new_def open_append_def)
  ultimately show ?thesis
    using \<open>rehydrate ?log = foldl upd [] rs\<close> m by (simp add: contents_def)
qed

definition engine_start :: "(kv \<Rightarrow> kv) \<Rightarrow> engine \<times> file_system" where
  "engine_start order = (\<lparr>en_map = [], en_order = order, en_log_file = 0\<rparr>, snd (fs_create DB_PATH fs_empty))"

lemma Engine_new_empty:
  "Engine_new DB_PATH IoOk order fs_empty = (Inr (fst (engine_start order)), snd (engine_start order))"
  by (simp add: Engine_new_def open_append_def fs_empty_def fs_create_def engine_start_def rehydrate_def buf_lines_def)

lemma db_inv_start: "\<forall>m. mset (order m) = mset m \<Longrightarrow> db_inv (engine_start order)"
  by (auto simp: db_inv_def engine_start_def fs_create_def fs_empty_def fs_ok_def log_holds_def map_ok_def
      log_of_def intro!: exI [of _ "[]"])

datatype engine_event =
    DoSet ustring ustring
  | DoCompact compact_outcome
  | Restart "kv \<Rightarrow> kv" \<comment> \<open>the process stops, and a new one opens the database\<close>

fun engine_event_step :: "engine_event \<Rightarrow> engine \<times> file_system \<Rightarrow> engine \<times> file_system" where
  "engine_event_step (DoSet k v) st = snd (Engine_set k v IoOk st)"
| "engine_event_step (DoCompact out) st = snd (Engine_compact out st)"
| "engine_event_step (Restart order) st =
     (case Engine_new DB_PATH IoOk order (snd st) of (Inl e, fs) \<Rightarrow> (fst st, fs) | (Inr en, fs) \<Rightarrow> (en, fs))"

fun event_ok :: "engine_event \<Rightarrow> bool" where
  "event_ok (DoSet k v) \<longleftrightarrow> storable (k, v)"
| "event_ok (DoCompact out) \<longleftrightarrow> (\<forall>e. out \<noteq> ReopenFails e)"
| "event_ok (Restart order) \<longleftrightarrow> (\<forall>m. mset (order m) = mset m)"

fun apply_event :: "engine_event \<Rightarrow> (ustring \<rightharpoonup> ustring) \<Rightarrow> (ustring \<rightharpoonup> ustring)" where
  "apply_event (DoSet k v) m = m(k \<mapsto> v)"
| "apply_event _ m = m"

lemma compact_step:
  assumes "db_inv st" and "\<forall>e. out \<noteq> ReopenFails e"
  shows "db_inv (snd (Engine_compact out st))" and "contents (snd (Engine_compact out st)) = contents st"
proof -
  have "db_inv (snd (Engine_compact out st)) \<and> contents (snd (Engine_compact out st)) = contents st"
  proof (cases "out = CompactOk")
    case True
    then show ?thesis using Engine_compact_ok [OF assms(1)] by fastforce
  next
    case False
    then show ?thesis
      using Engine_compact_fails [OF assms(1) False assms(2)] by (fastforce simp: contents_def)
  qed
  then show "db_inv (snd (Engine_compact out st))" and "contents (snd (Engine_compact out st)) = contents st"
    by simp_all
qed

lemma engine_event_step_ok:
  assumes "db_inv st" and "event_ok ev"
  shows "db_inv (engine_event_step ev st) \<and> contents (engine_event_step ev st) = apply_event ev (contents st)"
proof (cases ev)
  case (DoSet k v)
  then show ?thesis using Engine_set_ok [OF assms(1), of k v] assms(2) by fastforce
next
  case (DoCompact out)
  then show ?thesis using compact_step [OF assms(1)] assms(2) by simp
next
  case (Restart order)
  then show ?thesis using Engine_restart [of "fst st" "snd st" order] assms by fastforce
qed

lemma engine_run_ok: "db_inv st \<Longrightarrow> list_all event_ok evs \<Longrightarrow>
  db_inv (fold engine_event_step evs st) \<and> contents (fold engine_event_step evs st) = fold apply_event evs (contents st)"
proof (induction evs arbitrary: st)
  case (Cons ev evs)
  then have "db_inv (engine_event_step ev st) \<and> contents (engine_event_step ev st) = apply_event ev (contents st)"
    by (intro engine_event_step_ok) simp_all
  with Cons.IH [of "engine_event_step ev st"] Cons.prems show ?case by simp
qed simp

text \<open>
  C6: durability. From an empty disk, after any sequence of sets whose write succeeds and whose key and
  value are storable (no comma or line feed in the key, no line feed or final carriage return in the
  value), of compactions (failed ones included, short of the final reopen) and of restarts, the engine
  holds exactly the last value set for every key, and so does the disk: reopening the database finds the
  same map. (What becomes of the other sets is shown below.)
\<close>

theorem engine_durable:
  assumes "list_all event_ok evs" and "\<forall>m. mset (order m) = mset m"
  shows "contents (fold engine_event_step evs (engine_start order)) = fold apply_event evs Map.empty \<and>
    recovered (fold engine_event_step evs (engine_start order)) = fold apply_event evs Map.empty"
proof -
  have "contents (engine_start order) = Map.empty"
    by (simp add: contents_def engine_start_def)
  with engine_run_ok [OF db_inv_start [OF assms(2)] assms(1)] show ?thesis
    by (simp add: db_inv_durable)
qed

definition rev_order :: "kv \<Rightarrow> kv" where "rev_order = rev"

lemma rev_order: "\<forall>m. mset (rev_order m) = mset m"
  by (simp add: rev_order_def)

definition kA :: ustring where "kA = ascii ''a''"
definition kB :: ustring where "kB = ascii ''b''"

lemma storable_sample: "storable (kA, v)" "storable (kB, v)" if "list_all is_scalar v" "10 \<notin> set v" "v \<noteq> []" "last v \<noteq> 13"
  using that by (simp_all add: storable_def kA_def kB_def ascii_def is_scalar_def comma_def)

text \<open>Two keys are set; then a compaction fails at the rename, and the next one succeeds.\<close>

theorem compact_atomic_witness:
  "let st = snd (Engine_set kB [50] IoOk (snd (Engine_set kA [49] IoOk (engine_start rev_order))));
       st1 = snd (Engine_compact (RenameFails []) st); st2 = snd (Engine_compact CompactOk st1) in
   recovered st1 = [kA \<mapsto> [49], kB \<mapsto> [50]] \<and> recovered st2 = [kA \<mapsto> [49], kB \<mapsto> [50]]"
proof -
  have ok: "storable (kA, [49])" "storable (kB, [50])"
    by (simp_all add: storable_sample is_scalar_def)
  obtain st0 where 0: "snd (Engine_set kA [49] IoOk (engine_start rev_order)) = st0" "db_inv st0" "contents st0 = [kA \<mapsto> [49]]"
    using Engine_set_ok [OF db_inv_start [OF rev_order] ok(1)] by (fastforce simp: contents_def engine_start_def)
  obtain st where st: "snd (Engine_set kB [50] IoOk st0) = st" "db_inv st" "contents st = [kA \<mapsto> [49], kB \<mapsto> [50]]"
    using Engine_set_ok [OF 0(2) ok(2)] 0(3) by fastforce
  let ?st1 = "snd (Engine_compact (RenameFails []) st)"
  have 1: "db_inv ?st1" "contents ?st1 = contents st" "recovered ?st1 = contents st"
    using compact_atomic [OF st(2), of "RenameFails []"] by simp_all
  have "recovered (snd (Engine_compact CompactOk ?st1)) = contents ?st1"
    using compact_atomic [OF 1(1), of CompactOk] by simp
  with 0(1) 1 st show ?thesis by (simp add: Let_def)
qed

definition sample_events :: "engine_event list" where
  "sample_events = [DoSet kA [49], DoSet kB [50], DoCompact CompactOk, DoSet kA [51],
     DoCompact (WriteTempFails 3 []), Restart rev_order]"

theorem engine_durable_witness:
  "contents (fold engine_event_step sample_events (engine_start rev_order)) = [kA \<mapsto> [51], kB \<mapsto> [50]]"
proof -
  have "list_all event_ok sample_events"
    by (simp add: sample_events_def storable_sample rev_order is_scalar_def)
  from engine_durable [OF this rev_order] show ?thesis
    by (simp add: sample_events_def kA_def kB_def ascii_def fun_upd_twist)
qed

section \<open>Where durability ends\<close>

lemma recovered_log: "fs_paths fs DB_PATH = Some i \<Longrightarrow> fs_data fs i = log_of rs \<Longrightarrow> list_all storable rs \<Longrightarrow>
   recovered (en, fs) = map_of (foldl upd [] rs)"
  by (simp add: recovered_def rehydrate_log)

text \<open>Any sets after one another, with what each of them answers.\<close>

fun Engine_sets :: "kv \<Rightarrow> engine \<times> file_system \<Rightarrow> (io_error + unit) list \<times> engine \<times> file_system" where
  "Engine_sets [] st = ([], st)"
| "Engine_sets (kv # kvs) st =
     (case Engine_set (fst kv) (snd kv) IoOk st of
        (res, st1) \<Rightarrow> (case Engine_sets kvs st1 of (ress, st2) \<Rightarrow> (res # ress, st2)))"

lemma Engine_sets_elsewhere:
  assumes "Engine_sets kvs (en, fs) = (ress, en', fs')" and "t \<noteq> en_log_file en"
  shows "ress = replicate (length kvs) (Inr ())" and "fs_paths fs' = fs_paths fs" and "fs_next fs' = fs_next fs"
    and "fs_data fs' t = fs_data fs t" and "en' = en\<lparr>en_map := foldl upd (en_map en) kvs\<rparr>"
proof -
  have "ress = replicate (length kvs) (Inr ()) \<and> fs_paths fs' = fs_paths fs \<and> fs_next fs' = fs_next fs \<and>
      fs_data fs' t = fs_data fs t \<and> en' = en\<lparr>en_map := foldl upd (en_map en) kvs\<rparr>"
    using assms
  proof (induction kvs arbitrary: en fs ress)
    case (Cons kv kvs)
    let ?en = "en\<lparr>en_map := upd (en_map en) kv\<rparr>" and ?fs = "fs_append (en_log_file en) (record_bytes kv) fs"
    have "Engine_set (fst kv) (snd kv) IoOk (en, fs) = (Inr (), ?en, ?fs)"
      by (simp add: Engine_set_def fs_write_def upd_def)
    with Cons.prems(1) obtain ress' where run: "Engine_sets kvs (?en, ?fs) = (ress', en', fs')" and "ress = Inr () # ress'"
      by (auto split: prod.splits)
    with Cons.IH [OF run] Cons.prems(2) show ?case
      by (simp add: fs_append_def)
  qed simp
  then show "ress = replicate (length kvs) (Inr ())" and "fs_paths fs' = fs_paths fs" and "fs_next fs' = fs_next fs"
    and "fs_data fs' t = fs_data fs t" and "en' = en\<lparr>en_map := foldl upd (en_map en) kvs\<rparr>"
    by simp_all
qed

lemma Engine_sets_ok:
  "db_inv st \<Longrightarrow> list_all storable kvs \<Longrightarrow> \<exists>st'. Engine_sets kvs st = (replicate (length kvs) (Inr ()), st') \<and>
    contents st' = contents st ++ map_of (rev kvs) \<and> db_inv st'"
proof (induction kvs arbitrary: st)
  case (Cons kv kvs)
  obtain st1 where set: "Engine_set (fst kv) (snd kv) IoOk st = (Inr (), st1)"
    and st1: "contents st1 = (contents st)(fst kv \<mapsto> snd kv)" "db_inv st1"
    using Engine_set_ok [OF Cons.prems(1), of "fst kv" "snd kv"] Cons.prems(2) by auto
  from Cons.IH [OF st1(2)] Cons.prems(2) obtain st2 where "Engine_sets kvs st1 = (replicate (length kvs) (Inr ()), st2)"
    and "contents st2 = contents st1 ++ map_of (rev kvs)" and "db_inv st2"
    by auto
  with set st1(1) show ?case
    by (cases kv) (simp add: map_add_def fun_eq_iff split: option.split)
qed simp

lemma map_ok_foldl:
  assumes "map_ok en" and "list_all storable kvs"
  shows "map_ok (en\<lparr>en_map := foldl upd (en_map en) kvs\<rparr>)"
  using assms
proof (induction kvs arbitrary: en)
  case (Cons kv kvs)
  from Cons.prems map_ok_update [of en "fst kv" "snd kv"] have "map_ok (en\<lparr>en_map := upd (en_map en) kv\<rparr>)"
    by (simp add: upd_def)
  from Cons.IH [OF this] Cons.prems show ?case by simp
qed simp

text \<open>
  C33: when a compaction of a database consistent with its log fails at its last step, reopening the
  renamed file, the engine keeps appending to the inode that no path names any more. All the sets after
  it, however many, are acknowledged and visible in memory; but a start finds the contents as they were
  at the compaction, with none of them. Another compaction that completes saves them (if their keys
  and values are storable: no comma or line feed in the key, no line feed or final carriage return in the value).
\<close>

theorem failed_reopen_loses_sets:
  assumes "db_inv st" and "Engine_compact (ReopenFails e) st = (res1, st1)"
    and "Engine_sets kvs st1 = (ress, st2)"
  shows "res1 = Inl e \<and> ress = replicate (length kvs) (Inr ()) \<and>
    contents st2 = contents st ++ map_of (rev kvs) \<and> recovered st2 = contents st \<and>
    (list_all storable kvs \<longrightarrow> (\<exists>st3. Engine_compact CompactOk st2 = (Inr (), st3) \<and>
       contents st3 = contents st2 \<and> recovered st3 = contents st2))"
proof -
  obtain en fs where st: "st = (en, fs)" by (cases st)
  with assms(1) have inv: "fs_ok fs" "fs_paths fs DB_PATH = Some (en_log_file en)" "map_ok en"
    by (simp_all add: db_inv_def)
  let ?content = "log_of (en_order en (en_map en))"
  obtain t fs1 where t: "open_truncate TEMP_PATH fs = (t, fs1)" "t \<noteq> en_log_file en" "fs_data fs1 t = []"
      "fs_paths fs1 = (fs_paths fs)(TEMP_PATH \<mapsto> t)" "fs_ok fs1"
    using inv(1,2) by (rule open_truncate_temp)
  let ?fs3 = "fs_rename TEMP_PATH DB_PATH (fs_append t ?content fs1)"
  have st1: "res1 = Inl e" "st1 = (en, ?fs3)"
    using assms(2) t(1) by (simp_all add: st Engine_compact_def log_of_def case_prod_beta)
  have fs3: "fs_ok ?fs3"
    using t(4,5) by (intro rename_ok) simp_all
  obtain en2 fs2 where st2: "st2 = (en2, fs2)" by (cases st2)
  note sets = Engine_sets_elsewhere [OF assms(3) [unfolded st1(2) st2] t(2)]
  have path: "fs_paths fs2 DB_PATH = Some t" and data: "fs_data fs2 t = ?content" and ok: "fs_ok fs2"
  proof -
    show "fs_paths fs2 DB_PATH = Some t" and "fs_data fs2 t = ?content"
      using t(3,4) by (simp_all add: sets(2,4) fs_rename_def fs_append_def)
    show "fs_ok fs2"
      using fs3 unfolding fs_ok_def sets(2,3) .
  qed
  have "recovered st2 = contents st"
    using log_holds_recovers [OF log_holds_compacted [OF inv(3)]] path data by (simp add: recovered_def contents_def st st2)
  moreover have "contents st2 = contents st ++ map_of (rev kvs)"
    by (simp add: contents_def st st2 sets(5) map_of_foldl_upd)
  moreover have "\<exists>st3. Engine_compact CompactOk st2 = (Inr (), st3) \<and> contents st3 = contents st2 \<and> recovered st3 = contents st2"
    if "list_all storable kvs"
    using compact_rewrites [OF ok path, of en2] map_ok_foldl [OF inv(3) that] db_inv_durable by (fastforce simp: st2 sets(5))
  ultimately show ?thesis
    using st1(1) sets(1) by blast
qed

text \<open>Two sets after the failure: both are done for the client, and both are gone.\<close>

theorem failed_reopen_loses_sets_witness:
  "let st1 = snd (Engine_compact (ReopenFails []) (engine_start rev_order));
       (ress, st2) = Engine_sets [(kA, [49]), (kB, [50])] st1 in
   ress = [Inr (), Inr ()] \<and> contents st2 = [kA \<mapsto> [49], kB \<mapsto> [50]] \<and> recovered st2 = Map.empty"
proof -
  let ?st = "engine_start rev_order"
  obtain r1 st1 where 1: "Engine_compact (ReopenFails []) ?st = (r1, st1)" by (rule prod.exhaust)
  obtain ress st2 where 2: "Engine_sets [(kA, [49]), (kB, [50])] st1 = (ress, st2)" by (rule prod.exhaust)
  have "kA \<noteq> kB"
    by (simp add: kA_def kB_def ascii_def)
  with failed_reopen_loses_sets [OF db_inv_start [OF rev_order] 1 2] 1 2 show ?thesis
    by (auto simp: Let_def contents_def engine_start_def fun_upd_twist)
qed

text \<open>
  C34: a key with a comma does not survive a restart. The line is split at its first comma, so
  the part of the key after it comes back as the start of the value of a shorter key. (The log was good before,
  and the record has no line feed or final carriage return.)
\<close>

theorem comma_key_misread:
  assumes "db_inv st" and "storable (a, b @ comma # v)"
    and "Engine_set (a @ comma # b) v IoOk st = (res, st')"
  shows "res = Inr () \<and> contents st' = (contents st)(a @ comma # b \<mapsto> v) \<and>
    recovered st' = (contents st)(a \<mapsto> b @ comma # v)"
proof -
  obtain en fs where st: "st = (en, fs)" by (cases st)
  with assms(1) obtain rs where rs: "list_all storable rs" "fs_data fs (en_log_file en) = log_of rs"
    and m: "map_of (foldl upd [] rs) = map_of (en_map en)" and path: "fs_paths fs DB_PATH = Some (en_log_file en)"
    by (auto simp: db_inv_def log_holds_def)
  let ?fs = "fs_append (en_log_file en) (record_bytes (a @ comma # b, v)) fs"
  have st': "res = Inr ()" "st' = (en\<lparr>en_map := AList.update (a @ comma # b) v (en_map en)\<rparr>, ?fs)"
    using assms(3) by (auto simp: st Engine_set_def fs_write_def)
  have "fs_data ?fs (en_log_file en) = log_of (rs @ [(a, b @ comma # v)])"
    by (simp add: fs_append_def rs(2) log_of_def record_bytes_def)
  then have "recovered st' = map_of (foldl upd [] (rs @ [(a, b @ comma # v)]))"
    unfolding st'(2) using rs(1) assms(2) path by (intro recovered_log [of ?fs "en_log_file en"]) (simp_all add: fs_append_def)
  with st' show ?thesis
    by (simp add: map_of_upd m contents_def update_conv' st)
qed

theorem comma_key_misread_witness:
  "let st' = snd (Engine_set (ascii ''a,b'') (ascii ''1'') IoOk (engine_start rev_order)) in
   contents st' (ascii ''a,b'') = Some (ascii ''1'') \<and> recovered st' (ascii ''a,b'') = None \<and>
   recovered st' (ascii ''a'') = Some (ascii ''b,1'')"
proof -
  have k: "ascii ''a,b'' = kA @ comma # kB" "ascii ''b,1'' = kB @ comma # ascii ''1''"
    by (simp_all add: kA_def kB_def comma_def ascii_def)
  obtain res st' where s: "Engine_set (kA @ comma # kB) (ascii ''1'') IoOk (engine_start rev_order) = (res, st')"
    by (rule prod.exhaust)
  have "storable (kA, kB @ comma # ascii ''1'')"
    by (simp add: storable_def kA_def kB_def ascii_def is_scalar_def comma_def)
  from comma_key_misread [OF db_inv_start [OF rev_order] this s] s show ?thesis
    unfolding k by (simp add: Let_def kA_def ascii_def comma_def contents_def engine_start_def)
qed

end
