(* ===== verification/Chronos_Parser.thy ===== *)
theory Chronos_Parser
  imports Rust_Text
begin

text \<open>
  The command language of Chronos: \<^verbatim>\<open>chronos/src/parser.rs\<close>. The parser indexes
  \<^verbatim>\<open>parts[0]\<close> without looking whether there is one, which panics: \<^const>\<open>None\<close> is that panic.
\<close>

section \<open>Definitions\<close>

datatype command =
    CmdSet ustring ustring
  | CmdGet ustring
  | CmdDel ustring
  | CmdCompact
  | CmdPing
  | CmdUnknown

definition kw_SET :: ustring where "kw_SET = ascii ''SET''"
definition kw_GET :: ustring where "kw_GET = ascii ''GET''"
definition kw_DEL :: ustring where "kw_DEL = ascii ''DEL''"
definition kw_PING :: ustring where "kw_PING = ascii ''PING''"
definition kw_COMPACT :: ustring where "kw_COMPACT = ascii ''COMPACT''"

lemmas kw_defs = kw_SET_def kw_GET_def kw_DEL_def kw_PING_def kw_COMPACT_def

definition parse :: "ustring \<Rightarrow> command option" where
  "parse input =
     (let parts = split_whitespace (trim input) in
      if parts = [] then None
      else
        (let kw = to_uppercase (parts ! 0) in
         Some (if kw = kw_SET \<and> length parts \<ge> 3 then CmdSet (parts ! 1) (join [0x20] (drop 2 parts))
               else if kw = kw_GET \<and> length parts = 2 then CmdGet (parts ! 1)
               else if kw = kw_DEL \<and> length parts = 2 then CmdDel (parts ! 1)
               else if kw = kw_PING then CmdPing
               else if kw = kw_COMPACT then CmdCompact
               else CmdUnknown)))"

section \<open>What the parser returns\<close>

text \<open>A value as the parser builds it: at least one word, single spaces between the words.\<close>

definition normal_value :: "ustring \<Rightarrow> bool" where
  "normal_value v \<longleftrightarrow> split_whitespace v \<noteq> [] \<and> join [0x20] (split_whitespace v) = v"

fun wf_command :: "command \<Rightarrow> bool" where
  "wf_command (CmdSet k v) \<longleftrightarrow> is_word k \<and> normal_value v"
| "wf_command (CmdGet k) \<longleftrightarrow> is_word k"
| "wf_command (CmdDel k) \<longleftrightarrow> is_word k"
| "wf_command _ \<longleftrightarrow> True"

fun print_command :: "command \<Rightarrow> ustring" where
  "print_command (CmdSet k v) = kw_SET @ [0x20] @ k @ [0x20] @ v"
| "print_command (CmdGet k) = kw_GET @ [0x20] @ k"
| "print_command (CmdDel k) = kw_DEL @ [0x20] @ k"
| "print_command CmdCompact = kw_COMPACT"
| "print_command CmdPing = kw_PING"
| "print_command CmdUnknown = ascii ''?''"

lemma keyword_words: "is_word kw_SET" "is_word kw_GET" "is_word kw_DEL" "is_word kw_PING" "is_word kw_COMPACT"
  "is_word (ascii ''?'')"
  by (simp_all add: is_word_def kw_defs ascii_def is_whitespace_def)

lemma keyword_upper [simp]: "to_uppercase kw_SET = kw_SET" "to_uppercase kw_GET = kw_GET"
  "to_uppercase kw_DEL = kw_DEL" "to_uppercase kw_PING = kw_PING" "to_uppercase kw_COMPACT = kw_COMPACT"
  "to_uppercase (ascii ''?'') = ascii ''?''"
  by (simp_all add: to_uppercase_def upper_char_def kw_defs ascii_def)

lemma keywords_differ [simp]: "kw_GET \<noteq> kw_SET" "kw_DEL \<noteq> kw_SET" "kw_DEL \<noteq> kw_GET" "kw_PING \<noteq> kw_SET"
  "kw_PING \<noteq> kw_GET" "kw_PING \<noteq> kw_DEL" "kw_COMPACT \<noteq> kw_SET" "kw_COMPACT \<noteq> kw_GET" "kw_COMPACT \<noteq> kw_DEL"
  "kw_COMPACT \<noteq> kw_PING" "ascii ''?'' \<noteq> kw_SET" "ascii ''?'' \<noteq> kw_GET" "ascii ''?'' \<noteq> kw_DEL"
  "ascii ''?'' \<noteq> kw_PING" "ascii ''?'' \<noteq> kw_COMPACT"
  by (simp_all add: kw_defs ascii_def)

lemma is_whitespace_space [simp]: "is_whitespace 0x20" "is_whitespace 10" "is_whitespace 13"
  by (simp_all add: is_whitespace_def)

lemma parse_split: "parse input = (case split_whitespace input of [] \<Rightarrow> None | kw # args \<Rightarrow>
    Some (if to_uppercase kw = kw_SET \<and> 2 \<le> length args then CmdSet (args ! 0) (join [0x20] (drop 1 args))
          else if to_uppercase kw = kw_GET \<and> length args = 1 then CmdGet (args ! 0)
          else if to_uppercase kw = kw_DEL \<and> length args = 1 then CmdDel (args ! 0)
          else if to_uppercase kw = kw_PING then CmdPing
          else if to_uppercase kw = kw_COMPACT then CmdCompact
          else CmdUnknown))"
  by (cases "split_whitespace input") (simp_all add: parse_def Let_def split_trim numeral_2_eq_2 numeral_3_eq_3)

text \<open>
  C30: the parser panics exactly on a message with no word in it (empty, or white space only);
  everything else is a command.
\<close>

theorem parse_panics_iff_blank:
  "parse input = None \<longleftrightarrow> list_all is_whitespace input"
  by (simp add: parse_split list_all_iff flip: split_whitespace_Nil_iff split: list.splits)

lemma normal_value_join: "ws \<noteq> [] \<Longrightarrow> \<forall>w \<in> set ws. is_word w \<Longrightarrow> normal_value (join [0x20] ws)"
  by (simp add: normal_value_def split_join)

lemma parse_wf:
  assumes "parse input = Some cmd"
  shows "wf_command cmd"
proof -
  have words: "is_word w" if "w \<in> set (split_whitespace input)" for w
    using that by (rule split_whitespace_words)
  obtain kw args where split: "split_whitespace input = kw # args"
    using assms by (cases "split_whitespace input") (auto simp: parse_split)
  have "is_word (args ! 0)" if "args \<noteq> []"
    using that words by (simp add: split)
  moreover have "normal_value (join [0x20] (drop 1 args))" if "2 \<le> length args"
    using that words by (intro normal_value_join) (auto simp: split dest: in_set_dropD)
  ultimately show ?thesis
    using assms by (cases args) (auto simp: parse_split split split: if_splits)
qed

lemma split_set: "is_word k \<Longrightarrow> split_whitespace (kw_SET @ 0x20 # k @ 0x20 # v) = kw_SET # k # split_whitespace v"
  by (simp add: split_whitespace_word_space keyword_words)

lemma parse_print_command: "wf_command cmd \<Longrightarrow> parse (print_command cmd) = Some cmd"
proof (cases cmd)
  case (CmdSet k v)
  assume "wf_command cmd"
  with CmdSet have "is_word k" "split_whitespace v \<noteq> []" "join [0x20] (split_whitespace v) = v"
    by (simp_all add: normal_value_def)
  with CmdSet show ?thesis
    by (simp add: parse_split split_set Suc_le_eq)
qed (simp_all add: parse_split split_whitespace_word_space split_whitespace_word keyword_words)

text \<open>
  C18: commands survive printing. Every command the parser returns is well-formed (its key is
  one word, its value is words with single spaces), and printing a well-formed command in the
  syntax of the protocol and parsing it gives it back; so parsing is idempotent up to syntax.
\<close>

theorem parse_print_roundtrip:
  "(wf_command cmd \<longrightarrow> parse (print_command cmd) = Some cmd) \<and>
   (parse input = Some cmd \<longrightarrow> wf_command cmd \<and> parse (print_command cmd) = parse input)"
  using parse_print_command parse_wf by auto

definition sample_input :: ustring where
  "sample_input = ascii '' set  k1   a  b ''"

lemma sample_words: "split_whitespace sample_input = map ascii [''set'', ''k1'', ''a'', ''b'']"
  by (simp add: sample_input_def split_whitespace_def ascii_def is_whitespace_def)

lemma parse_sample: "parse sample_input = Some (CmdSet (ascii ''k1'') (ascii ''a b''))"
  unfolding parse_split sample_words
  by (simp add: to_uppercase_def upper_char_def ascii_def kw_SET_def)

theorem parse_print_roundtrip_witness:
  "parse (print_command (CmdSet (ascii ''k1'') (ascii ''a b''))) = Some (CmdSet (ascii ''k1'') (ascii ''a b''))"
  using parse_print_roundtrip [of "CmdSet (ascii ''k1'') (ascii ''a b'')" sample_input]
  by (simp only: parse_sample simp_thms)

text \<open>
  C31: one read is one command, whatever it holds. A second command that arrives in the same
  read as a \<^verbatim>\<open>SET\<close> becomes part of the stored value, and is not executed.
\<close>

theorem pipelined_set_swallows:
  assumes "wf_command (CmdSet k v)" and "wf_command cmd"
  shows "parse (print_command (CmdSet k v) @ [10] @ print_command cmd @ [10]) =
     Some (CmdSet k (v @ [0x20] @ join [0x20] (split_whitespace (print_command cmd))))"
proof -
  obtain w ws where v: "split_whitespace v = w # ws" "join [0x20] (w # ws) = v" and k: "is_word k"
    using assms(1) by (cases "split_whitespace v") (auto simp: normal_value_def)
  have words: "\<forall>x \<in> set (w # ws). is_word x"
    using split_whitespace_words v(1) by metis
  have join_append: "join [0x20] (xs @ ys) = join [0x20] xs @ [0x20] @ join [0x20] ys"
    if "xs \<noteq> []" "ys \<noteq> []" for xs ys
    using that by (induction xs rule: induct_list012) (auto simp: neq_Nil_conv)
  have split_append: "split_whitespace (join [0x20] xs @ 10 # t) = xs @ split_whitespace t"
    if "\<forall>x \<in> set xs. is_word x" "xs \<noteq> []" for xs t
    using that by (induction xs rule: induct_list012)
      (simp_all add: split_whitespace_word_space)
  let ?more = "split_whitespace (print_command cmd)"
  have "?more \<noteq> []"
    using parse_print_command [OF assms(2)] by (auto simp: parse_split)
  moreover have "split_whitespace (print_command cmd @ [10]) = ?more"
    unfolding split_whitespace_def by (rule words_from_trailing) simp
  ultimately have "split_whitespace (v @ 10 # print_command cmd @ [10]) = (w # ws) @ ?more"
    using split_append [OF words] v(2) by simp
  with \<open>?more \<noteq> []\<close> v k join_append [of "w # ws" ?more] show ?thesis
    by (simp add: parse_split split_whitespace_word_space keyword_words Suc_le_eq)
qed

theorem pipelined_set_swallows_witness:
  "parse (ascii ''SET a b'' @ [10] @ ascii ''GET a'' @ [10]) = Some (CmdSet (ascii ''a'') (ascii ''b GET a''))"
  using pipelined_set_swallows [of "ascii ''a''" "ascii ''b''" "CmdGet (ascii ''a'')"]
  by (simp add: ascii_def kw_defs is_word_def normal_value_def split_whitespace_def is_whitespace_def)

end
