(* ===== verification/Chronos_Server.thy ===== *)
theory Chronos_Server
  imports Chronos_Engine Chronos_Parser
begin

text \<open>
  The TCP front end of Chronos: \<^verbatim>\<open>chronos/src/server.rs\<close>. A command is executed on a key-value
  store; what the server relies on of the store is the locale \<open>kv_store\<close>, which the engine
  provides. One read of at most 512 bytes is one message, decoded lossily, parsed and answered;
  the store is behind a read-write lock, so that the commands of all clients are serialised.
\<close>

declare split_paired_Ex [simp del]

section \<open>Executing a command\<close>

definition TOMBSTONE :: ustring where "TOMBSTONE = ascii ''__TOMBSTONE__''"

type_synonym 's set_fun = "ustring \<Rightarrow> ustring \<Rightarrow> 's \<Rightarrow> (io_error + unit) \<times> 's"
type_synonym 's get_fun = "ustring \<Rightarrow> 's \<Rightarrow> ustring option"
type_synonym 's compact_fun = "'s \<Rightarrow> (io_error + unit) \<times> 's"

definition reply :: "string \<Rightarrow> ustring" where "reply s = ascii s @ [10]"

definition err_reply :: "string \<Rightarrow> io_error \<Rightarrow> ustring" where
  "err_reply s e = ascii s @ [0x20] @ e @ [10]"

fun exec_with :: "'s set_fun \<Rightarrow> 's get_fun \<Rightarrow> 's compact_fun \<Rightarrow> command \<Rightarrow> 's \<Rightarrow> ustring \<times> 's" where
  "exec_with kset kget kcompact (CmdSet key value) s =
     (case kset key value s of (Inr _, s') \<Rightarrow> (reply ''OK'', s') | (Inl e, s') \<Rightarrow> (err_reply ''ERR'' e, s'))"
| "exec_with kset kget kcompact (CmdDel key) s =
     (case kset key TOMBSTONE s of
        (Inr _, s') \<Rightarrow> (reply ''OK_DELETED'', s') | (Inl e, s') \<Rightarrow> (err_reply ''ERR'' e, s'))"
| "exec_with kset kget kcompact (CmdGet key) s =
     ((case kget key s of
         Some v \<Rightarrow> if v = TOMBSTONE then reply ''NULL'' else v @ [10]
       | None \<Rightarrow> reply ''NULL''), s)"
| "exec_with kset kget kcompact CmdCompact s =
     (case kcompact s of
        (Inr _, s') \<Rightarrow> (reply ''OK_COMPACTED'', s') | (Inl e, s') \<Rightarrow> (err_reply ''ERR_COMPACT'' e, s'))"
| "exec_with kset kget kcompact CmdPing s = (reply ''PONG'', s)"
| "exec_with kset kget kcompact CmdUnknown s = (reply ''ERR_UNKNOWN_COMMAND'', s)"

section \<open>The abstract store\<close>

text \<open>What a client sees: a partial map, in which a deleted key is absent.\<close>

definition visible :: "(ustring \<rightharpoonup> ustring) \<Rightarrow> (ustring \<rightharpoonup> ustring)" where
  "visible m k = (case m k of Some v \<Rightarrow> if v = TOMBSTONE then None else Some v | None \<Rightarrow> None)"

fun spec_exec :: "command \<Rightarrow> (ustring \<rightharpoonup> ustring) \<Rightarrow> ustring \<times> (ustring \<rightharpoonup> ustring)" where
  "spec_exec (CmdSet key value) m = (reply ''OK'', if value = TOMBSTONE then m(key := None) else m(key \<mapsto> value))"
| "spec_exec (CmdDel key) m = (reply ''OK_DELETED'', m(key := None))"
| "spec_exec (CmdGet key) m = ((case m key of Some v \<Rightarrow> v @ [10] | None \<Rightarrow> reply ''NULL''), m)"
| "spec_exec CmdCompact m = (reply ''OK_COMPACTED'', m)"
| "spec_exec CmdPing m = (reply ''PONG'', m)"
| "spec_exec CmdUnknown m = (reply ''ERR_UNKNOWN_COMMAND'', m)"

fun keeps :: "(ustring \<times> ustring \<Rightarrow> bool) \<Rightarrow> command \<Rightarrow> bool" where
  "keeps ok (CmdSet k v) \<longleftrightarrow> ok (k, v)"
| "keeps ok (CmdDel k) \<longleftrightarrow> ok (k, TOMBSTONE)"
| "keeps ok _ \<longleftrightarrow> True"

lemma visible_upd: "visible (m(k \<mapsto> v)) = (if v = TOMBSTONE then (visible m)(k := None) else (visible m)(k \<mapsto> v))"
  by (auto simp: visible_def fun_eq_iff)

lemma visible_get: "(case m k of Some v \<Rightarrow> if v = TOMBSTONE then reply ''NULL'' else v @ [10] | None \<Rightarrow> reply ''NULL'')
    = (case visible m k of Some v \<Rightarrow> v @ [10] | None \<Rightarrow> reply ''NULL'')"
  by (simp add: visible_def split: option.split)

locale kv_store =
  fixes kset :: "'s set_fun"
    and kget :: "'s get_fun"
    and kcompact :: "'s compact_fun"
    and holds :: "'s \<Rightarrow> ustring \<rightharpoonup> ustring"
    and inv :: "'s \<Rightarrow> bool"
    and ok :: "ustring \<times> ustring \<Rightarrow> bool"
  assumes get_holds: "inv s \<Longrightarrow> kget k s = holds s k"
    and set_holds: "inv s \<Longrightarrow> ok (k, v) \<Longrightarrow>
      \<exists>s'. kset k v s = (Inr (), s') \<and> holds s' = (holds s)(k \<mapsto> v) \<and> inv s'"
    and compact_holds: "inv s \<Longrightarrow> \<exists>s'. kcompact s = (Inr (), s') \<and> holds s' = holds s \<and> inv s'"
begin

lemma exec_refines:
  assumes "inv s" and "keeps ok cmd"
  shows "\<exists>s'. exec_with kset kget kcompact cmd s = (fst (spec_exec cmd (visible (holds s))), s') \<and>
    visible (holds s') = snd (spec_exec cmd (visible (holds s))) \<and> inv s'"
proof (cases cmd)
  case (CmdSet k v)
  with set_holds [OF assms(1), of k v] assms(2) show ?thesis by (auto simp: visible_upd)
next
  case (CmdDel k)
  with set_holds [OF assms(1), of k TOMBSTONE] assms(2) show ?thesis by (auto simp: visible_upd)
next
  case CmdCompact
  with compact_holds [OF assms(1)] show ?thesis by auto
qed (use assms get_holds visible_get in auto)

lemma exec_sequence:
  "inv s \<Longrightarrow> list_all (keeps ok) cmds \<Longrightarrow>
   inv (fold (\<lambda>cmd s. snd (exec_with kset kget kcompact cmd s)) cmds s) \<and>
   visible (holds (fold (\<lambda>cmd s. snd (exec_with kset kget kcompact cmd s)) cmds s)) =
     fold (\<lambda>cmd m. snd (spec_exec cmd m)) cmds (visible (holds s))"
proof (induction cmds arbitrary: s)
  case (Cons cmd cmds)
  from exec_refines [of s cmd] Cons.prems obtain s' where
    "snd (exec_with kset kget kcompact cmd s) = s'" "inv s'" "visible (holds s') = snd (spec_exec cmd (visible (holds s)))"
    by auto
  with Cons.IH [of s'] Cons.prems show ?case by simp
qed simp

end

type_synonym db = "engine \<times> file_system"

definition db_get :: "db get_fun" where
  "db_get key st = Engine_get key (fst st)"

text \<open>How the file system behaves during one command.\<close>

record exec_env =
  set_out :: io_outcome
  compact_out :: compact_outcome

definition calm :: exec_env where
  "calm = \<lparr>set_out = IoOk, compact_out = CompactOk\<rparr>"

definition db_set :: "exec_env \<Rightarrow> db set_fun" where
  "db_set env key value st = Engine_set key value (set_out env) st"

definition exec_command :: "exec_env \<Rightarrow> command \<Rightarrow> db \<Rightarrow> ustring \<times> db" where
  "exec_command env = exec_with (db_set env) db_get (Engine_compact (compact_out env))"

interpretation engine: kv_store "db_set calm" db_get "Engine_compact CompactOk" contents db_inv storable
proof unfold_locales
  fix s k v
  assume "db_inv s" and "storable (k, v)"
  then show "\<exists>s'. db_set calm k v s = (Inr (), s') \<and> contents s' = (contents s)(k \<mapsto> v) \<and> db_inv s'"
    using Engine_set_ok by (simp add: db_set_def calm_def)
next
  fix s k
  show "db_get k s = contents s k"
    by (simp add: db_get_def Engine_get_def contents_def)
qed (rule Engine_compact_ok)

lemma exec_command_calm: "exec_command calm = exec_with (db_set calm) db_get (Engine_compact CompactOk)"
  by (simp add: exec_command_def calm_def)

section \<open>Clients\<close>

datatype read_result =
    ReadErr
  | ReadBytes bytes \<comment> \<open>what has arrived; none: the client closed the connection\<close>

datatype client_exit = Disconnected | ReadFailed | WriteFailed | Panicked

definition READ_BUFFER :: nat where "READ_BUFFER = 512"

text \<open>
  One turn of the loop of \<^verbatim>\<open>handle_client\<close>: the response written (if any), whether the thread
  ends, and the store after it. The last argument but one says whether the write succeeds.
\<close>

definition serve_read ::
    "exec_env \<Rightarrow> read_result \<Rightarrow> bool \<Rightarrow> db \<Rightarrow> ustring list \<times> client_exit option \<times> db" where
  "serve_read env rd write_ok st =
     (case rd of
        ReadErr \<Rightarrow> ([], Some ReadFailed, st)
      | ReadBytes avail \<Rightarrow>
          (let buffer = take READ_BUFFER avail in
           if length buffer = 0 then ([], Some Disconnected, st)
           else
             (let raw_msg = from_utf8_lossy buffer in
              case parse raw_msg of
                None \<Rightarrow> ([], Some Panicked, st)
              | Some command \<Rightarrow>
                  (case exec_command env command st of
                     (response, st') \<Rightarrow>
                       if write_ok then ([response], None, st') else ([], Some WriteFailed, st')))))"

fun handle_client ::
    "(exec_env \<times> read_result \<times> bool) list \<Rightarrow> db \<Rightarrow> ustring list \<times> client_exit option \<times> db" where
  "handle_client [] st = ([], None, st)"
| "handle_client ((env, rd, write_ok) # turns) st =
     (case serve_read env rd write_ok st of
        (rs, Some ex, st') \<Rightarrow> (rs, Some ex, st')
      | (rs, None, st') \<Rightarrow> (case handle_client turns st' of (rs', ex, st'') \<Rightarrow> (rs @ rs', ex, st'')))"

text \<open>\<^verbatim>\<open>ctrl-c\<close>: the handler compacts under the write lock, and the process ends.\<close>

definition shutdown_handler :: "exec_env \<Rightarrow> db \<Rightarrow> db" where
  "shutdown_handler env st = snd (Engine_compact (compact_out env) st)"

text \<open>
  The process: whether it runs, the exit (if any) of every client thread so far, and the shared
  store. The accept loop runs on the main thread: when a client is gone before its address is asked
  for, \<^verbatim>\<open>stream.peer_addr().unwrap()\<close> panics there and ends the process with all its threads.
\<close>

record server =
  sv_up :: bool
  sv_clients :: "client_exit option list"
  sv_db :: db

datatype server_event =
    Connect
  | ConnectFailed
  | ConnectGone
  | Turn nat exec_env read_result bool
  | CtrlC exec_env

fun server_step :: "server_event \<Rightarrow> server \<Rightarrow> (nat \<times> ustring) list \<times> server" where
  "server_step Connect s = ([], if sv_up s then s\<lparr>sv_clients := sv_clients s @ [None]\<rparr> else s)"
| "server_step ConnectFailed s = ([], s)"
| "server_step ConnectGone s = ([], s\<lparr>sv_up := False\<rparr>)"
| "server_step (Turn i env rd write_ok) s =
     (if sv_up s \<and> i < length (sv_clients s) \<and> sv_clients s ! i = None
      then (case serve_read env rd write_ok (sv_db s) of
              (rs, ex, st) \<Rightarrow> (map (Pair i) rs, s\<lparr>sv_clients := (sv_clients s)[i := ex], sv_db := st\<rparr>))
      else ([], s))"
| "server_step (CtrlC env) s =
     ([], if sv_up s then s\<lparr>sv_up := False, sv_db := shutdown_handler env (sv_db s)\<rparr> else s)"

fun server_run :: "server_event list \<Rightarrow> server \<Rightarrow> (nat \<times> ustring) list \<times> server" where
  "server_run [] s = ([], s)"
| "server_run (e # es) s =
     (case server_step e s of (rs, s1) \<Rightarrow> (case server_run es s1 of (rs', s2) \<Rightarrow> (rs @ rs', s2)))"

text \<open>\<^verbatim>\<open>main\<close>: open the database, install the handler, bind the port; each of them may fail, and panics.\<close>

datatype start_panic = OpenFailed io_error | HandlerFailed | BindFailed

definition chronos_main ::
    "io_outcome \<Rightarrow> bool \<Rightarrow> bool \<Rightarrow> (kv \<Rightarrow> kv) \<Rightarrow> file_system \<Rightarrow> start_panic + server" where
  "chronos_main out handler_ok bind_ok order fs =
     (case Engine_new DB_PATH out order fs of
        (Inl e, _) \<Rightarrow> Inl (OpenFailed e)
      | (Inr en, fs') \<Rightarrow>
          if \<not> handler_ok then Inl HandlerFailed
          else if \<not> bind_ok then Inl BindFailed
          else Inr \<lparr>sv_up = True, sv_clients = [], sv_db = (en, fs')\<rparr>)"

lemma server_run_append:
  "server_run (es @ fs) s =
     (case server_run es s of (rs, s1) \<Rightarrow> (case server_run fs s1 of (rs', s2) \<Rightarrow> (rs @ rs', s2)))"
  by (induction es arbitrary: s) (auto split: prod.splits)

section \<open>What reaches the store\<close>

lemma decode_char_scalar: "utf8_decode_char bs = (Some c, n) \<Longrightarrow> is_scalar c"
proof -
  assume d: "utf8_decode_char bs = (Some c, n)"
  define b0 b1 b2 b3 where "b0 = byte_at bs 0" and "b1 = byte_at bs 1" and "b2 = byte_at bs 2" and "b3 = byte_at bs 3"
  have low: "b1 mod 64 < 64" "b2 mod 64 < 64" "b3 mod 64 < 64" by simp_all
  from d consider "utf8_char_width b0 = 1" "c = b0"
    | "utf8_char_width b0 = 2" "c = b0 mod 32 * 64 + b1 mod 64"
    | "utf8_char_width b0 = 3" "second_ok_3 b0 b1" "c = b0 mod 16 * 4096 + b1 mod 64 * 64 + b2 mod 64"
    | "utf8_char_width b0 = 4" "second_ok_4 b0 b1" "c = b0 mod 8 * 262144 + b1 mod 64 * 4096 + b2 mod 64 * 64 + b3 mod 64"
    by (auto simp: utf8_decode_char_def Let_def b0_def b1_def b2_def b3_def split: if_splits)
  then show "is_scalar c"
  proof cases
    case 1
    then show ?thesis by (simp add: utf8_char_width_def is_scalar_def split: if_splits)
  next
    case 2
    have "b0 mod 32 < 32" by simp
    with 2 low have "c < 2048" by linarith
    then show ?thesis by (simp add: is_scalar_def)
  next
    case 3
    then have r: "224 \<le> b0" "b0 < 240"
      by (simp_all add: utf8_char_width_def split: if_splits)
    then have m: "b0 mod 16 = b0 - 224"
      using digit_mods(2) [of "b0 - 224"] by simp
    have "b1 mod 64 < 32" if "b0 = 237"
      using 3(2) that digit_mods(4) [of "b1 - 128"] by (auto simp: second_ok_3_def)
    with 3(3) m r low show ?thesis
      unfolding is_scalar_def by (cases "b0 = 237"; cases "b0 < 237") linarith+
  next
    case 4
    then have r: "240 \<le> b0" "b0 < 245"
      by (simp_all add: utf8_char_width_def split: if_splits)
    then have m: "b0 mod 8 = b0 - 240"
      using digit_mods(3) [of "b0 - 240"] by simp
    have t: "b1 mod 64 < 16" if "b0 = 244"
      using 4(2) that digit_mods(4) [of "b1 - 128"] by (auto simp: second_ok_4_def)
    have f: "16 \<le> b1 mod 64" if "b0 = 240"
      using 4(2) that digit_mods(4) [of "b1 - 128"] by (auto simp: second_ok_4_def)
    have "c < 1114112"
      using 4(3) m r low t by (cases "b0 = 244") linarith+
    moreover have "57344 \<le> c"
      using 4(3) m r low f by (cases "b0 = 240") linarith+
    ultimately show ?thesis by (simp add: is_scalar_def)
  qed
qed

lemma lossy_scalars: "list_all is_scalar (from_utf8_lossy bs)"
proof -
  have "Some c \<in> set (utf8_chunks bs) \<Longrightarrow> is_scalar c" for c
    by (induction bs rule: utf8_chunks.induct) (auto dest: decode_char_scalar [OF sym] split: prod.splits)
  then show ?thesis
    by (auto simp: from_utf8_lossy_def list_all_iff is_scalar_def split: option.splits)
qed

lemma words_from_chars: "w' \<in> set (words_from w t) \<Longrightarrow> set w' \<subseteq> set w \<union> set t"
  by (induction w t rule: words_from.induct) (auto split: if_splits)

lemma split_whitespace_chars: "w \<in> set (split_whitespace t) \<Longrightarrow> set w \<subseteq> set t"
  using words_from_chars [of w "[]" t] by (auto simp: split_whitespace_def)

lemma set_join: "set (join sep ts) \<subseteq> set sep \<union> \<Union> (set ` set ts)"
  by (induction sep ts rule: join.induct) auto

lemma last_join: "ws \<noteq> [] \<Longrightarrow> \<forall>w \<in> set ws. w \<noteq> [] \<Longrightarrow> last (join sep ws) = last (last ws) \<and> join sep ws \<noteq> []"
  by (induction sep ws rule: join.induct) auto

text \<open>A value the parser builds from decoded text can be written and read back.\<close>

lemma normal_value_storable:
  assumes "normal_value v" and "is_word k" and "list_all is_scalar v" and "list_all is_scalar k" and "comma \<notin> set k"
  shows "storable (k, v)"
proof -
  let ?ws = "split_whitespace v"
  have ws: "?ws \<noteq> []" "join [0x20] ?ws = v"
    using assms(1) by (simp_all add: normal_value_def)
  have words: "is_word w" if "w \<in> set ?ws" for w
    using that by (rule split_whitespace_words)
  have "10 \<notin> set w" if "w \<in> set ?ws" for w
    using words [OF that] is_whitespace_space(2) by (auto simp: is_word_def)
  then have "10 \<notin> set (join [0x20] ?ws)"
    using set_join [of "[0x20]" ?ws] by auto
  moreover have "last (join [0x20] ?ws) = last (last ?ws)"
    using last_join [OF ws(1)] words by (auto simp: is_word_def)
  moreover have "last (last ?ws) \<noteq> 13"
    using words [OF last_in_set [OF ws(1)]] unfolding is_word_def
    by (metis is_whitespace_space(3) last_in_set)
  moreover have "10 \<notin> set k"
    using assms(2) by (auto simp: is_word_def)
  ultimately show ?thesis
    using assms(3-5) ws(2) by (simp add: storable_def)
qed

fun comma_free :: "command \<Rightarrow> bool" where
  "comma_free (CmdSet k v) \<longleftrightarrow> comma \<notin> set k"
| "comma_free (CmdDel k) \<longleftrightarrow> comma \<notin> set k"
| "comma_free _ \<longleftrightarrow> True"

lemma normal_tombstone: "normal_value TOMBSTONE" "list_all is_scalar TOMBSTONE"
  by (simp_all add: normal_value_def TOMBSTONE_def ascii_def split_whitespace_def is_whitespace_def is_scalar_def)

lemma parse_scalars:
  assumes "parse t = Some cmd" and "list_all is_scalar t"
  shows "case cmd of CmdSet k v \<Rightarrow> list_all is_scalar k \<and> list_all is_scalar v | CmdDel k \<Rightarrow> list_all is_scalar k | _ \<Rightarrow> True"
proof -
  obtain kw args where split: "split_whitespace t = kw # args"
    using assms(1) by (cases "split_whitespace t") (auto simp: parse_split)
  have sc: "list_all is_scalar w" if "w \<in> set args" for w
    using split_whitespace_chars [of w t] that assms(2) by (auto simp: split list_all_iff)
  have "list_all is_scalar (join [0x20] (drop (Suc 0) args))"
    using set_join [of "[0x20]" "drop (Suc 0) args"] sc in_set_dropD [of _ "Suc 0" args]
    by (fastforce simp: list_all_iff is_scalar_def)
  moreover have "list_all is_scalar (args ! 0)" if "args \<noteq> []"
    using that sc by (cases args) auto
  ultimately show ?thesis
    using assms(1) by (cases args) (auto simp: parse_split split split: if_splits)
qed

lemma parsed_keeps:
  assumes "parse (from_utf8_lossy bs) = Some cmd" and "comma_free cmd"
  shows "keeps storable cmd"
  using parse_wf [OF assms(1)] parse_scalars [OF assms(1) lossy_scalars] assms(2) normal_tombstone
  by (cases cmd) (auto intro!: normal_value_storable)

section \<open>The server against the abstract store\<close>

record spec_server =
  ss_up :: bool
  ss_clients :: "client_exit option list"
  ss_map :: "ustring \<rightharpoonup> ustring"

definition spec_read ::
    "read_result \<Rightarrow> bool \<Rightarrow> (ustring \<rightharpoonup> ustring) \<Rightarrow> ustring list \<times> client_exit option \<times> (ustring \<rightharpoonup> ustring)" where
  "spec_read rd write_ok m =
     (case rd of
        ReadErr \<Rightarrow> ([], Some ReadFailed, m)
      | ReadBytes avail \<Rightarrow>
          if take READ_BUFFER avail = [] then ([], Some Disconnected, m)
          else (case parse (from_utf8_lossy (take READ_BUFFER avail)) of
                  None \<Rightarrow> ([], Some Panicked, m)
                | Some cmd \<Rightarrow>
                    if write_ok then ([fst (spec_exec cmd m)], None, snd (spec_exec cmd m))
                    else ([], Some WriteFailed, snd (spec_exec cmd m))))"

fun spec_server_step :: "server_event \<Rightarrow> spec_server \<Rightarrow> (nat \<times> ustring) list \<times> spec_server" where
  "spec_server_step Connect s = ([], if ss_up s then s\<lparr>ss_clients := ss_clients s @ [None]\<rparr> else s)"
| "spec_server_step ConnectFailed s = ([], s)"
| "spec_server_step ConnectGone s = ([], s\<lparr>ss_up := False\<rparr>)"
| "spec_server_step (Turn i env rd write_ok) s =
     (if ss_up s \<and> i < length (ss_clients s) \<and> ss_clients s ! i = None
      then (case spec_read rd write_ok (ss_map s) of
              (rs, ex, m) \<Rightarrow> (map (Pair i) rs, s\<lparr>ss_clients := (ss_clients s)[i := ex], ss_map := m\<rparr>))
      else ([], s))"
| "spec_server_step (CtrlC env) s = ([], s\<lparr>ss_up := False\<rparr>)"

fun spec_server_run :: "server_event list \<Rightarrow> spec_server \<Rightarrow> (nat \<times> ustring) list \<times> spec_server" where
  "spec_server_run [] s = ([], s)"
| "spec_server_run (e # es) s =
     (case spec_server_step e s of (rs, s1) \<Rightarrow> (case spec_server_run es s1 of (rs', s2) \<Rightarrow> (rs @ rs', s2)))"

definition spec_start :: spec_server where
  "spec_start = \<lparr>ss_up = True, ss_clients = [], ss_map = Map.empty\<rparr>"

definition server_abs :: "server \<Rightarrow> spec_server" where
  "server_abs s = \<lparr>ss_up = sv_up s, ss_clients = sv_clients s, ss_map = visible (contents (sv_db s))\<rparr>"

text \<open>
  The file system behaves (a compaction on the way out may fail before its last step), and no key
  that is set or deleted has a comma.
\<close>

fun turn_ok :: "server_event \<Rightarrow> bool" where
  "turn_ok (Turn i env rd write_ok) \<longleftrightarrow> env = calm \<and>
     (case rd of ReadErr \<Rightarrow> True
      | ReadBytes avail \<Rightarrow> (case parse (from_utf8_lossy (take READ_BUFFER avail)) of None \<Rightarrow> True | Some cmd \<Rightarrow> comma_free cmd))"
| "turn_ok (CtrlC env) \<longleftrightarrow> (case compact_out env of ReopenFails e \<Rightarrow> False | _ \<Rightarrow> True)"
| "turn_ok _ \<longleftrightarrow> True"

lemma serve_read_refines:
  assumes "db_inv st" and "turn_ok (Turn i calm rd write_ok)"
  shows "\<exists>st'. serve_read calm rd write_ok st = (fst (spec_read rd write_ok (visible (contents st))),
      fst (snd (spec_read rd write_ok (visible (contents st)))), st') \<and>
    visible (contents st') = snd (snd (spec_read rd write_ok (visible (contents st)))) \<and> db_inv st'"
proof (cases rd)
  case ReadErr
  with assms(1) show ?thesis by (simp add: serve_read_def spec_read_def)
next
  case (ReadBytes avail)
  let ?msg = "from_utf8_lossy (take READ_BUFFER avail)"
  show ?thesis
  proof (cases "take READ_BUFFER avail = [] \<or> parse ?msg = None")
    case True
    with ReadBytes assms(1) show ?thesis by (auto simp: serve_read_def spec_read_def Let_def simp del: split_paired_Ex)
  next
    case False
    then obtain cmd where cmd: "parse ?msg = Some cmd" by auto
    with assms(2) ReadBytes have "keeps storable cmd"
      by (intro parsed_keeps [OF cmd]) simp
    from engine.exec_refines [OF assms(1) this] obtain st' where
      "exec_command calm cmd st = (fst (spec_exec cmd (visible (contents st))), st')"
      "visible (contents st') = snd (spec_exec cmd (visible (contents st)))" "db_inv st'"
      unfolding exec_command_calm by blast
    with False ReadBytes cmd show ?thesis
      by (simp add: serve_read_def spec_read_def Let_def)
  qed
qed

lemma server_step_refines:
  assumes "db_inv (sv_db s)" and "turn_ok e"
  shows "\<exists>s'. server_step e s = (fst (spec_server_step e (server_abs s)), s') \<and>
    server_abs s' = snd (spec_server_step e (server_abs s)) \<and> db_inv (sv_db s')"
proof (cases e)
  case (Turn i env rd write_ok)
  with assms(2) have "env = calm" by simp
  with serve_read_refines [OF assms(1), of i rd write_ok] assms(2) Turn show ?thesis
    using assms(1) by (fastforce simp: server_abs_def case_prod_beta)
next
  case (CtrlC env)
  then have "\<forall>e. compact_out env \<noteq> ReopenFails e"
    using assms(2) by auto
  from compact_step [OF assms(1) this] show ?thesis
    using assms(1) CtrlC by (auto simp: server_abs_def shutdown_handler_def)
qed (use assms in \<open>simp_all add: server_abs_def\<close>)

lemma server_run_refines:
  "db_inv (sv_db s) \<Longrightarrow> list_all turn_ok es \<Longrightarrow>
   \<exists>s'. server_run es s = (fst (spec_server_run es (server_abs s)), s') \<and>
     server_abs s' = snd (spec_server_run es (server_abs s)) \<and> db_inv (sv_db s')"
proof (induction es arbitrary: s)
  case (Cons e es)
  obtain s1 where s1: "server_step e s = (fst (spec_server_step e (server_abs s)), s1)"
    "server_abs s1 = snd (spec_server_step e (server_abs s))" "db_inv (sv_db s1)"
    using server_step_refines [OF Cons.prems(1), of e] Cons.prems(2) by auto
  from Cons.IH [OF s1(3)] Cons.prems(2) show ?case
    by (auto simp: s1(1) s1(2) case_prod_beta)
qed simp

definition server_start :: "(kv \<Rightarrow> kv) \<Rightarrow> server" where
  "server_start order = \<lparr>sv_up = True, sv_clients = [], sv_db = engine_start order\<rparr>"

lemma chronos_main_start: "chronos_main IoOk True True order fs_empty = Inr (server_start order)"
  using Engine_new_empty [of order] by (simp add: chronos_main_def server_start_def)

lemma chronos_main_recovers:
  "\<exists>s. chronos_main IoOk True True order (snd st) = Inr s \<and> sv_up s \<and> contents (sv_db s) = recovered st"
  by (auto simp: chronos_main_def Engine_new_def open_append_def fs_create_def contents_def recovered_def rehydrate_def
      buf_lines_def split: option.splits)

lemma server_abs_start: "server_abs (server_start order) = spec_start"
  by (simp add: server_abs_def server_start_def spec_start_def contents_def engine_start_def visible_def fun_eq_iff)

text \<open>
  C5: the server is a key-value store. Whatever the clients send and however their turns
  interleave, every response is the one the abstract map gives for the commands in the order of
  the turns, a deleted key is absent, and a client that sends garbage, disconnects or crashes its
  thread leaves the others and the store alone; and what a restart would find is what the clients
  see. (The file system does not fail, and keys have no comma.)
\<close>

theorem server_is_kv_store:
  assumes "list_all turn_ok es" and "\<forall>m. mset (order m) = mset m"
  shows "\<exists>s. server_run es (server_start order) = (fst (spec_server_run es spec_start), s) \<and>
    server_abs s = snd (spec_server_run es spec_start) \<and>
    visible (recovered (sv_db s)) = ss_map (server_abs s)"
proof -
  have "db_inv (sv_db (server_start order))"
    using db_inv_start [OF assms(2)] by (simp add: server_start_def)
  from server_run_refines [OF this assms(1)] obtain s where
    "server_run es (server_start order) = (fst (spec_server_run es spec_start), s)"
    "server_abs s = snd (spec_server_run es spec_start)" "db_inv (sv_db s)"
    by (auto simp: server_abs_start)
  moreover from this(3) have "visible (recovered (sv_db s)) = ss_map (server_abs s)"
    by (simp add: db_inv_durable server_abs_def)
  ultimately show ?thesis by blast
qed

lemma comma_kA: "comma \<notin> set kA"
  by (simp add: kA_def ascii_def comma_def)

definition two_clients :: "server_event list" where
  "two_clients = [Connect, Connect, Turn 0 calm (ReadBytes (utf8_encode (ascii ''SET a 1 2''))) True,
     Turn 1 calm (ReadBytes [32, 10]) True, Turn 0 calm (ReadBytes (utf8_encode (ascii ''get a''))) True]"

lemma parse_two_clients:
  "parse (from_utf8_lossy (take READ_BUFFER (utf8_encode (ascii ''SET a 1 2'')))) = Some (CmdSet kA (ascii ''1 2''))"
  "parse (from_utf8_lossy (take READ_BUFFER [32, 10])) = None"
  "parse (from_utf8_lossy (take READ_BUFFER (utf8_encode (ascii ''get a'')))) = Some (CmdGet kA)"
proof -
  have short: "take READ_BUFFER bs = bs" if "length bs \<le> 512" for bs :: bytes
    using that by (simp add: READ_BUFFER_def)
  have "length (utf8_encode (ascii ''SET a 1 2'')) \<le> 512" "length (utf8_encode (ascii ''get a'')) \<le> 512"
    by (simp_all add: utf8_encode_def utf8_encode_char_def ascii_def)
  moreover have "list_all is_scalar (ascii ''SET a 1 2'')" "list_all is_scalar (ascii ''get a'')"
    by (simp_all add: ascii_def is_scalar_def)
  moreover have "utf8_encode [32, 10] = [32, 10]" "list_all is_scalar [32, 10]"
    by (simp_all add: utf8_encode_def utf8_encode_char_def is_scalar_def)
  then have "from_utf8_lossy [32, 10] = [32, 10]"
    by (metis utf8_lossy_encode)
  ultimately show
    "parse (from_utf8_lossy (take READ_BUFFER (utf8_encode (ascii ''SET a 1 2'')))) = Some (CmdSet kA (ascii ''1 2''))"
    "parse (from_utf8_lossy (take READ_BUFFER [32, 10])) = None"
    "parse (from_utf8_lossy (take READ_BUFFER (utf8_encode (ascii ''get a'')))) = Some (CmdGet kA)"
    by (simp_all add: short parse_split split_whitespace_def ascii_def is_whitespace_def kw_defs to_uppercase_def
        upper_char_def kA_def)
qed

theorem server_is_kv_store_witness:
  "\<exists>s. server_run two_clients (server_start rev_order) = ([(0, reply ''OK''), (0, ascii ''1 2'' @ [10])], s) \<and>
     sv_clients s = [None, Some Panicked]"
proof -
  have nonempty: "utf8_encode (ascii ''SET a 1 2'') \<noteq> []" "utf8_encode (ascii ''get a'') \<noteq> []" "0 < READ_BUFFER"
    by (simp_all add: READ_BUFFER_def utf8_encode_def utf8_encode_char_def ascii_def)
  have tomb: "ascii ''1 2'' \<noteq> TOMBSTONE"
    by (simp add: TOMBSTONE_def ascii_def)
  have "list_all turn_ok two_clients"
    by (simp add: two_clients_def parse_two_clients comma_kA)
  from server_is_kv_store [OF this rev_order] obtain s where
    s: "server_run two_clients (server_start rev_order) =
        (fst (spec_server_run two_clients spec_start), s)"
      "server_abs s = snd (spec_server_run two_clients spec_start)" by blast
  have "spec_server_run two_clients spec_start =
      ([(0, reply ''OK''), (0, ascii ''1 2'' @ [10])], \<lparr>ss_up = True, ss_clients = [None, Some Panicked], ss_map = [kA \<mapsto> ascii ''1 2'']\<rparr>)"
    by (simp add: two_clients_def spec_start_def spec_read_def parse_two_clients nonempty tomb)
  with s show ?thesis by (simp add: server_abs_def)
qed

section \<open>Stopping\<close>

lemma rename_content:
  assumes "fs_ok fs" and "fs_paths fs DB_PATH = Some (en_log_file en)" and "map_ok en"
  shows "recovered (snd (Engine_compact (ReopenFails e) (en, fs))) = contents (en, fs)"
proof -
  let ?content = "log_of (en_order en (en_map en))"
  obtain t fs1 where t: "open_truncate TEMP_PATH fs = (t, fs1)" "fs_data fs1 t = []"
      "fs_paths fs1 = (fs_paths fs)(TEMP_PATH \<mapsto> t)"
    using assms(1,2) by (rule open_truncate_temp)
  then have "snd (Engine_compact (ReopenFails e) (en, fs)) =
      (en, fs_rename TEMP_PATH DB_PATH (fs_append t ?content fs1))"
    by (simp add: Engine_compact_def log_of_def case_prod_beta)
  with t log_holds_recovers [OF log_holds_compacted [OF assms(3)]] show ?thesis
    by (simp add: recovered_def contents_def fs_rename_def fs_append_def)
qed

lemma shutdown_keeps:
  assumes "db_inv st"
  shows "recovered (shutdown_handler env st) = contents st"
proof (cases "\<exists>e. compact_out env = ReopenFails e")
  case True
  then show ?thesis
    using assms rename_content [of "snd st" "fst st"] by (auto simp: shutdown_handler_def db_inv_def)
next
  case False
  then show ?thesis
    using compact_step [OF assms, of "compact_out env"] db_inv_durable by (simp add: shutdown_handler_def)
qed

text \<open>
  C29: stopping the server by the interrupt loses nothing a client was told. Let the file system behave
  while the clients are served (no write and no compaction asked for by them fails), and no key they set or
  delete have a comma (\<open>turn_ok\<close>). Then, whatever they send and in whatever order, whatever the final
  compaction manages to do, even if it fails at any of its steps, and also when the process died before
  the interrupt: the next start that can open the file and its port serves the map the clients saw.
\<close>

theorem shutdown_preserves:
  assumes "list_all turn_ok es" and "\<forall>m. mset (order m) = mset m"
  shows "\<exists>s. chronos_main IoOk True True order' (snd (sv_db (snd (server_run (es @ [CtrlC env]) (server_start order))))) = Inr s \<and>
    ss_map (server_abs s) = ss_map (snd (spec_server_run es spec_start))"
proof -
  have "db_inv (sv_db (server_start order))"
    using db_inv_start [OF assms(2)] by (simp add: server_start_def)
  from server_run_refines [OF this assms(1)] obtain s where
    s: "server_run es (server_start order) = (fst (spec_server_run es spec_start), s)"
    and abs: "server_abs s = snd (spec_server_run es spec_start)" and inv: "db_inv (sv_db s)"
    by (auto simp: server_abs_start)
  define st where "st = sv_db (snd (server_run (es @ [CtrlC env]) (server_start order)))"
  have "st = (if sv_up s then shutdown_handler env (sv_db s) else sv_db s)"
    by (simp add: st_def server_run_append s case_prod_beta)
  then have "recovered st = contents (sv_db s)"
    using shutdown_keeps [OF inv] db_inv_durable [OF inv] by simp
  moreover obtain s' where "chronos_main IoOk True True order' (snd st) = Inr s'" "contents (sv_db s') = recovered st"
    using chronos_main_recovers by blast
  ultimately show ?thesis
    using abs [symmetric] by (simp add: server_abs_def st_def)
qed

theorem shutdown_preserves_witness:
  "\<exists>s. chronos_main IoOk True True rev_order (snd (sv_db (snd (server_run
       [Connect, Turn 0 calm (ReadBytes (utf8_encode (ascii ''SET a 1 2''))) True, CtrlC \<lparr>set_out = IoOk, compact_out = SyncFails []\<rparr>]
       (server_start rev_order))))) = Inr s \<and>
     ss_map (server_abs s) = [kA \<mapsto> ascii ''1 2'']"
proof -
  let ?es = "[Connect, Turn 0 calm (ReadBytes (utf8_encode (ascii ''SET a 1 2''))) True]"
  have nonempty: "utf8_encode (ascii ''SET a 1 2'') \<noteq> []" "READ_BUFFER \<noteq> 0"
    by (simp_all add: READ_BUFFER_def utf8_encode_def utf8_encode_char_def ascii_def)
  have tomb: "ascii ''1 2'' \<noteq> TOMBSTONE"
    by (simp add: TOMBSTONE_def ascii_def)
  have "list_all turn_ok ?es"
    by (simp add: parse_two_clients comma_kA)
  moreover have "ss_map (snd (spec_server_run ?es spec_start)) = [kA \<mapsto> ascii ''1 2'']"
    by (simp add: spec_start_def spec_read_def parse_two_clients nonempty tomb)
  ultimately show ?thesis
    using shutdown_preserves [OF _ rev_order, of ?es rev_order "\<lparr>set_out = IoOk, compact_out = SyncFails []\<rparr>"] by simp
qed

text \<open>
  What ends a client's thread. A turn panics exactly when bytes arrived that decode to white
  space only; it writes nothing then, and leaves the store as it is. The thread goes on after a
  turn exactly when something parsable arrived and the response was written: one response.
\<close>

lemma serve_read_outcome:
  "(fst (snd (serve_read env (ReadBytes avail) write_ok st)) = Some Panicked \<longleftrightarrow>
      avail \<noteq> [] \<and> list_all is_whitespace (from_utf8_lossy (take READ_BUFFER avail))) \<and>
   (fst (snd (serve_read env (ReadBytes avail) write_ok st)) = Some Panicked \<longrightarrow>
      serve_read env (ReadBytes avail) write_ok st = ([], Some Panicked, st)) \<and>
   (fst (snd (serve_read env (ReadBytes avail) write_ok st)) = None \<longleftrightarrow>
      length (fst (serve_read env (ReadBytes avail) write_ok st)) = 1)"
proof -
  have blank: "parse t = None \<longleftrightarrow> list_all is_whitespace t" for t
    by (simp add: parse_split list_all_iff flip: split_whitespace_Nil_iff split: list.splits)
  have "0 < READ_BUFFER"
    by (simp add: READ_BUFFER_def)
  then show ?thesis
    by (auto simp: serve_read_def Let_def simp flip: blank split: option.splits prod.splits)
qed

lemma serve_read_outcome_example:
  "serve_read calm (ReadBytes [32, 10]) True (engine_start rev_order) = ([], Some Panicked, engine_start rev_order)"
proof -
  have "utf8_encode [32, 10] = [32, 10]" "list_all is_scalar [32, 10]"
    by (simp_all add: utf8_encode_def utf8_encode_char_def is_scalar_def)
  then have "from_utf8_lossy [32, 10] = [32, 10]"
    by (metis utf8_lossy_encode)
  then have "list_all is_whitespace (from_utf8_lossy (take READ_BUFFER [32, 10]))"
    by (simp add: READ_BUFFER_def is_whitespace_def)
  with serve_read_outcome [of calm "[32, 10]" True "engine_start rev_order"] show ?thesis by simp
qed

end
