(* ===== verification/Answer_Bounds.thy ===== *)
theory Answer_Bounds
  imports Chronos_Server
begin

text \<open>
  How long an answer of Chronos can be. The server takes at most 512 bytes of a command; decoding
  them lossily can triple them, and a value that was set is answered with a line feed. So whatever
  the clients send, an answer fits in one buffer of the proxy in front.
\<close>

section \<open>Lengths in bytes\<close>

abbreviation blen :: "ustring \<Rightarrow> nat" where
  "blen t \<equiv> length (utf8_encode t)"

lemma blen_simps [simp]: "blen [] = 0" "blen (c # t) = length (utf8_encode_char c) + blen t" "blen (s @ t) = blen s + blen t"
  by (simp_all add: utf8_encode_def)

lemma char_length: "0 < length (utf8_encode_char c)" "c < 0x10000 \<Longrightarrow> length (utf8_encode_char c) \<le> 3"
    "c < 0x80 \<Longrightarrow> length (utf8_encode_char c) = 1" "length (utf8_encode_char c) \<le> 4"
  by (simp_all add: utf8_encode_char_def)

text \<open>A decoded character is no longer than three times the bytes it was read from.\<close>

lemma decoded_length:
  assumes "utf8_decode_char (b # bs) = (c, n)"
  shows "length (utf8_encode_char (case c of Some x \<Rightarrow> x | None \<Rightarrow> 0xFFFD)) \<le> 3 * (1 + length (take (n - 1) bs))"
proof -
  have more: "length (take (n - 1) bs) = min (length bs) (n - 1)" by simp
  consider (low) "length (utf8_encode_char (case c of Some x \<Rightarrow> x | None \<Rightarrow> 0xFFFD)) \<le> 3" | (high) "n = 4" "bs \<noteq> []"
  proof (cases "n = 4 \<and> bs \<noteq> []")
    case False
    have "(case c of Some x \<Rightarrow> x | None \<Rightarrow> 0xFFFD) < 0x10000"
    proof (cases c)
      case (Some x)
      have mods: "y mod 32 * 64 + z mod 64 < 0x10000" "y mod 16 * 4096 + z mod 64 * 64 + w mod 64 < 0x10000" for y z w :: nat
        using mod_less_divisor [of 32 y] mod_less_divisor [of 16 y] mod_less_divisor [of 64 z] mod_less_divisor [of 64 w]
        by linarith+
      have "unat b < 0x10000"
        using unsigned_less [of b, where 'a = nat] by simp
      with assms Some False mods show ?thesis
        by (cases bs) (auto simp: utf8_decode_char_def Let_def second_ok_4_def is_cont_def split: if_splits)
    qed simp
    then show ?thesis
      using that char_length(2) by blast
  qed (use that in blast)
  then show ?thesis
  proof cases
    case low
    then show ?thesis by simp
  next
    case high
    then have "1 \<le> length (take (n - 1) bs)"
      by (cases bs) simp_all
    moreover have "4 \<le> 3 * (1 + m)" if "1 \<le> m" for m :: nat
      using that by simp
    ultimately have "4 \<le> 3 * (1 + length (take (n - 1) bs))"
      by blast
    then show ?thesis
      by (rule order_trans [OF char_length(4)])
  qed
qed

lemma lossy_length: "blen (from_utf8_lossy bs) \<le> 3 * length bs"
proof (induction bs rule: utf8_chunks.induct)
  case (2 b bs)
  obtain c n where d: "utf8_decode_char (b # bs) = (c, n)" by fastforce
  have "blen (from_utf8_lossy (drop (n - 1) bs)) \<le> 3 * length (drop (n - 1) bs)"
    using 2 d by metis
  with decoded_length [OF d] show ?case
    by (simp add: from_utf8_lossy_def d)
qed (simp add: from_utf8_lossy_def)

text \<open>Words and the spaces between them are no longer than the text they come from.\<close>

definition words_length :: "ustring list \<Rightarrow> nat" where
  "words_length ws = sum_list (map (\<lambda>w. Suc (blen w)) ws)"

lemma words_length_simps [simp]: "words_length [] = 0" "words_length (w # ws) = Suc (blen w) + words_length ws"
  by (simp_all add: words_length_def)

lemma words_from_length: "words_length (words_from w t) \<le> Suc (blen w + blen t)"
proof (induction w t rule: words_from.induct)
  case (2 w c t)
  moreover obtain m where "length (utf8_encode_char c) = Suc m"
    using char_length(1) [of c] gr0_implies_Suc by blast
  ultimately show ?case
    by (cases "is_whitespace c"; cases "w = []") auto
qed simp

lemma words_length_drop: "words_length (drop n ws) \<le> words_length ws"
proof (induction ws arbitrary: n)
  case (Cons w ws)
  then show ?case by (cases n) (auto intro: le_SucI trans_le_add2)
qed simp

lemma join_length: "ws \<noteq> [] \<Longrightarrow> Suc (blen (join [0x20] ws)) = words_length ws"
  by (induction "[0x20] :: ustring" ws rule: join.induct) (auto simp: char_length(3))

section \<open>Answers\<close>

definition MAX_ANSWER :: nat where "MAX_ANSWER = 4096"

text \<open>The values in memory are short, and so are the error messages of the system.\<close>

definition small_store :: "db \<Rightarrow> bool" where
  "small_store st \<longleftrightarrow> (\<forall>v \<in> snd ` set (en_map (fst st)). blen v < MAX_ANSWER)"

fun io_text :: "io_outcome \<Rightarrow> io_error" where
  "io_text IoOk = []"
| "io_text (IoFail j e) = e"

fun compact_text :: "compact_outcome \<Rightarrow> io_error" where
  "compact_text CompactOk = []"
| "compact_text (OpenTempFails e) = e"
| "compact_text (WriteTempFails j e) = e"
| "compact_text (SyncFails e) = e"
| "compact_text (RenameFails e) = e"
| "compact_text (ReopenFails e) = e"

definition short_errors :: "exec_env \<Rightarrow> bool" where
  "short_errors env \<longleftrightarrow> blen (io_text (set_out env)) \<le> 4000 \<and> blen (compact_text (compact_out env)) \<le> 4000"

lemma short_errors_calm [simp]: "short_errors calm"
  by (simp add: short_errors_def calm_def)

lemma small_start [simp]: "small_store (engine_start order)"
  by (simp add: small_store_def engine_start_def)

fun short_command :: "command \<Rightarrow> bool" where
  "short_command (CmdSet k v) \<longleftrightarrow> blen v < MAX_ANSWER"
| "short_command _ \<longleftrightarrow> True"

lemma parse_short:
  assumes "parse t = Some cmd" and "blen t < MAX_ANSWER"
  shows "short_command cmd"
proof (cases cmd)
  case (CmdSet k v)
  with assms(1) obtain kw args where split: "split_whitespace t = kw # args"
    and v: "v = join [0x20] (drop 1 args)" and "2 \<le> length args"
    by (auto simp: parse_split split: list.splits if_splits)
  then have "Suc (blen v) = words_length (drop 1 args)"
    using join_length [of "drop 1 args"] by (simp add: v)
  also have "\<dots> \<le> words_length args"
    by (rule words_length_drop)
  also have "\<dots> < words_length (split_whitespace t)"
    by (simp add: split)
  also have "\<dots> \<le> Suc (blen t)"
    using words_from_length [of "[]" t] by (simp add: split_whitespace_def)
  finally show ?thesis
    using CmdSet assms(2) by simp
qed simp_all

lemma reply_length: "blen (ascii t) = length t" if "list_all (\<lambda>c. of_char c < (0x80 :: nat)) t"
  using that by (induction t) (simp_all add: ascii_def char_length(3))

lemma reply_lengths: "blen (reply ''OK'') = 3" "blen (reply ''OK_DELETED'') = 11" "blen (reply ''NULL'') = 5"
    "blen (reply ''OK_COMPACTED'') = 13" "blen (reply ''PONG'') = 5" "blen (reply ''ERR_UNKNOWN_COMMAND'') = 20"
    "blen (err_reply ''ERR'' e) = 5 + blen e" "blen (err_reply ''ERR_COMPACT'' e) = 13 + blen e"
  by (simp_all add: reply_def err_reply_def reply_length char_length(3))

lemma tombstone_length: "blen TOMBSTONE = 13"
  by (simp add: TOMBSTONE_def reply_length)

lemma set_store: "\<exists>res en' fs'. Engine_set k v out st = (res, en', fs') \<and> en_map en' = AList.update k v (en_map (fst st)) \<and>
    (\<forall>e. res = Inl e \<longrightarrow> e = io_text out)"
  by (cases st; cases out) (simp_all add: Engine_set_def fs_write_def Let_def)

lemma compact_store: "\<exists>res en' fs'. Engine_compact out st = (res, en', fs') \<and> en_map en' = en_map (fst st) \<and>
    (\<forall>e. res = Inl e \<longrightarrow> e = compact_text out)"
  by (cases st; cases out) (simp_all add: Engine_compact_def Let_def split: prod.splits)

lemma small_update:
  assumes "small_store st" and "blen v < MAX_ANSWER" and "en_map (fst st') = AList.update k v (en_map (fst st))"
  shows "small_store st'"
proof -
  have "snd ` set (AList.update k v m) \<subseteq> insert v (snd ` set m)" for m
    by (induction m) auto
  then have sub: "snd ` set (en_map (fst st')) \<subseteq> insert v (snd ` set (en_map (fst st)))"
    by (simp only: assms(3))
  show ?thesis
    unfolding small_store_def
  proof
    fix v'
    assume "v' \<in> snd ` set (en_map (fst st'))"
    then have "v' \<in> insert v (snd ` set (en_map (fst st)))"
      by (rule subsetD [OF sub])
    then show "blen v' < MAX_ANSWER"
    proof (rule insertE)
      assume "v' = v"
      with assms(2) show ?thesis by (simp only:)
    qed (rule bspec [OF assms(1) [unfolded small_store_def]])
  qed
qed

lemma exec_short:
  assumes small: "small_store st" and env: "short_errors env" and "short_command cmd"
  shows "blen (fst (exec_command env cmd st)) \<le> MAX_ANSWER \<and> small_store (snd (exec_command env cmd st))"
proof -
  have set: "blen (case res of Inr _ \<Rightarrow> reply ok | Inl e \<Rightarrow> err_reply ''ERR'' e) \<le> MAX_ANSWER \<and> small_store st'"
    if "Engine_set k v (set_out env) st = (res, st')" and "blen v < MAX_ANSWER" and "blen (reply ok) \<le> 13" for k v res st' ok
  proof -
    have "en_map (fst st') = AList.update k v (en_map (fst st))" and e: "\<And>e. res = Inl e \<Longrightarrow> e = io_text (set_out env)"
      using set_store [of k v "set_out env" st] that(1) by auto
    then have "small_store st'"
      by (intro small_update [OF small that(2)])
    moreover have "blen (case res of Inr _ \<Rightarrow> reply ok | Inl e \<Rightarrow> err_reply ''ERR'' e) \<le> MAX_ANSWER"
    proof (cases res)
      case (Inl e')
      with e [OF Inl] env show ?thesis
        by (simp add: reply_lengths short_errors_def MAX_ANSWER_def)
    next
      case (Inr u)
      with that(3) show ?thesis
        by (simp add: MAX_ANSWER_def)
    qed
    ultimately show ?thesis by simp
  qed
  show ?thesis
  proof (cases cmd)
    case (CmdSet k v)
    obtain res st' where run: "Engine_set k v (set_out env) st = (res, st')" by fastforce
    with CmdSet set [OF run, of "''OK''"] assms(3) show ?thesis
      by (cases res) (simp_all add: exec_command_def db_set_def reply_lengths)
  next
    case (CmdDel k)
    obtain res st' where run: "Engine_set k TOMBSTONE (set_out env) st = (res, st')" by fastforce
    have "blen TOMBSTONE < MAX_ANSWER"
      by (simp add: tombstone_length MAX_ANSWER_def)
    with CmdDel run set [OF run, of "''OK_DELETED''"] show ?thesis
      by (cases res) (simp_all add: exec_command_def db_set_def reply_lengths)
  next
    case (CmdGet k)
    show ?thesis
    proof (cases "db_get k st")
      case (Some v)
      then have "(k, v) \<in> set (en_map (fst st))"
        by (simp add: db_get_def Engine_get_def map_of_SomeD)
      then have "v \<in> snd ` set (en_map (fst st))"
        by (rule rev_image_eqI) simp
      then have "blen v < MAX_ANSWER"
        using small unfolding small_store_def by (rule bspec [rotated])
      with CmdGet Some small show ?thesis
        by (simp add: exec_command_def reply_lengths char_length(3)) (simp add: MAX_ANSWER_def)
    qed (use CmdGet small in \<open>simp_all add: exec_command_def reply_lengths MAX_ANSWER_def\<close>)
  next
    case CmdCompact
    obtain res en' fs' where run: "Engine_compact (compact_out env) st = (res, en', fs')" "en_map en' = en_map (fst st)"
      and e: "\<And>e. res = Inl e \<Longrightarrow> e = compact_text (compact_out env)"
      using compact_store [of "compact_out env" st] by blast
    have "small_store (en', fs')"
      using small by (simp add: small_store_def run(2))
    with CmdCompact run(1) e env show ?thesis
      by (cases res) (simp_all add: exec_command_def reply_lengths short_errors_def MAX_ANSWER_def)
  qed (use small in \<open>simp_all add: exec_command_def reply_lengths MAX_ANSWER_def\<close>)
qed

lemma serve_read_short:
  assumes "small_store st" and "short_errors env" and "serve_read env rd write_ok st = (rs, ex, st')"
  shows "small_store st'" and "r \<in> set rs \<Longrightarrow> blen r \<le> MAX_ANSWER"
proof -
  have "small_store st' \<and> (r \<in> set rs \<longrightarrow> blen r \<le> MAX_ANSWER)"
  proof (cases "\<exists>avail cmd. rd = ReadBytes avail \<and> take READ_BUFFER avail \<noteq> [] \<and>
      parse (from_utf8_lossy (take READ_BUFFER avail)) = Some cmd")
    case True
    then obtain avail cmd where rd: "rd = ReadBytes avail" "take READ_BUFFER avail \<noteq> []"
      and cmd: "parse (from_utf8_lossy (take READ_BUFFER avail)) = Some cmd"
      by blast
    have "blen (from_utf8_lossy (take READ_BUFFER avail)) < MAX_ANSWER"
      by (rule le_less_trans [OF lossy_length]) (simp add: READ_BUFFER_def MAX_ANSWER_def)
    note short = exec_short [OF assms(1,2) parse_short [OF cmd this]]
    obtain response st1 where "exec_command env cmd st = (response, st1)"
      by fastforce
    with short assms(3) rd cmd show ?thesis
      by (auto simp: serve_read_def Let_def split: if_splits)
  next
    case False
    with assms show ?thesis
      by (auto simp: serve_read_def Let_def split: read_result.splits option.splits if_splits)
  qed
  then show "small_store st'" and "r \<in> set rs \<Longrightarrow> blen r \<le> MAX_ANSWER"
    by simp_all
qed

end
