(* ===== verification/Proxy_Backend.thy ===== *)
theory Proxy_Backend
  imports Aegis_Proxy Answer_Bounds
begin

text \<open>
  The TCP proxy of AEGIS in front of the server of Chronos: every backend pipe is a connection with
  a server thread of its own, and the bytes in flight in both directions. Neither side frames its
  messages: the proxy takes one read of the pipe for the answer, the server one read for a command.
\<close>

section \<open>State\<close>

record link =
  lk_requests :: bytes \<comment> \<open>written by the proxy, not yet read by the server\<close>
  lk_responses :: bytes \<comment> \<open>written by the server, not yet read by the proxy\<close>
  lk_up :: bool \<comment> \<open>the server's thread for the pipe is alive\<close>

type_synonym pipe_id = "nat \<times> nat" \<comment> \<open>core and pipe\<close>

record front =
  fr_proxy :: proxy
  fr_links :: "pipe_id \<Rightarrow> link"
  fr_db :: db

definition fresh_link :: link where
  "fresh_link = \<lparr>lk_requests = [], lk_responses = [], lk_up = True\<rparr>"

definition front_new :: "nat \<Rightarrow> db \<Rightarrow> front" where
  "front_new cores st = \<lparr>fr_proxy = proxy_new cores, fr_links = (\<lambda>_. fresh_link), fr_db = st\<rparr>"

text \<open>
  The proxy moves as in \<^const>\<open>core_step\<close>, except that a read of a pipe now returns what is in the
  pipe: at least one byte and at most \<open>m\<close> and the buffer, or the end of the stream when the thread
  is gone. A thread of the server reads from its pipe at most \<open>n\<close> bytes and its buffer. Other
  clients of the server run in between.
\<close>

datatype front_event =
    ProxyEvent nat core_event \<comment> \<open>core; any event but the completion of a backend read\<close>
  | PipeRead nat nat nat \<comment> \<open>core, task, bytes that have arrived\<close>
  | PipeReadErr nat nat
  | ServerTurn nat nat nat exec_env bool \<comment> \<open>core, pipe, bytes that have arrived\<close>
  | OtherClient exec_env read_result bool

datatype front_output =
    Relay nat core_output
  | Answered nat nat bytes bytes \<comment> \<open>core, pipe, what the server read and what it wrote back\<close>

section \<open>Steps\<close>

fun send_out :: "nat \<times> core_output \<Rightarrow> (pipe_id \<Rightarrow> link) \<Rightarrow> pipe_id \<Rightarrow> link" where
  "send_out (i, ToBackend k p d) links =
     links((i, p) := (links (i, p))\<lparr>lk_requests := lk_requests (links (i, p)) @ d\<rparr>)"
| "send_out _ links = links"

definition proxy_moves ::
    "(bytes \<Rightarrow> bytes \<Rightarrow> bytes) \<Rightarrow> nat \<Rightarrow> core_event \<Rightarrow> front \<Rightarrow> front_output list \<times> front" where
  "proxy_moves read_into i ev s =
     (case proxy_step read_into (i, ev) (fr_proxy s) of
        (outs, px) \<Rightarrow> (map (\<lambda>(j, out). Relay j out) outs,
           s\<lparr>fr_proxy := px, fr_links := fold send_out outs (fr_links s)\<rparr>))"

definition waiting_task :: "nat \<Rightarrow> nat \<Rightarrow> proxy \<Rightarrow> task_phase" where
  "waiting_task i k px = (if i < length (px_cores px) then task_at k (px_cores px ! i) else Finished)"

definition pipe_read ::
    "(bytes \<Rightarrow> bytes \<Rightarrow> bytes) \<Rightarrow> nat \<Rightarrow> nat \<Rightarrow> nat \<Rightarrow> front \<Rightarrow> front_output list \<times> front" where
  "pipe_read read_into i k m s =
     (case waiting_task i k (fr_proxy s) of
        ReadingBackend buf p \<Rightarrow>
          (let lk = fr_links s (i, p); d = take (min (max 1 m) BUFFER_SIZE) (lk_responses lk) in
           if d = [] \<and> lk_up lk then ([], s)
           else proxy_moves read_into i (BackendRead k (Some d))
                  (s\<lparr>fr_links := (fr_links s)((i, p) := lk\<lparr>lk_responses := drop (length d) (lk_responses lk)\<rparr>)\<rparr>))
      | _ \<Rightarrow> ([], s))"

definition server_turn ::
    "nat \<Rightarrow> nat \<Rightarrow> nat \<Rightarrow> exec_env \<Rightarrow> bool \<Rightarrow> front \<Rightarrow> front_output list \<times> front" where
  "server_turn i p n env write_ok s =
     (let lk = fr_links s (i, p); d = take (min (max 1 n) READ_BUFFER) (lk_requests lk) in
      if d = [] \<or> \<not> lk_up lk then ([], s)
      else
        (case serve_read env (ReadBytes d) write_ok (fr_db s) of
           (rs, ex, st) \<Rightarrow>
             (map (\<lambda>r. Answered i p d (utf8_encode r)) rs,
              s\<lparr>fr_db := st, fr_links := (fr_links s)((i, p) :=
                 \<lparr>lk_requests = drop (length d) (lk_requests lk),
                  lk_responses = lk_responses lk @ concat (map utf8_encode rs),
                  lk_up = (ex = None)\<rparr>)\<rparr>)))"

fun front_step ::
    "(bytes \<Rightarrow> bytes \<Rightarrow> bytes) \<Rightarrow> front_event \<Rightarrow> front \<Rightarrow> front_output list \<times> front" where
  "front_step read_into (ProxyEvent i ev) s =
     (case ev of BackendRead _ _ \<Rightarrow> ([], s) | _ \<Rightarrow> proxy_moves read_into i ev s)"
| "front_step read_into (PipeRead i k m) s = pipe_read read_into i k m s"
| "front_step read_into (PipeReadErr i k) s = proxy_moves read_into i (BackendRead k None) s"
| "front_step read_into (ServerTurn i p n env write_ok) s = server_turn i p n env write_ok s"
| "front_step read_into (OtherClient env rd write_ok) s =
     ([], s\<lparr>fr_db := snd (snd (serve_read env rd write_ok (fr_db s)))\<rparr>)"

fun front_run ::
    "(bytes \<Rightarrow> bytes \<Rightarrow> bytes) \<Rightarrow> front_event list \<Rightarrow> front \<Rightarrow> front_output list \<times> front" where
  "front_run read_into [] s = ([], s)"
| "front_run read_into (e # es) s =
     (case front_step read_into e s of (outs, s1) \<Rightarrow>
        (case front_run read_into es s1 of (outs', s2) \<Rightarrow> (outs @ outs', s2)))"

section \<open>Who uses a pipe\<close>

text \<open>
  A pipe is quiet while it is pooled, not opened yet, or held by a task that has not sent its request
  or has read its answer; it is busy between the request and the answer.
\<close>

fun quiet_pipe :: "task_phase \<Rightarrow> nat option" where
  "quiet_pipe (ReadingClient _ p) = Some p"
| "quiet_pipe (WritingClient _ p) = Some p"
| "quiet_pipe _ = None"

fun busy_pipe :: "task_phase \<Rightarrow> nat option" where
  "busy_pipe (WritingBackend _ p) = Some p"
| "busy_pipe (ReadingBackend _ p) = Some p"
| "busy_pipe _ = None"

definition pipe_quiet :: "core \<Rightarrow> nat \<Rightarrow> bool" where
  "pipe_quiet c p \<longleftrightarrow> p \<in> set (co_conn_pool c) \<or> co_next_pipe c \<le> p \<or>
     (\<exists>k. quiet_pipe (task_at k c) = Some p)"

definition pipe_busy :: "core \<Rightarrow> nat \<Rightarrow> nat \<Rightarrow> bool" where
  "pipe_busy c k p \<longleftrightarrow> busy_pipe (task_at k c) = Some p"

lemma held_pipes: "quiet_pipe t = Some p \<or> busy_pipe t = Some p \<longleftrightarrow> pipes_of t = {#p#}"
  by (cases t) auto

lemma quiet_or_busy: "quiet_pipe t = Some p \<Longrightarrow> busy_pipe t = None"
  by (cases t) auto

lemma task_pipes_le:
  assumes "k < length (co_tasks c)"
  shows "pipes_of (co_tasks c ! k) + mset (co_conn_pool c) \<subseteq># owned_pipes c"
  using sum_list_map_update [OF assms, of pipes_of Finished]
  by (simp add: owned_pipes_def) (metis mset_subset_eq_add_right)

lemma two_tasks_pipes_le:
  assumes "j < length (co_tasks c)" and "k < length (co_tasks c)" and "j \<noteq> k"
  shows "pipes_of (co_tasks c ! j) + pipes_of (co_tasks c ! k) \<subseteq># owned_pipes c"
proof -
  let ?ts = "(co_tasks c)[k := Finished]"
  have "co_tasks c ! j \<in> set ?ts"
    using assms by (metis length_list_update nth_list_update_neq nth_mem)
  then obtain xs ys where "?ts = xs @ co_tasks c ! j # ys"
    by (metis split_list)
  then have sub: "pipes_of (co_tasks c ! j) \<subseteq># sum_list (map pipes_of ?ts)"
    by simp
  have eq: "sum_list (map pipes_of ?ts) + pipes_of (co_tasks c ! k) = sum_list (map pipes_of (co_tasks c))"
    using sum_list_map_update [OF assms(2), of pipes_of Finished] by simp
  show ?thesis
    using subset_mset.add_right_mono [OF sub, of "pipes_of (co_tasks c ! k)"]
    unfolding eq owned_pipes_def by (rule subset_mset.order_trans) simp
qed

lemma core_inv_count:
  assumes "core_inv c" and "m \<subseteq># owned_pipes c"
  shows "count m p \<le> of_bool (p < co_next_pipe c)"
  by (rule order_trans [OF mset_subset_eq_count [OF assms(2)]]) (use assms(1) in \<open>simp add: core_inv_def\<close>)

lemma task_pipe:
  assumes "core_inv c" and "task_at k c = t" and "pipes_of t = {#p#}"
  shows "k < length (co_tasks c)" and "co_tasks c ! k = t" and "p < co_next_pipe c" and "p \<notin> set (co_conn_pool c)"
proof -
  show k: "k < length (co_tasks c)" "co_tasks c ! k = t"
    using assms(2,3) by (auto simp: task_at_def split: if_splits)
  have "count ({#p#} + mset (co_conn_pool c)) p \<le> of_bool (p < co_next_pipe c)"
    using core_inv_count [OF assms(1) task_pipes_le [OF k(1)], of p] k(2) assms(3) by simp
  then show "p < co_next_pipe c" "p \<notin> set (co_conn_pool c)"
    by (auto simp: of_bool_def split: if_splits simp flip: count_mset_0_iff)
qed

lemma same_task:
  assumes "core_inv c" and "pipes_of (task_at j c) = {#p#}" and "pipes_of (task_at k c) = {#p#}"
  shows "j = k"
proof (rule ccontr)
  assume "j \<noteq> k"
  note at = task_pipe(1,2) [OF assms(1) refl assms(2)] task_pipe(1,2) [OF assms(1) refl assms(3)]
  have "count ({#p#} + {#p#}) p \<le> of_bool (p < co_next_pipe c)"
    using core_inv_count [OF assms(1) two_tasks_pipes_le [OF at(1,3) \<open>j \<noteq> k\<close>], of p] at(2,4) assms(2,3) by simp
  then show False
    by (simp add: of_bool_def split: if_splits)
qed

lemma busy_pipes: "pipe_busy c k p \<Longrightarrow> pipes_of (task_at k c) = {#p#}"
  using held_pipes unfolding pipe_busy_def by blast

lemma busy_not_quiet:
  assumes "core_inv c" and "pipe_busy c k p"
  shows "\<not> pipe_quiet c p"
proof
  assume "pipe_quiet c p"
  with task_pipe(3,4) [OF assms(1) refl busy_pipes [OF assms(2)]]
  obtain j where j: "quiet_pipe (task_at j c) = Some p"
    by (auto simp: pipe_quiet_def)
  with held_pipes same_task [OF assms(1) _ busy_pipes [OF assms(2)]] have "j = k"
    by blast
  with j quiet_or_busy assms(2) show False
    by (fastforce simp: pipe_busy_def)
qed

lemma busy_unique: "core_inv c \<Longrightarrow> pipe_busy c j p \<Longrightarrow> pipe_busy c k p \<Longrightarrow> j = k"
  using same_task busy_pipes by blast

text \<open>One step of a core, seen from the pipes: which pipes become quiet, which become busy.\<close>

definition keeps_pipes :: "nat set \<Rightarrow> (nat \<times> nat) set \<Rightarrow> core \<Rightarrow> core \<Rightarrow> bool" where
  "keeps_pipes new_quiet new_busy c c' \<longleftrightarrow>
     (\<forall>p. pipe_quiet c' p \<longrightarrow> pipe_quiet c p \<or> p \<in> new_quiet) \<and>
     (\<forall>k p. pipe_busy c' k p \<longrightarrow> pipe_busy c k p \<or> (k, p) \<in> new_busy)"

lemma keeps_pipes_refl: "keeps_pipes Q B c c"
  by (simp add: keeps_pipes_def)

lemma keeps_pipes_move:
  assumes "task_at k c = old" and "old \<noteq> Finished" and tasks: "co_tasks c' = (co_tasks c)[k := ph]"
    and pool: "\<And>p. p \<in> set (co_conn_pool c') \<Longrightarrow> pipe_quiet c p \<or> p \<in> Q"
    and ph: "\<And>p. quiet_pipe ph = Some p \<Longrightarrow> pipe_quiet c p \<or> p \<in> Q"
      "\<And>p. busy_pipe ph = Some p \<Longrightarrow> busy_pipe old = Some p \<or> (k, p) \<in> B"
    and next_pipe: "co_next_pipe c \<le> co_next_pipe c'"
  shows "keeps_pipes Q B c c'"
proof -
  have at: "task_at j c' = (if j = k then ph else task_at j c)" for j
    using task_at_less [of k c] assms(1-3) by (simp add: task_at_def)
  have "pipe_quiet c p \<or> p \<in> Q" if "pipe_quiet c' p" for p
    using that pool [of p] ph(1) [of p] next_pipe
    by (fastforce simp: pipe_quiet_def at split: if_splits)
  moreover have "pipe_busy c j p \<or> (j, p) \<in> B" if "pipe_busy c' j p" for j p
    using that ph(2) [of p] assms(1) by (auto simp: pipe_busy_def at split: if_splits)
  ultimately show ?thesis
    by (simp add: keeps_pipes_def)
qed

lemma task_quiet: "quiet_pipe (task_at k c) = Some p \<Longrightarrow> pipe_quiet c p"
  by (auto simp: pipe_quiet_def)

lemma pool_quiet: "p \<in> set (co_conn_pool c) \<Longrightarrow> pipe_quiet c p"
  by (simp add: pipe_quiet_def)

lemma next_quiet: "pipe_quiet c (co_next_pipe c)"
  by (simp add: pipe_quiet_def)

text \<open>The three kinds of step: nothing passes, a request leaves, an answer comes back.\<close>

definition silent :: "core_output list \<Rightarrow> bool" where
  "silent outs \<longleftrightarrow> outs = [] \<or> (\<exists>k. outs = [core_output.Panicked k])"

definition passes :: "core_event \<Rightarrow> core \<Rightarrow> core_output list \<Rightarrow> core \<Rightarrow> bool" where
  "passes ev c outs c' \<longleftrightarrow>
     silent outs \<and> keeps_pipes {} {} c c'
   \<or> (\<exists>k p data. ev = ClientRead k (Some data) \<and> outs = [ToBackend k p (take BUFFER_SIZE data)] \<and>
        pipe_quiet c p \<and> pipe_busy c' k p \<and> keeps_pipes {} {(k, p)} c c')
   \<or> (\<exists>k p data. ev = BackendRead k (Some data) \<and> data \<noteq> [] \<and>
        outs = [ToClient k p (take BUFFER_SIZE data)] \<and> pipe_busy c k p \<and> keeps_pipes {p} {} c c')"

lemma passes_silent: "silent outs \<Longrightarrow> keeps_pipes {} {} c c' \<Longrightarrow> passes ev c outs c'"
  by (simp add: passes_def)

lemma passes_idle: "passes ev c [] c"
  by (simp add: passes_silent silent_def keeps_pipes_refl)

lemma recycle_passes:
  assumes "recycle k buf c tele = (outs, c', tele')" and "task_at k c = old" and "old \<noteq> Finished"
  shows "passes ev c outs c'"
  using assms(1)
  by (intro passes_silent keeps_pipes_move [OF assms(2,3), where ph = Finished])
     (auto simp: recycle_def move_simps silent_def pool_quiet)

lemma first_poll_passes:
  assumes "first_poll k c tele = (outs, c', tele')" and "task_at k c = Spawned"
  shows "passes ev c outs c'"
proof -
  have "\<exists>ph. co_tasks c' = (co_tasks c)[k := ph] \<and> busy_pipe ph = None \<and>
      (\<forall>p. quiet_pipe ph = Some p \<longrightarrow> p \<in> set (co_conn_pool c)) \<and>
      set (co_conn_pool c') \<subseteq> set (co_conn_pool c) \<and> co_next_pipe c' = co_next_pipe c \<and> silent outs"
    using assms(1) by (auto simp: first_poll_def move_simps silent_def split: if_splits list.splits)
  then show ?thesis
    by (auto intro!: passes_silent keeps_pipes_move [OF assms(2)] pool_quiet)
qed

lemma connect_done_passes:
  assumes "connect_done k ok buf c tele = (outs, c', tele')" and "task_at k c = Connecting buf"
  shows "passes ev c outs c'"
proof -
  have "\<exists>ph. co_tasks c' = (co_tasks c)[k := ph] \<and> busy_pipe ph = None \<and>
      (\<forall>p. quiet_pipe ph = Some p \<longrightarrow> p = co_next_pipe c) \<and>
      co_conn_pool c' = co_conn_pool c \<and> co_next_pipe c \<le> co_next_pipe c' \<and> silent outs"
    using assms(1) by (auto simp: connect_done_def move_simps silent_def split: if_splits)
  then show ?thesis
    by (auto intro!: passes_silent keeps_pipes_move [OF assms(2)] intro: pool_quiet next_quiet)
qed

lemma client_read_passes:
  assumes "client_read read_into k res buf p c tele = (outs, c', tele')" and at: "task_at k c = ReadingClient buf p"
    and read: "\<And>d. read_into [] d = d" and inv: "core_inv c"
  shows "passes (ClientRead k res) c outs c'"
proof (cases "\<exists>data. res = Some data \<and> data \<noteq> []")
  case True
  have "buf = []"
    using task_cleared [OF inv at] by simp
  with True assms(1) read obtain data where "res = Some data" "outs = [ToBackend k p (take BUFFER_SIZE data)]"
      and c': "co_tasks c' = (co_tasks c)[k := WritingBackend (take BUFFER_SIZE data) p]"
        "co_conn_pool c' = co_conn_pool c" "co_next_pipe c' = co_next_pipe c"
    by (auto simp: client_read_def move_simps BUFFER_SIZE_def)
  moreover have "keeps_pipes {} {(k, p)} c c'"
    by (rule keeps_pipes_move [OF at _ c'(1)]) (auto simp: c' pool_quiet)
  moreover have "pipe_quiet c p"
    using at by (intro task_quiet [of k]) simp
  moreover have "pipe_busy c' k p"
    using task_at_less [of k c] at c'(1) by (simp add: pipe_busy_def task_at_def)
  ultimately show ?thesis
    unfolding passes_def by blast
next
  case False
  then show ?thesis
    using assms(1) recycle_passes [OF _ at] by (auto simp: client_read_def Let_def split: option.splits)
qed

lemma backend_read_passes:
  assumes "backend_read read_into k res buf p c tele = (outs, c', tele')" and at: "task_at k c = ReadingBackend buf p"
    and read: "\<And>d. read_into [] d = d" and inv: "core_inv c"
  shows "passes (BackendRead k res) c outs c'"
proof (cases "\<exists>data. res = Some data \<and> data \<noteq> []")
  case True
  have "buf = []"
    using task_cleared [OF inv at] by simp
  with True assms(1) read obtain data where "res = Some data" "data \<noteq> []" "outs = [ToClient k p (take BUFFER_SIZE data)]"
      and c': "co_tasks c' = (co_tasks c)[k := WritingClient (take BUFFER_SIZE data) p]"
        "co_conn_pool c' = co_conn_pool c" "co_next_pipe c' = co_next_pipe c"
    by (auto simp: backend_read_def move_simps BUFFER_SIZE_def)
  moreover have "keeps_pipes {p} {} c c'"
    by (rule keeps_pipes_move [OF at _ c'(1)]) (auto simp: c' pool_quiet)
  moreover have "pipe_busy c k p"
    using at by (simp add: pipe_busy_def)
  ultimately show ?thesis
    unfolding passes_def by blast
next
  case False
  then show ?thesis
    using assms(1) recycle_passes [OF _ at] by (auto simp: backend_read_def Let_def split: option.splits)
qed

lemma backend_written_passes:
  assumes "backend_written k ok buf p c tele = (outs, c', tele')" and at: "task_at k c = WritingBackend buf p"
  shows "passes ev c outs c'"
proof (cases ok)
  case True
  with assms show ?thesis
    by (intro passes_silent keeps_pipes_move [OF at, where ph = "ReadingBackend (clear buf) p"])
       (auto simp: backend_written_def move_simps silent_def pool_quiet)
qed (use assms in \<open>auto simp: backend_written_def intro: recycle_passes\<close>)

lemma client_written_passes:
  assumes "client_written k buf p c tele = (outs, c', tele')" and at: "task_at k c = WritingClient buf p"
  shows "passes ev c outs c'"
proof -
  have "pipe_quiet c p"
    using at by (intro task_quiet [of k]) simp
  moreover have "co_tasks c' = (co_tasks c)[k := Finished]" "set (co_conn_pool c') \<subseteq> insert p (set (co_conn_pool c))"
      "co_next_pipe c' = co_next_pipe c" "silent outs"
    using assms(1) by (auto simp: client_written_def move_simps silent_def split: if_splits)
  ultimately show ?thesis
    by (intro passes_silent keeps_pipes_move [OF at, where ph = Finished]) (auto intro: pool_quiet)
qed

lemma shutdown_passes:
  assumes "core_shutdown c tele = (outs, c', tele')"
  shows "passes ev c outs c'"
proof -
  have "task_at k c' = Finished" for k
    using assms by (auto simp: core_shutdown_def task_at_def)
  then show ?thesis
    using assms by (intro passes_silent)
      (auto simp: core_shutdown_def silent_def keeps_pipes_def pipe_quiet_def pipe_busy_def)
qed

lemma accept_passes:
  assumes "co_tasks c' = co_tasks c @ [Spawned]" and "co_conn_pool c' = co_conn_pool c" and "co_next_pipe c' = co_next_pipe c"
  shows "passes ev c [] c'"
proof -
  have "task_at k c' = task_at k c \<or> task_at k c' = Spawned" for k
    using assms(1) by (auto simp: task_at_def nth_append)
  then have tasks: "(quiet_pipe (task_at k c') = Some p \<longrightarrow> quiet_pipe (task_at k c) = Some p) \<and>
      (busy_pipe (task_at k c') = Some p \<longrightarrow> busy_pipe (task_at k c) = Some p)" for k p
    by (metis busy_pipe.simps(3) option.distinct(1) quiet_pipe.simps(3))
  have "keeps_pipes {} {} c c'"
    unfolding keeps_pipes_def pipe_quiet_def pipe_busy_def using tasks assms(2,3) by auto
  then show ?thesis
    by (intro passes_silent) (simp_all add: silent_def)
qed

lemmas handler_passes = first_poll_passes connect_done_passes client_read_passes backend_written_passes
  backend_read_passes client_written_passes shutdown_passes

lemma core_step_passes:
  assumes "core_step read_into ev c tele = (outs, c', tele')" and "\<And>d. read_into [] d = d" and "core_inv c"
  shows "passes ev c outs c'"
  using assms passes_idle accept_passes [of c' c ev]
  by (cases ev) (auto split: task_phase.splits if_splits intro: handler_passes)

section \<open>Requests and answers on a pipe\<close>

fun about :: "pipe_id \<Rightarrow> front_output \<Rightarrow> bool" where
  "about ip (Relay i (ToBackend k p d)) \<longleftrightarrow> ip = (i, p)"
| "about ip (Answered i p q r) \<longleftrightarrow> ip = (i, p)"
| "about ip _ \<longleftrightarrow> False"

definition link_idle :: "link \<Rightarrow> bool" where
  "link_idle lk \<longleftrightarrow> lk_requests lk = [] \<and> lk_responses lk = []"

text \<open>The last thing that happened on the pipe: a request of the task, or the server's answer to it.\<close>

definition asked :: "front_output list \<Rightarrow> nat \<Rightarrow> nat \<Rightarrow> nat \<Rightarrow> bytes \<Rightarrow> bool" where
  "asked log i k p q \<longleftrightarrow> (\<exists>zs. filter (about (i, p)) log = zs @ [Relay i (ToBackend k p q)])"

definition replied :: "front_output list \<Rightarrow> nat \<Rightarrow> nat \<Rightarrow> nat \<Rightarrow> bytes \<Rightarrow> bool" where
  "replied log i k p r \<longleftrightarrow>
     (\<exists>zs q. filter (about (i, p)) log = zs @ [Relay i (ToBackend k p q), Answered i p q r])"

definition link_busy :: "front_output list \<Rightarrow> nat \<Rightarrow> nat \<Rightarrow> nat \<Rightarrow> link \<Rightarrow> bool" where
  "link_busy log i k p lk \<longleftrightarrow> link_idle lk \<or>
     lk_responses lk = [] \<and> length (lk_requests lk) \<le> READ_BUFFER \<and> asked log i k p (lk_requests lk) \<or>
     lk_requests lk = [] \<and> replied log i k p (lk_responses lk)"

definition links_ok :: "front_output list \<Rightarrow> nat \<Rightarrow> core \<Rightarrow> (pipe_id \<Rightarrow> link) \<Rightarrow> bool" where
  "links_ok log i c links \<longleftrightarrow>
     (\<forall>p. pipe_quiet c p \<longrightarrow> link_idle (links (i, p))) \<and>
     (\<forall>k p. pipe_busy c k p \<longrightarrow> link_busy log i k p (links (i, p)))"

definition front_inv :: "front_output list \<Rightarrow> front \<Rightarrow> bool" where
  "front_inv log s \<longleftrightarrow>
     (\<forall>i < length (px_cores (fr_proxy s)). core_inv (px_cores (fr_proxy s) ! i) \<and>
        links_ok log i (px_cores (fr_proxy s) ! i) (fr_links s))"

lemma link_busy_cong:
  "filter (about (i, p)) log = filter (about (i, p)) log' \<Longrightarrow> link_busy log i k p lk \<longleftrightarrow> link_busy log' i k p lk"
  by (simp add: link_busy_def asked_def replied_def)

text \<open>A step that leaves the pipes of a core alone, in the log and on the links.\<close>

lemma links_ok_cong:
  assumes "links_ok log i c links" and "keeps_pipes Q B c c'"
    and "\<And>p. pipe_quiet c' p \<Longrightarrow> p \<notin> Q \<Longrightarrow> links' (i, p) = links (i, p)"
    and "\<And>k p. pipe_busy c' k p \<Longrightarrow> (k, p) \<notin> B \<Longrightarrow>
      links' (i, p) = links (i, p) \<and> filter (about (i, p)) log' = filter (about (i, p)) log"
    and "\<And>p. p \<in> Q \<Longrightarrow> link_idle (links' (i, p))"
    and "\<And>k p. (k, p) \<in> B \<Longrightarrow> link_busy log' i k p (links' (i, p))"
  shows "links_ok log' i c' links'"
proof -
  have "link_idle (links' (i, p))" if "pipe_quiet c' p" for p
    using assms(1-3) assms(5) [of p] that
    by (cases "p \<in> Q") (auto simp: keeps_pipes_def links_ok_def)
  moreover have "link_busy log' i k p (links' (i, p))" if "pipe_busy c' k p" for k p
  proof (cases "(k, p) \<in> B")
    case False
    then have "pipe_busy c k p"
      using assms(2) that by (auto simp: keeps_pipes_def)
    then have "link_busy log i k p (links (i, p))"
      using assms(1) by (simp add: links_ok_def)
    with assms(4) [OF that False] link_busy_cong [of i p log' log k] show ?thesis
      by simp
  qed (rule assms(6))
  ultimately show ?thesis
    by (simp add: links_ok_def)
qed

lemma links_ok_same:
  assumes "links_ok log i c links" and "\<And>p. links' (i, p) = links (i, p)"
    and "\<And>p. filter (about (i, p)) log' = filter (about (i, p)) log"
  shows "links_ok log' i c links'"
  using assms(2,3) by (intro links_ok_cong [OF assms(1) keeps_pipes_refl [of "{}" "{}"]]) auto

lemma front_invD:
  assumes "front_inv log s" and "i < length (px_cores (fr_proxy s))"
  shows "core_inv (px_cores (fr_proxy s) ! i)" and "links_ok log i (px_cores (fr_proxy s) ! i) (fr_links s)"
  using assms by (simp_all add: front_inv_def)

text \<open>A step of one core, with the links and the log it leaves.\<close>

lemma core_links:
  assumes inv: "core_inv c" "core_inv c'" and links: "links_ok log i c links" and pass: "passes ev c os c'"
    and small: "\<And>k data. ev = ClientRead k (Some data) \<Longrightarrow> length data \<le> READ_BUFFER"
    and read: "\<And>k data p. ev = BackendRead k (Some data) \<Longrightarrow> data \<noteq> [] \<Longrightarrow> pipe_busy c k p \<Longrightarrow> link_idle (links (i, p))"
  shows "links_ok (log @ map (Relay i) os) i c' (fold send_out (map (Pair i) os) links)"
  using pass unfolding passes_def
proof (elim disjE exE conjE)
  assume "silent os" and "keeps_pipes {} {} c c'"
  then show ?thesis
    by (intro links_ok_cong [OF links]) (auto simp: silent_def)
next
  fix k p data
  assume ev: "ev = ClientRead k (Some data)" and os: "os = [ToBackend k p (take BUFFER_SIZE data)]"
    and quiet: "pipe_quiet c p" and busy: "pipe_busy c' k p" and keeps: "keeps_pipes {} {(k, p)} c c'"
  have "link_idle (links (i, p))"
    using links quiet by (simp add: links_ok_def)
  then have "link_busy (log @ map (Relay i) os) i k p (fold send_out (map (Pair i) os) links (i, p))"
    using small [OF ev] by (auto simp: os link_busy_def link_idle_def asked_def)
  moreover have "q \<noteq> p" if "pipe_quiet c' q" for q
    using busy_not_quiet [OF inv(2) busy] that by auto
  moreover have "q \<noteq> p" if "pipe_busy c' j q" "(j, q) \<noteq> (k, p)" for j q
    using busy_unique [OF inv(2) busy, of j] that by auto
  ultimately show ?thesis
    by (intro links_ok_cong [OF links keeps]) (auto simp: os)
next
  fix k p data
  assume ev: "ev = BackendRead k (Some data)" "data \<noteq> []" and os: "os = [ToClient k p (take BUFFER_SIZE data)]"
    and busy: "pipe_busy c k p" and keeps: "keeps_pipes {p} {} c c'"
  show ?thesis
    using read [OF ev busy] by (intro links_ok_cong [OF links keeps]) (auto simp: os)
qed

lemma passes_elsewhere:
  assumes "passes ev c os c'" and "j \<noteq> i"
  shows "fold send_out (map (Pair i) os) links (j, p) = links (j, p)" and "filter (about (j, p)) (map (Relay i) os) = []"
  using assms by (auto simp: passes_def silent_def)

lemma proxy_moves_inv:
  assumes inv: "front_inv log s" and step: "proxy_moves read_into i ev s = (outs, s')"
    and into: "\<And>d. read_into [] d = d"
    and small: "\<And>k data. ev = ClientRead k (Some data) \<Longrightarrow> length data \<le> READ_BUFFER"
    and read: "\<And>k data p. ev = BackendRead k (Some data) \<Longrightarrow> data \<noteq> [] \<Longrightarrow>
      i < length (px_cores (fr_proxy s)) \<Longrightarrow> pipe_busy (px_cores (fr_proxy s) ! i) k p \<Longrightarrow> link_idle (fr_links s (i, p))"
  shows "front_inv (log @ outs) s'" and "outs = [] \<or> (\<exists>out. outs = [out])"
    and "Relay j (ToClient k p d) \<in> set outs \<Longrightarrow>
      j = i \<and> (\<exists>data. ev = BackendRead k (Some data) \<and> data \<noteq> [] \<and> d = take BUFFER_SIZE data) \<and>
      i < length (px_cores (fr_proxy s)) \<and> pipe_busy (px_cores (fr_proxy s) ! i) k p"
proof -
  let ?px = "fr_proxy s"
  obtain os px' where px: "proxy_step read_into (i, ev) ?px = (os, px')" by fastforce
  with step have outs: "outs = map (\<lambda>(j, out). Relay j out) os"
      and s': "s' = s\<lparr>fr_proxy := px', fr_links := fold send_out os (fr_links s)\<rparr>"
    by (auto simp: proxy_moves_def)
  have "front_inv (log @ outs) s' \<and> (outs = [] \<or> (\<exists>out. outs = [out])) \<and>
    (Relay j (ToClient k p d) \<in> set outs \<longrightarrow>
      j = i \<and> (\<exists>data. ev = BackendRead k (Some data) \<and> data \<noteq> [] \<and> d = take BUFFER_SIZE data) \<and>
      i < length (px_cores ?px) \<and> pipe_busy (px_cores ?px ! i) k p)"
    using px
  proof (cases rule: proxy_step_cases)
    case idle
    with inv show ?thesis by (simp add: outs s')
  next
    case (core i' ev' os' c tele)
    then have i: "i < length (px_cores ?px)" and run: "core_step read_into ev (px_cores ?px ! i) (px_tele ?px) = (os', c, tele)"
      by auto
    note old = front_invD [OF inv i]
    have pass: "passes ev (px_cores ?px ! i) os' c"
      using core_step_passes [OF run into old(1)] .
    have inv': "core_inv c"
      using core_step_inv [OF old(1) run] .
    have outs': "outs = map (Relay i) os'" and os_eq: "os = map (Pair i) os'"
      using core by (auto simp: outs)
    have here: "links_ok (log @ outs) i c (fr_links s')"
      using core_links [OF old(1) inv' old(2) pass small read [OF _ _ i]] by (simp add: s' outs' os_eq)
    have "links_ok (log @ outs) j (px_cores ?px ! j) (fr_links s')" if "j < length (px_cores ?px)" "j \<noteq> i" for j
    proof (rule links_ok_same [OF front_invD(2) [OF inv that(1)]])
      show "fr_links s' (j, p) = fr_links s (j, p)" for p
        using passes_elsewhere(1) [OF pass that(2)] by (simp add: s' os_eq)
      show "filter (about (j, p)) (log @ outs) = filter (about (j, p)) log" for p
        using passes_elsewhere(2) [OF pass that(2)] by (simp add: outs')
    qed
    then have "front_inv (log @ outs) s'"
      using here inv' front_invD(1) [OF inv] core by (auto simp: front_inv_def nth_list_update s')
    moreover have "outs = [] \<or> (\<exists>out. outs = [out])"
      using pass by (auto simp: outs' passes_def silent_def)
    moreover have "Relay j (ToClient k p d) \<in> set outs \<longrightarrow>
        j = i \<and> (\<exists>data. ev = BackendRead k (Some data) \<and> data \<noteq> [] \<and> d = take BUFFER_SIZE data) \<and> pipe_busy (px_cores ?px ! i) k p"
      using pass by (auto simp: outs' passes_def silent_def)
    ultimately show ?thesis
      using i by blast
  qed
  then show "front_inv (log @ outs) s'" and "outs = [] \<or> (\<exists>out. outs = [out])"
    and "Relay j (ToClient k p d) \<in> set outs \<Longrightarrow>
      j = i \<and> (\<exists>data. ev = BackendRead k (Some data) \<and> data \<noteq> [] \<and> d = take BUFFER_SIZE data) \<and>
      i < length (px_cores ?px) \<and> pipe_busy (px_cores ?px ! i) k p"
    by blast+
qed

text \<open>A step of the environment on one link.\<close>

lemma front_inv_link:
  assumes inv: "front_inv log s" and proxy: "fr_proxy s' = fr_proxy s"
    and links: "fr_links s' = (fr_links s)((i, p) := lk)"
    and log: "\<And>ip. ip \<noteq> (i, p) \<Longrightarrow> filter (about ip) log' = filter (about ip) log"
    and quiet: "i < length (px_cores (fr_proxy s)) \<Longrightarrow> pipe_quiet (px_cores (fr_proxy s) ! i) p \<Longrightarrow> link_idle lk"
    and busy: "\<And>k. i < length (px_cores (fr_proxy s)) \<Longrightarrow> pipe_busy (px_cores (fr_proxy s) ! i) k p \<Longrightarrow>
      link_busy log' i k p lk"
  shows "front_inv log' s'"
proof -
  have "links_ok log' j (px_cores (fr_proxy s) ! j) (fr_links s')" if "j < length (px_cores (fr_proxy s))" for j
  proof -
    note old = front_invD(2) [OF inv that]
    have "link_idle (fr_links s' (j, q))" if "pipe_quiet (px_cores (fr_proxy s) ! j) q" for q
      using old quiet that \<open>j < _\<close> by (cases "(j, q) = (i, p)") (auto simp: links links_ok_def)
    moreover have "link_busy log' j k q (fr_links s' (j, q))" if "pipe_busy (px_cores (fr_proxy s) ! j) k q" for k q
    proof (cases "(j, q) = (i, p)")
      case True
      with busy [of k] that \<open>j < _\<close> show ?thesis by (simp add: links)
    next
      case False
      with old that link_busy_cong [OF log [OF False], of k] show ?thesis
        by (auto simp: links links_ok_def)
    qed
    ultimately show ?thesis
      by (simp add: links_ok_def)
  qed
  then show ?thesis
    using front_invD(1) [OF inv] by (simp add: front_inv_def proxy)
qed

lemma serve_read_one: "\<exists>r. fst (serve_read env rd write_ok st) = [] \<or> fst (serve_read env rd write_ok st) = [r]"
  by (auto simp: serve_read_def Let_def split: read_result.splits option.splits prod.splits)

lemma server_turn_inv:
  assumes inv: "front_inv log s" and step: "server_turn i p n env write_ok s = (outs, s')" and n: "READ_BUFFER \<le> n"
  shows "front_inv (log @ outs) s'" and "outs = [] \<or> (\<exists>q r. outs = [Answered i p q r])"
proof -
  let ?lk = "fr_links s (i, p)"
  define d where "d = take (min (max 1 n) READ_BUFFER) (lk_requests ?lk)"
  have "front_inv (log @ outs) s' \<and> (outs = [] \<or> (\<exists>q r. outs = [Answered i p q r]))"
  proof (cases "d = [] \<or> \<not> lk_up ?lk")
    case True
    with step inv show ?thesis by (simp add: server_turn_def Let_def d_def)
  next
    case False
    obtain rs ex st where run: "serve_read env (ReadBytes d) write_ok (fr_db s) = (rs, ex, st)"
      by (metis prod_cases3)
    define lk where "lk = \<lparr>lk_requests = drop (length d) (lk_requests ?lk),
      lk_responses = lk_responses ?lk @ concat (map utf8_encode rs), lk_up = (ex = None)\<rparr>"
    have outs: "outs = map (\<lambda>r. Answered i p d (utf8_encode r)) rs"
        and s': "s' = s\<lparr>fr_db := st, fr_links := (fr_links s)((i, p) := lk)\<rparr>"
      using step False unfolding server_turn_def Let_def d_def [symmetric] run lk_def by auto
    obtain r where rs: "rs = [] \<or> rs = [r]"
      using serve_read_one [of env "ReadBytes d" write_ok "fr_db s"] run by auto
    have "link_busy (log @ outs) i k p lk" if "i < length (px_cores (fr_proxy s))" "pipe_busy (px_cores (fr_proxy s) ! i) k p" for k
    proof -
      have "link_busy log i k p ?lk"
        using front_invD(2) [OF inv that(1)] that(2) by (simp add: links_ok_def)
      with False have "lk_responses ?lk = []" "length (lk_requests ?lk) \<le> READ_BUFFER" "asked log i k p (lk_requests ?lk)"
        by (auto simp: link_busy_def link_idle_def d_def)
      moreover from this n have "d = lk_requests ?lk"
        by (simp add: d_def READ_BUFFER_def)
      ultimately show ?thesis
        using rs by (auto simp: lk_def outs link_busy_def link_idle_def asked_def replied_def)
    qed
    moreover have "link_idle lk" if "i < length (px_cores (fr_proxy s))" "pipe_quiet (px_cores (fr_proxy s) ! i) p"
      using front_invD(2) [OF inv that(1)] that(2) False by (auto simp: links_ok_def link_idle_def d_def)
    ultimately have "front_inv (log @ outs) s'"
      by (intro front_inv_link [OF inv, where i = i and p = p and lk = lk]) (auto simp: s' outs)
    with rs show ?thesis
      by (auto simp: outs)
  qed
  then show "front_inv (log @ outs) s'" and "outs = [] \<or> (\<exists>q r. outs = [Answered i p q r])"
    by auto
qed

text \<open>The answers of the log fit the proxy's buffer.\<close>

definition short_answers :: "front_output list \<Rightarrow> bool" where
  "short_answers log \<longleftrightarrow> (\<forall>i p q r. Answered i p q r \<in> set log \<longrightarrow> length r \<le> BUFFER_SIZE)"

lemma replied_short: "short_answers log \<Longrightarrow> replied log i k p r \<Longrightarrow> length r \<le> BUFFER_SIZE"
proof -
  assume short: "short_answers log" and "replied log i k p r"
  then obtain zs q where "filter (about (i, p)) log = zs @ [Relay i (ToBackend k p q), Answered i p q r]"
    by (auto simp: replied_def)
  then have "Answered i p q r \<in> set (filter (about (i, p)) log)"
    by simp
  with short show ?thesis
    by (auto simp: short_answers_def)
qed

lemma pipe_read_inv:
  assumes inv: "front_inv log s" and step: "pipe_read read_into i k m s = (outs, s')" and m: "BUFFER_SIZE \<le> m"
    and into: "\<And>d. read_into [] d = d" and short: "short_answers log"
  shows "front_inv (log @ outs) s'" and "outs = [] \<or> (\<exists>out. outs = [out])"
    and "Relay j (ToClient l q d) \<in> set outs \<Longrightarrow> replied log j l q d"
proof -
  have "front_inv (log @ outs) s' \<and> (outs = [] \<or> (\<exists>out. outs = [out])) \<and>
    (Relay j (ToClient l q d) \<in> set outs \<longrightarrow> replied log j l q d)"
  proof (cases "\<exists>buf p. waiting_task i k (fr_proxy s) = ReadingBackend buf p")
    case False
    with step inv show ?thesis by (auto simp: pipe_read_def split: task_phase.splits)
  next
    case True
    then obtain buf p where wait: "waiting_task i k (fr_proxy s) = ReadingBackend buf p" by blast
    then have i: "i < length (px_cores (fr_proxy s))" and busy: "pipe_busy (px_cores (fr_proxy s) ! i) k p"
      by (auto simp: waiting_task_def pipe_busy_def split: if_splits)
    let ?lk = "fr_links s (i, p)"
    define b where "b = take (min (max 1 m) BUFFER_SIZE) (lk_responses ?lk)"
    have link: "link_busy log i k p ?lk"
      using front_invD(2) [OF inv i] busy by (simp add: links_ok_def)
    have "lk_responses ?lk = [] \<or> lk_requests ?lk = [] \<and> replied log i k p (lk_responses ?lk)"
      using link by (auto simp: link_busy_def link_idle_def)
    then have b: "b = lk_responses ?lk" and replied: "b \<noteq> [] \<Longrightarrow> lk_requests ?lk = [] \<and> replied log i k p b"
      using replied_short [OF short] m by (auto simp: b_def BUFFER_SIZE_def)
    show ?thesis
    proof (cases "b = [] \<and> lk_up ?lk")
      case True
      with step wait inv show ?thesis by (simp add: pipe_read_def Let_def b_def)
    next
      case False
      define s1 where "s1 = s\<lparr>fr_links := (fr_links s)((i, p) := ?lk\<lparr>lk_responses := []\<rparr>)\<rparr>"
      have move: "proxy_moves read_into i (BackendRead k (Some b)) s1 = (outs, s')"
        using step False unfolding pipe_read_def wait task_phase.case Let_def b_def [symmetric] s1_def
        by (simp add: b [symmetric])
      have "link_busy log i k' p (?lk\<lparr>lk_responses := []\<rparr>)"
        if "pipe_busy (px_cores (fr_proxy s) ! i) k' p" for k'
        using busy_unique [OF front_invD(1) [OF inv i] busy that] link replied b
        by (auto simp: link_busy_def link_idle_def)
      then have inv1: "front_inv log s1"
        using busy_not_quiet [OF front_invD(1) [OF inv i] busy]
        by (intro front_inv_link [OF inv, where i = i and p = p]) (auto simp: s1_def)
      have same: "l = k \<and> q = p" if "pipe_busy (px_cores (fr_proxy s) ! i) l q" "l = k" for l q
        using that busy by (simp add: pipe_busy_def)
      have none: "length data \<le> READ_BUFFER" if "BackendRead k (Some b) = ClientRead l (Some data)" for l data
        using that by simp
      have idle: "link_idle (fr_links s1 (i, q))"
        if "BackendRead k (Some b) = BackendRead l (Some data)" "data \<noteq> []"
          "i < length (px_cores (fr_proxy s1))" "pipe_busy (px_cores (fr_proxy s1) ! i) l q"
        for l data q
      proof -
        have "l = k" and "data = b"
          using that(1) by simp_all
        then have "b \<noteq> []" and "q = p"
          using that(2,4) same [of l q] unfolding s1_def by simp_all
        with replied show ?thesis
          by (simp add: s1_def link_idle_def)
      qed
      have moved: "front_inv (log @ outs) s'" "outs = [] \<or> (\<exists>out. outs = [out])"
        by (rule proxy_moves_inv(1,2) [OF inv1 move into]; (erule none | erule (3) idle))+
      have "replied log j l q d" if "Relay j (ToClient l q d) \<in> set outs"
      proof -
        have "j = i \<and> (\<exists>data. BackendRead k (Some b) = BackendRead l (Some data) \<and> data \<noteq> [] \<and> d = take BUFFER_SIZE data) \<and>
            i < length (px_cores (fr_proxy s1)) \<and> pipe_busy (px_cores (fr_proxy s1) ! i) l q"
          by (rule proxy_moves_inv(3) [OF inv1 move into _ _ that]; (erule none | erule (3) idle))
        then have "j = i" "l = k" "b \<noteq> []" "d = take BUFFER_SIZE b" "pipe_busy (px_cores (fr_proxy s) ! i) l q"
          by (auto simp: s1_def)
        moreover from this same have "q = p" by simp
        moreover have "length b \<le> BUFFER_SIZE"
          using replied replied_short [OF short] by (cases "b = []") auto
        ultimately show ?thesis
          using replied by simp
      qed
      with moved(1,2) show ?thesis by blast
    qed
  qed
  then show "front_inv (log @ outs) s'" and "outs = [] \<or> (\<exists>out. outs = [out])"
    and "Relay j (ToClient l q d) \<in> set outs \<Longrightarrow> replied log j l q d"
    by auto
qed

section \<open>Every client gets its own answer\<close>

text \<open>
  The conditions under which reads and messages coincide: a request fits the server's buffer, each
  side's read finds all that the other has written, and the error messages of the system are short.
\<close>

fun whole :: "front_event \<Rightarrow> bool" where
  "whole (ProxyEvent i ev) \<longleftrightarrow> (case ev of ClientRead k (Some d) \<Rightarrow> length d \<le> READ_BUFFER | _ \<Rightarrow> True)"
| "whole (PipeRead i k m) \<longleftrightarrow> BUFFER_SIZE \<le> m"
| "whole (ServerTurn i p n env write_ok) \<longleftrightarrow> READ_BUFFER \<le> n \<and> short_errors env"
| "whole (OtherClient env rd write_ok) \<longleftrightarrow> short_errors env"
| "whole (PipeReadErr i k) \<longleftrightarrow> True"

text \<open>Then every answer fits the proxy's buffer.\<close>

lemma short_answers_append [simp]:
  "short_answers [] \<longleftrightarrow> True" "short_answers (log @ log') \<longleftrightarrow> short_answers log \<and> short_answers log'"
  "short_answers (map (\<lambda>(j, out). Relay j out) os)"
  by (auto simp: short_answers_def)

lemma proxy_moves_db:
  "proxy_moves read_into i ev s = (outs, s') \<Longrightarrow> fr_db s' = fr_db s \<and> short_answers outs"
  by (auto simp: proxy_moves_def split: prod.splits)

lemma front_step_short [step_inv]:
  assumes "small_store (fr_db s)" and "whole e" and "front_step read_into e s = (outs, s')"
  shows "small_store (fr_db s') \<and> short_answers outs"
proof (cases e)
  case (ProxyEvent i ev)
  with assms proxy_moves_db [of read_into i ev s outs s'] show ?thesis
    by (cases "\<exists>k res. ev = BackendRead k res") (auto split: core_event.splits)
next
  case (PipeRead i k m)
  with assms show ?thesis
    by (auto simp: pipe_read_def Let_def dest!: proxy_moves_db split: task_phase.splits if_splits)
next
  case (PipeReadErr i k)
  with assms show ?thesis by (auto dest!: proxy_moves_db)
next
  case (ServerTurn i p n env write_ok)
  let ?d = "take (min (max 1 n) READ_BUFFER) (lk_requests (fr_links s (i, p)))"
  obtain rs ex st where read: "serve_read env (ReadBytes ?d) write_ok (fr_db s) = (rs, ex, st)"
    by (metis prod.collapse)
  have env: "short_errors env"
    using ServerTurn assms(2) by simp
  note serve_read_short [OF assms(1) env read]
  with ServerTurn assms(1,3) read show ?thesis
    by (auto simp: server_turn_def Let_def short_answers_def BUFFER_SIZE_def MAX_ANSWER_def split: if_splits)
next
  case (OtherClient env rd write_ok)
  obtain rs ex st where read: "serve_read env rd write_ok (fr_db s) = (rs, ex, st)"
    by (metis prod.collapse)
  have env: "short_errors env"
    using OtherClient assms(2) by simp
  from serve_read_short [OF assms(1) env read] OtherClient assms(3) read show ?thesis
    by auto
qed

lemma front_run_short:
  "small_store (fr_db s) \<Longrightarrow> list_all whole es \<Longrightarrow> front_run read_into es s = (outs, s') \<Longrightarrow> short_answers outs"
proof (induction es arbitrary: s outs)
  case (Cons e es)
  obtain os s1 where step: "front_step read_into e s = (os, s1)" by fastforce
  moreover obtain os' where "front_run read_into es s1 = (os', s')" and "outs = os @ os'"
    using Cons.prems(3) by (auto simp: step split: prod.splits)
  ultimately show ?case
    using Cons.prems(1,2) Cons.IH [of s1] front_step_short [OF Cons.prems(1) _ step] by simp
qed simp

definition answers_replied :: "front_output list \<Rightarrow> bool" where
  "answers_replied = each_after (\<lambda>xs out. \<forall>i k p d. out = Relay i (ToClient k p d) \<longrightarrow> replied xs i k p d)"

lemma answers_replied_append:
  assumes "answers_replied log" and "outs = [] \<or> (\<exists>out. outs = [out])"
    and "\<And>i k p d. Relay i (ToClient k p d) \<in> set outs \<Longrightarrow> replied log i k p d"
  shows "answers_replied (log @ outs)"
  using assms by (auto simp: answers_replied_def)

lemma front_inv_db: "front_inv log (s\<lparr>fr_db := st\<rparr>) \<longleftrightarrow> front_inv log s"
  by (simp add: front_inv_def)

lemma front_step_inv [step_inv]:
  assumes "front_inv log s" and "answers_replied log" and "front_step read_into e s = (outs, s')"
    and "whole e" and into: "\<And>d. read_into [] d = d" and "short_answers log"
  shows "front_inv (log @ outs) s' \<and> answers_replied (log @ outs)"
proof (cases e)
  case (ProxyEvent i ev)
  show ?thesis
  proof (cases "\<exists>k res. ev = BackendRead k res")
    case True
    with ProxyEvent assms(1-3) show ?thesis by auto
  next
    case False
    with ProxyEvent assms(3) have "proxy_moves read_into i ev s = (outs, s')"
      by (auto split: core_event.splits)
    note moved = proxy_moves_inv [OF assms(1) this into]
    have "length d \<le> READ_BUFFER" if "ev = ClientRead k (Some d)" for k d
      using assms(4) ProxyEvent that by simp
    with moved False show ?thesis
      by (blast intro: answers_replied_append [OF assms(2)])
  qed
next
  case (PipeRead i k m)
  with assms(3,4) have "pipe_read read_into i k m s = (outs, s')" and "BUFFER_SIZE \<le> m"
    by simp_all
  note pipe_read_inv [OF assms(1) this into assms(6)]
  then show ?thesis
    by (blast intro: answers_replied_append [OF assms(2)])
next
  case (PipeReadErr i k)
  with assms(3) have "proxy_moves read_into i (BackendRead k None) s = (outs, s')"
    by simp
  note moved = proxy_moves_inv [OF assms(1) this into]
  then show ?thesis
    by (blast intro: answers_replied_append [OF assms(2)])
next
  case (ServerTurn i p n env write_ok)
  with assms(3,4) have "server_turn i p n env write_ok s = (outs, s')" and "READ_BUFFER \<le> n"
    by simp_all
  from server_turn_inv [OF assms(1) this] assms(2) show ?thesis
    by (auto intro!: answers_replied_append)
next
  case (OtherClient env rd write_ok)
  with assms(1-3) show ?thesis by (auto simp: front_inv_db)
qed

lemma front_run_inv:
  assumes "front_inv log s" and "answers_replied log" and "front_run read_into es s = (outs, s')"
    and "list_all whole es" and "\<And>d. read_into [] d = d" and "short_answers (log @ outs)"
  shows "answers_replied (log @ outs)"
  using assms(1-4,6)
proof (induction es arbitrary: s log outs)
  case (Cons e es)
  obtain os s1 where step: "front_step read_into e s = (os, s1)" by fastforce
  obtain os' where run: "front_run read_into es s1 = (os', s')" and outs: "outs = os @ os'"
    using Cons.prems(3) by (auto simp: step split: prod.splits)
  have "short_answers log"
    using Cons.prems(5) by (auto simp: short_answers_def)
  then have "front_inv (log @ os) s1 \<and> answers_replied (log @ os)"
    using front_step_inv [OF Cons.prems(1,2) step _ assms(5)] Cons.prems(4) by simp
  with Cons.IH [OF _ _ run, of "log @ os"] Cons.prems(4,5) show ?case
    by (simp add: outs)
qed simp

lemma front_inv_new: "front_inv [] (front_new n st)"
  by (auto simp: front_inv_def front_new_def proxy_new_def core_inv_new links_ok_def link_busy_def link_idle_def
      fresh_link_def)

text \<open>
  C8: the proxy and the server together, as long as reads and messages coincide. Whatever the
  interleaving of cores, tasks, server threads and other clients, whatever they store, whatever
  fails, and however often a pipe is reused, from a store whose values fit one answer: the bytes a
  client is sent are the answer the server wrote to that client's own request, and between the
  request and the answer nothing else passes on the pipe.
\<close>

theorem pipe_answers_match:
  assumes "front_run read_into es (front_new n st) = (outs, s)" and "\<And>d. read_into [] d = d"
    and "list_all whole es" and "small_store st" and "outs = xs @ Relay i (ToClient k p d) # ys"
  shows "\<exists>zs q. filter (about (i, p)) xs = zs @ [Relay i (ToBackend k p q), Answered i p q d]"
proof -
  have "answers_replied []"
    by (simp add: answers_replied_def)
  moreover have "short_answers outs"
    by (rule front_run_short [OF _ assms(3,1)]) (simp add: front_new_def assms(4))
  ultimately have "answers_replied outs"
    using front_run_inv [OF front_inv_new _ assms(1,3,2)] by simp
  then show ?thesis
    using assms(5) unfolding answers_replied_def replied_def by (auto dest: each_afterD)
qed

section \<open>A long request\<close>

text \<open>
  Two clients, one after the other, on one core and so on one pipe. The first sends a request longer
  than the server's buffer; the server's thread reads it in two turns and answers both.
\<close>

definition two_on_a_pipe :: "bytes \<Rightarrow> bytes \<Rightarrow> front_event list" where
  "two_on_a_pipe q1 q2 =
     [ProxyEvent 0 AcceptOk, ProxyEvent 0 (FirstPoll 0), ProxyEvent 0 (ConnectDone 0 True),
      ProxyEvent 0 (ClientRead 0 (Some q1)), ProxyEvent 0 (BackendWritten 0 True),
      ServerTurn 0 0 1024 calm True, PipeRead 0 0 4096, ProxyEvent 0 (ClientWritten 0 True),
      ServerTurn 0 0 1024 calm True,
      ProxyEvent 0 AcceptOk, ProxyEvent 0 (FirstPoll 1), ProxyEvent 0 (ClientRead 1 (Some q2)),
      ProxyEvent 0 (BackendWritten 1 True), PipeRead 0 1 4096]"

lemmas front_simps = front_new_def proxy_new_def core_new_def proxy_moves_def proxy_step_def task_at_def
  waiting_task_def pipe_read_def server_turn_def fresh_link_def

text \<open>
  C21: a request of more than 512 bytes puts the answers out of step. The server answers its two
  parts; the proxy relays the first answer, pools the pipe with the second one in it, and gives it
  to the next client of the pipe, before the server has even read that client's request.
\<close>

theorem long_request_shifts_answers:
  assumes "\<And>d. read_into [] d = d" and "512 < length q1" and "length q1 \<le> 1024" and "0 < length q2" and "length q2 \<le> 4096"
    and "serve_read calm (ReadBytes (take 512 q1)) True st = ([r1], None, st1)"
    and "serve_read calm (ReadBytes (drop 512 q1)) True st1 = ([r2], None, st2)"
    and "length (utf8_encode r1) \<in> {1..4096}" and "length (utf8_encode r2) \<in> {1..4096}"
  shows "fst (front_run read_into (two_on_a_pipe q1 q2) (front_new 1 st)) =
     [Relay 0 (ToBackend 0 0 q1), Answered 0 0 (take 512 q1) (utf8_encode r1),
      Relay 0 (ToClient 0 0 (utf8_encode r1)), Answered 0 0 (drop 512 q1) (utf8_encode r2),
      Relay 0 (ToBackend 1 0 q2), Relay 0 (ToClient 1 0 (utf8_encode r2))]"
proof -
  have nonempty: "q1 \<noteq> []" "q2 \<noteq> []" "utf8_encode r1 \<noteq> []" "utf8_encode r2 \<noteq> []" "\<not> length q1 \<le> 512"
    using assms by auto
  show ?thesis
    using assms nonempty
    by (simp add: two_on_a_pipe_def front_simps task_defs set_task_def clear_def Let_def BUFFER_SIZE_def READ_BUFFER_def
        MAX_HOT_PIPES_def)
qed

definition ping :: ustring where "ping = ascii ''PING''"
definition long_ping :: ustring where "long_ping = ping @ replicate 508 32"

lemma ping_words: "is_word ping" "to_uppercase ping = kw_PING"
  by (simp_all add: ping_def is_word_def is_whitespace_def to_uppercase_def upper_char_def kw_PING_def ascii_def)

lemma parse_ping: "parse ping = Some CmdPing" "parse long_ping = Some CmdPing"
proof -
  have "split_whitespace long_ping = [ping]"
    using words_from_trailing [of "replicate 508 32" "[]" ping] split_whitespace_word [OF ping_words(1)]
    by (simp add: long_ping_def split_whitespace_def is_whitespace_def)
  then show "parse ping = Some CmdPing" "parse long_ping = Some CmdPing"
    using ping_words(2) split_whitespace_word [OF ping_words(1)] keywords_differ
    by (auto simp: parse_split)
qed

lemma ping_bytes: "utf8_encode ping = [80, 73, 78, 71]" "length (utf8_encode long_ping) = 512"
    "list_all is_scalar ping" "list_all is_scalar long_ping"
proof -
  have pad: "utf8_encode (replicate n 32) = replicate n 32" for n
    by (induction n) (simp_all add: utf8_encode_def utf8_encode_char_def)
  show p: "utf8_encode ping = [80, 73, 78, 71]"
    by (simp add: ping_def ascii_def utf8_encode_def utf8_encode_char_def)
  show "length (utf8_encode long_ping) = 512"
    by (simp add: long_ping_def utf8_encode_append p pad)
  show "list_all is_scalar ping" "list_all is_scalar long_ping"
    by (simp_all add: long_ping_def ping_def ascii_def is_scalar_def list_all_iff)
qed

lemma serve_ping:
  assumes "parse t = Some CmdPing" and "list_all is_scalar t" and "0 < length (utf8_encode t)" and "length (utf8_encode t) \<le> 512"
  shows "serve_read calm (ReadBytes (utf8_encode t)) True st = ([reply ''PONG''], None, st)"
  using assms by (auto simp: serve_read_def READ_BUFFER_def Let_def exec_command_def)

lemma pong_bytes: "utf8_encode (reply ''PONG'') = [80, 79, 78, 71, 10]"
  by (simp add: reply_def ascii_def utf8_encode_def utf8_encode_char_def)

theorem pipe_answers_match_witness:
  "\<exists>outs s zs q. front_run (\<lambda>_ d. d) (two_on_a_pipe [80, 73, 78, 71] [80, 73, 78, 71]) (front_new 1 (engine_start rev_order)) = (outs, s) \<and>
     Relay 0 (ToClient 0 0 [80, 79, 78, 71, 10]) \<in> set outs \<and>
     filter (about (0, 0)) (take 2 outs) = zs @ [Relay 0 (ToBackend 0 0 q), Answered 0 0 q [80, 79, 78, 71, 10]]"
proof -
  let ?st = "engine_start rev_order"
  have serve: "serve_read calm (ReadBytes [80, 73, 78, 71]) True ?st = ([reply ''PONG''], None, ?st)"
    using serve_ping [OF parse_ping(1) ping_bytes(3), of ?st] by (simp add: ping_bytes(1))
  obtain outs s where run: "front_run (\<lambda>_ d. d) (two_on_a_pipe [80, 73, 78, 71] [80, 73, 78, 71]) (front_new 1 ?st) = (outs, s)"
      and outs: "outs = [Relay 0 (ToBackend 0 0 [80, 73, 78, 71]), Answered 0 0 [80, 73, 78, 71] [80, 79, 78, 71, 10]]
        @ Relay 0 (ToClient 0 0 [80, 79, 78, 71, 10]) # [Relay 0 (ToBackend 1 0 [80, 73, 78, 71])]"
    using serve pong_bytes
    by (simp add: two_on_a_pipe_def front_simps task_defs set_task_def clear_def Let_def BUFFER_SIZE_def READ_BUFFER_def
        MAX_HOT_PIPES_def)
  moreover have "list_all whole (two_on_a_pipe [80, 73, 78, 71] [80, 73, 78, 71])"
    by (simp add: two_on_a_pipe_def BUFFER_SIZE_def READ_BUFFER_def)
  ultimately obtain zs q where "filter (about (0, 0))
      [Relay 0 (ToBackend 0 0 [80, 73, 78, 71]), Answered 0 0 [80, 73, 78, 71] [80, 79, 78, 71, 10]] =
      zs @ [Relay 0 (ToBackend 0 0 q), Answered 0 0 q [80, 79, 78, 71, 10]]"
    using pipe_answers_match [of "\<lambda>_ d. d", OF _ refl _ small_start] by blast
  with run outs show ?thesis by auto
qed

theorem long_request_shifts_answers_witness:
  "\<exists>q1 q2. q1 = utf8_encode long_ping @ utf8_encode ping \<and> q2 = utf8_encode (ascii ''GET a'') \<and>
     last (fst (front_run (\<lambda>_ d. d) (two_on_a_pipe q1 q2) (front_new 1 (engine_start rev_order)))) =
       Relay 0 (ToClient 1 0 (utf8_encode (reply ''PONG'')))"
proof -
  let ?q1 = "utf8_encode long_ping @ utf8_encode ping" and ?q2 = "utf8_encode (ascii ''GET a'')"
  have q2: "0 < length ?q2" "length ?q2 \<le> 4096"
    by (simp_all add: ascii_def utf8_encode_def utf8_encode_char_def)
  have q1: "512 < length ?q1" "length ?q1 \<le> 1024" "take 512 ?q1 = utf8_encode long_ping" "drop 512 ?q1 = utf8_encode ping"
    by (simp_all add: ping_bytes(1,2))
  have "serve_read calm (ReadBytes (take 512 ?q1)) True st = ([reply ''PONG''], None, st)"
      and "serve_read calm (ReadBytes (drop 512 ?q1)) True st = ([reply ''PONG''], None, st)" for st
    unfolding q1(3,4) by (rule serve_ping; simp add: parse_ping ping_bytes)+
  note run = long_request_shifts_answers [OF refl q1(1,2) q2 this]
  show ?thesis
    by (subst ex_comm, intro exI conjI, rule refl, rule refl, subst run) (simp_all add: pong_bytes)
qed

end
