(* ===== verification/Aegis_Ops.thy ===== *)
theory Aegis_Ops
  imports Aegis_Proxy Rust_Text Stroke_Event
begin

text \<open>
  The operational edges of AEGIS and CELER: the handshake that passes the file descriptor of
  the ring (the retry loop of AEGIS, the receipt by CELER), the Prometheus endpoint on the shared
  counters, and the ticker of the terminal.
\<close>

section \<open>The handshake\<close>

text \<open>
  The connection attempts as they turn out; the result is the number of failed attempts and the
  warnings logged (each with the number of attempts so far), or \<^const>\<open>None\<close> while it still retries.
  The counter is a number here and an \<^verbatim>\<open>i32\<close> in the code: with two seconds between the attempts the
  difference shows after more than a hundred years.
\<close>

fun handshake_loop :: "nat \<Rightarrow> nat list \<Rightarrow> bool list \<Rightarrow> (nat \<times> nat list) option" where
  "handshake_loop intentos warnings [] = None"
| "handshake_loop intentos warnings (connected # attempts) =
     (if connected then Some (intentos, warnings)
      else
        (let intentos' = intentos + 1;
             warnings' = (if intentos' mod 5 = 0 then warnings @ [intentos'] else warnings) in
         handshake_loop intentos' warnings' attempts))"

definition aegis_handshake :: "bool list \<Rightarrow> (nat \<times> nat list) option" where
  "aegis_handshake attempts = handshake_loop 0 [] attempts"

definition every_fifth :: "nat \<Rightarrow> nat list" where
  "every_fifth n = filter (\<lambda>i. i mod 5 = 0) [1..<Suc n]"

lemma every_fifth_Suc: "every_fifth (Suc n) = every_fifth n @ (if Suc n mod 5 = 0 then [Suc n] else [])"
  by (simp add: every_fifth_def)

lemma handshake_loop_fails:
  "handshake_loop n (every_fifth n) (replicate k False @ rest) = handshake_loop (n + k) (every_fifth (n + k)) rest"
proof (induction k arbitrary: n)
  case (Suc k)
  have "handshake_loop n (every_fifth n) (replicate (Suc k) False @ rest) =
      handshake_loop (Suc n) (every_fifth (Suc n)) (replicate k False @ rest)"
    by (simp add: every_fifth_Suc Let_def)
  with Suc [of "Suc n"] show ?case by simp
qed simp

text \<open>
  The handshake waits as long as it takes: it succeeds at the first attempt that connects,
  whatever the number of failures before, with one warning for every fifth failure.
\<close>

lemma aegis_handshake_connects:
  "aegis_handshake (replicate k False @ True # rest) = Some (k, every_fifth k)"
  "aegis_handshake (replicate k False) = None"
  using handshake_loop_fails [of 0 k "True # rest"] handshake_loop_fails [of 0 k "[]"]
  by (simp_all add: aegis_handshake_def every_fifth_def)

text \<open>
  CELER takes the first control message if it is a list of rights, and the first descriptor of
  it; otherwise it goes on with the descriptor \<open>-1\<close>. (An empty list of rights panics.)
\<close>

datatype control_message = ScmRights "int list" | OtherControl

definition receive_fd :: "control_message list \<Rightarrow> int option" where
  "receive_fd cmsgs =
     (case cmsgs of
        ScmRights fds # _ \<Rightarrow> (case fds of [] \<Rightarrow> None | fd # _ \<Rightarrow> Some fd)
      | _ \<Rightarrow> Some (-1))"

definition send_fd :: "int \<Rightarrow> control_message list" where
  "send_fd raw_fd = [ScmRights [raw_fd]]"

lemma fd_passes: "receive_fd (send_fd fd) = Some fd"
  by (simp add: receive_fd_def send_fd_def)

section \<open>The metrics endpoint\<close>

definition crlf :: ustring where "crlf = [13, 10]"
definition lf :: ustring where "lf = [10]"

definition metrics_response :: "telemetry \<Rightarrow> ustring" where
  "metrics_response tele =
     (let conns = active_connections tele; sent = total_bytes tele; reqs = total_requests tele in
      ascii ''HTTP/1.1 200 OK'' @ crlf
      @ ascii ''Content-Type: text/plain; version=0.0.4'' @ crlf
      @ ascii ''Connection: close'' @ crlf @ crlf
      @ ascii ''# HELP aegis_active_connections Numero de conexiones activas'' @ lf
      @ ascii ''# TYPE aegis_active_connections gauge'' @ lf
      @ ascii ''aegis_active_connections '' @ show_dec (unat conns) @ lf
      @ ascii ''# HELP aegis_total_bytes Total de bytes'' @ lf
      @ ascii ''# TYPE aegis_total_bytes counter'' @ lf
      @ ascii ''aegis_total_bytes '' @ show_dec (unat sent) @ lf
      @ ascii ''# HELP aegis_total_requests Total de peticiones completadas'' @ lf
      @ ascii ''# TYPE aegis_total_requests counter'' @ lf
      @ ascii ''aegis_total_requests '' @ show_dec (unat reqs) @ lf)"

text \<open>
  A scraper, as the text exposition format prescribes: skip the header up to the empty line,
  drop the comment lines, and read a name, a space and a decimal number off each other line.
\<close>

fun text_lines :: "ustring \<Rightarrow> ustring \<Rightarrow> ustring list" where
  "text_lines acc [] = (if acc = [] then [] else [acc])"
| "text_lines acc (c # t) = (if c = 10 then acc # text_lines [] t else text_lines (acc @ [c]) t)"

definition scrape_line :: "ustring \<Rightarrow> (ustring \<times> nat) option" where
  "scrape_line l = (if l = [] \<or> hd l = 35 then None
     else map_option (\<lambda>(name, v). (name, read_dec v)) (split_once 0x20 l))"

definition scrape :: "ustring \<Rightarrow> (ustring \<times> nat) list" where
  "scrape response =
     List.map_filter scrape_line (tl (dropWhile (\<lambda>l. l \<noteq> [13]) (text_lines [] response)))"

lemma text_lines_line: "10 \<notin> set l \<Longrightarrow> text_lines acc (l @ lf @ t) = (acc @ l) # text_lines [] t"
  by (induction l arbitrary: acc) (auto simp: lf_def)

lemma text_lines_crlf: "10 \<notin> set l \<Longrightarrow> text_lines [] (l @ crlf @ t) = (l @ [13]) # text_lines [] t"
  using text_lines_line [of "l @ [13]" "[]" t] by (simp add: crlf_def lf_def)

lemma text_lines_blank: "text_lines [] (crlf @ t) = [13] # text_lines [] t"
  using text_lines_crlf [of "[]" t] by simp

lemma show_dec_no_lf: "10 \<notin> set (show_dec n)"
  using show_dec_digits [of 10 n] by auto

lemma scrape_value: "32 \<notin> set name \<Longrightarrow> name \<noteq> [] \<Longrightarrow> hd name \<noteq> 35 \<Longrightarrow>
   scrape_line (name @ 32 # show_dec n) = Some (name, n)"
  by (simp add: scrape_line_def split_once_append)

lemma metric_lines:
  "text_lines [] (ascii name @ show_dec n @ lf @ t) = (ascii name @ show_dec n) # text_lines [] t"
  if "10 \<notin> set (ascii name)"
  using text_lines_line [of "ascii name @ show_dec n" "[]" t] that show_dec_no_lf by simp

text \<open>
  The metrics endpoint is read back exactly. Scraping a response gives the three metrics
  by name, each with the value of its counter, whatever the counters hold.
\<close>

lemma metrics_scrape:
  "scrape (metrics_response tele) =
     [(ascii ''aegis_active_connections'', unat (active_connections tele)),
      (ascii ''aegis_total_bytes'', unat (total_bytes tele)),
      (ascii ''aegis_total_requests'', unat (total_requests tele))]"
proof -
  have names: "10 \<notin> set (ascii ''HTTP/1.1 200 OK'')" "10 \<notin> set (ascii ''Content-Type: text/plain; version=0.0.4'')"
    "10 \<notin> set (ascii ''Connection: close'')" "10 \<notin> set (ascii ''# HELP aegis_active_connections Numero de conexiones activas'')"
    "10 \<notin> set (ascii ''# TYPE aegis_active_connections gauge'')" "10 \<notin> set (ascii ''aegis_active_connections '')"
    "10 \<notin> set (ascii ''# HELP aegis_total_bytes Total de bytes'')" "10 \<notin> set (ascii ''# TYPE aegis_total_bytes counter'')"
    "10 \<notin> set (ascii ''aegis_total_bytes '')" "10 \<notin> set (ascii ''# HELP aegis_total_requests Total de peticiones completadas'')"
    "10 \<notin> set (ascii ''# TYPE aegis_total_requests counter'')" "10 \<notin> set (ascii ''aegis_total_requests '')"
    by (simp_all add: ascii_def)
  have comments: "scrape_line (ascii (CHR ''#'' # s)) = None" for s
    by (simp add: scrape_line_def ascii_def)
  have vals: "scrape_line (ascii ''aegis_active_connections '' @ show_dec n) = Some (ascii ''aegis_active_connections'', n)"
    "scrape_line (ascii ''aegis_total_bytes '' @ show_dec n) = Some (ascii ''aegis_total_bytes'', n)"
    "scrape_line (ascii ''aegis_total_requests '' @ show_dec n) = Some (ascii ''aegis_total_requests'', n)" for n
    using scrape_value [of "ascii ''aegis_active_connections''" n] scrape_value [of "ascii ''aegis_total_bytes''" n]
      scrape_value [of "ascii ''aegis_total_requests''" n] by (simp_all add: ascii_def)
  have header: "ascii (c # s) \<noteq> []" for c s
    by (simp add: ascii_def)
  have last_line: "text_lines [] (ascii ''aegis_total_requests '' @ show_dec n @ lf) = [ascii ''aegis_total_requests '' @ show_dec n]" for n
    using metric_lines [of "''aegis_total_requests ''" n "[]"] names by simp
  show ?thesis
    unfolding scrape_def metrics_response_def Let_def append_assoc
    by (simp add: text_lines_crlf text_lines_blank text_lines_line metric_lines last_line names header List.map_filter_simps
        comments vals)
qed

section \<open>The ticker\<close>

text \<open>One tick logs unless nothing has happened; the traffic in MiB is the bytes over \<open>2 ^ 20\<close>.\<close>

definition hud_tick :: "telemetry \<Rightarrow> (usize \<times> usize) option" where
  "hud_tick tele =
     (let conns = active_connections tele; sent = total_bytes tele in
      if 0 < conns \<or> 0 < sent then Some (conns, sent) else None)"

end
