(* ===== verification/Ring_Memory.thy ===== *)
theory Ring_Memory
  imports Shared_Ring
begin

text \<open>
  The ring as the bytes of the file the two processes map. \<^verbatim>\<open>SharedRing\<close> is a pointer into that file:
  the counters are eight little-endian bytes each, a slot the 64 bytes of an event, and where they lie
  is what the \<^verbatim>\<open>repr(C)\<close> layout says. Nobody initialises the ring, the file is all zeros. The
  operations are those of \<open>Shared_Ring\<close>, on these bytes, and refine them.
\<close>

section \<open>The fields of the ring\<close>

definition head_offset :: nat where "head_offset = repr_c_offsets 0 shared_ring_fields ! 0"
definition tail_offset :: nat where "tail_offset = repr_c_offsets 0 shared_ring_fields ! 1"

definition slot_offset :: "nat \<Rightarrow> nat" where
  "slot_offset i = repr_c_offsets 0 shared_ring_fields ! 2 + stroke_event_size * i"

lemma ring_size: "shared_ring_size = 128 + 64 * capacity" "slot_offset j = 128 + 64 * j"
  by (simp_all add: slot_offset_def layout_defs)

lemma counter_offsets: "head_offset = 0" "tail_offset = 64"
  by (simp_all add: head_offset_def tail_offset_def layout_defs)

lemma counters_apart [simp]: "head_offset \<noteq> tail_offset" "tail_offset \<noteq> head_offset"
  by (simp_all add: counter_offsets)

definition load_counter :: "nat \<Rightarrow> bytes \<Rightarrow> usize" where
  "load_counter off mem = of_le_bytes (get_bytes off 8 mem)"

definition store_counter :: "nat \<Rightarrow> usize \<Rightarrow> bytes \<Rightarrow> bytes" where
  "store_counter off w mem = put_bytes off (le_bytes 8 w) mem"

definition slot_bytes :: "nat \<Rightarrow> bytes \<Rightarrow> bytes" where
  "slot_bytes i mem = get_bytes (slot_offset i) stroke_event_size mem"

definition write_slot :: "nat \<Rightarrow> stroke_event \<Rightarrow> bytes \<Rightarrow> bytes" where
  "write_slot i e mem = put_bytes (slot_offset i) (store_event e (slot_bytes i mem)) mem"

section \<open>Push and pop\<close>

definition mem_push_commit ::
    "usize \<Rightarrow> stroke_event \<Rightarrow> aegis_producer \<Rightarrow> bytes \<Rightarrow> ring_fault + push_result \<times> aegis_producer \<times> bytes" where
  "mem_push_commit current_head event self mem =
     (let index = unat (current_head AND INDEX_MASK) in
      if index < unat RING_CAPACITY
      then Inr (Inr (), self, store_counter head_offset (current_head + 1) (write_slot index event mem))
      else Inl (IndexOutOfBounds index))"

definition mem_push ::
    "stroke_event \<Rightarrow> aegis_producer \<Rightarrow> bytes \<Rightarrow> ring_fault + push_result \<times> aegis_producer \<times> bytes" where
  "mem_push event self mem =
     (let current_head = load_counter head_offset mem in
      if RING_CAPACITY \<le> current_head - cached_tail self then
        (let self' = self\<lparr>cached_tail := load_counter tail_offset mem\<rparr> in
         if RING_CAPACITY \<le> current_head - cached_tail self'
         then Inr (Inl queue_full, self', mem)
         else mem_push_commit current_head event self' mem)
      else mem_push_commit current_head event self mem)"

definition mem_pop_commit ::
    "usize \<Rightarrow> celer_consumer \<Rightarrow> bytes \<Rightarrow> ring_fault + stroke_event option \<times> celer_consumer \<times> bytes" where
  "mem_pop_commit current_tail self mem =
     (let index = unat (current_tail AND INDEX_MASK) in
      if index < unat RING_CAPACITY
      then Inr (Some (load_event (slot_bytes index mem)), self, store_counter tail_offset (current_tail + 1) mem)
      else Inl (IndexOutOfBounds index))"

definition mem_pop :: "celer_consumer \<Rightarrow> bytes \<Rightarrow> ring_fault + stroke_event option \<times> celer_consumer \<times> bytes" where
  "mem_pop self mem =
     (let current_tail = load_counter tail_offset mem in
      if cached_head self - current_tail = 0 then
        (let self' = self\<lparr>cached_head := load_counter head_offset mem\<rparr> in
         if cached_head self' - current_tail = 0 then Inr (None, self', mem)
         else mem_pop_commit current_tail self' mem)
      else mem_pop_commit current_tail self mem)"

lemmas mem_defs [handle_defs] = mem_push_def mem_push_commit_def mem_pop_def mem_pop_commit_def

section \<open>Disjoint ranges\<close>

lemma get_put_after:
  "off' + length bs \<le> off \<Longrightarrow> off' + length bs \<le> length mem \<Longrightarrow>
   get_bytes off n (put_bytes off' bs mem) = get_bytes off n mem"
  by (simp add: get_bytes_def put_bytes_def)

lemma get_put_disjoint:
  assumes "off' + length bs \<le> off \<or> off + n \<le> off'" and "off' + length bs \<le> length mem"
  shows "get_bytes off n (put_bytes off' bs mem) = get_bytes off n mem"
  using assms get_put_after get_put_before by blast

lemma length_store_event:
  "wf_event e \<Longrightarrow> length mem = stroke_event_size \<Longrightarrow> length (store_event e mem) = stroke_event_size"
  by (simp add: wf_event_def store_event_def stroke_event_offsets field_bytes_def length_put_bytes)

text \<open>A slot within the file, and what writing it and the counters does to the rest.\<close>

lemma slot_range:
  assumes "length mem = shared_ring_size" and "i < capacity"
  shows "128 \<le> slot_offset i" and "slot_offset i + stroke_event_size \<le> length mem"
    and "length (slot_bytes i mem) = stroke_event_size"
proof -
  show "128 \<le> slot_offset i" and "slot_offset i + stroke_event_size \<le> length mem"
    using assms by (simp_all add: ring_size)
  then show "length (slot_bytes i mem) = stroke_event_size"
    by (simp add: slot_bytes_def get_bytes_def)
qed

lemma write_slot_facts:
  assumes "length mem = shared_ring_size" and "i < capacity" and "wf_event e"
  shows "length (write_slot i e mem) = shared_ring_size"
    and "load_event (slot_bytes i (write_slot i e mem)) = e"
    and "j < capacity \<Longrightarrow> j \<noteq> i \<Longrightarrow> slot_bytes j (write_slot i e mem) = slot_bytes j mem"
    and "load_counter head_offset (write_slot i e mem) = load_counter head_offset mem"
    and "load_counter tail_offset (write_slot i e mem) = load_counter tail_offset mem"
proof -
  note range = slot_range [OF assms(1,2)]
  let ?bs = "store_event e (slot_bytes i mem)"
  have len: "length ?bs = stroke_event_size"
    using length_store_event [OF assms(3) range(3)] .
  have fits: "slot_offset i + length ?bs \<le> length mem"
    using range(2) len by simp
  show "length (write_slot i e mem) = shared_ring_size"
    using length_put_bytes [OF fits] assms(1) by (simp add: write_slot_def)
  have "slot_bytes i (write_slot i e mem) = ?bs"
    using get_put_same [OF range(2) len] by (simp add: slot_bytes_def write_slot_def)
  then show "load_event (slot_bytes i (write_slot i e mem)) = e"
    using load_store_event [OF assms(3) range(3)] by simp
  show "slot_bytes j (write_slot i e mem) = slot_bytes j mem" if "j < capacity" "j \<noteq> i"
  proof -
    have "slot_offset i + length ?bs \<le> slot_offset j \<or> slot_offset j + stroke_event_size \<le> slot_offset i"
      using that(2) unfolding len ring_size stroke_event_size_64 by linarith
    from get_put_disjoint [OF this fits] show ?thesis
      by (simp add: slot_bytes_def write_slot_def)
  qed
  have "get_bytes off 8 (write_slot i e mem) = get_bytes off 8 mem" if "off \<le> 120" for off
    using that range(1) get_put_disjoint [OF _ fits, of off 8] by (simp add: write_slot_def)
  then show "load_counter head_offset (write_slot i e mem) = load_counter head_offset mem"
    and "load_counter tail_offset (write_slot i e mem) = load_counter tail_offset mem"
    by (simp_all add: load_counter_def counter_offsets)
qed

lemma store_counter_facts:
  assumes "length mem = shared_ring_size" and "off = head_offset \<or> off = tail_offset"
  shows "length (store_counter off w mem) = shared_ring_size"
    and "load_counter off (store_counter off w mem) = w"
    and "j < capacity \<Longrightarrow> slot_bytes j (store_counter off w mem) = slot_bytes j mem"
    and "off' = head_offset \<or> off' = tail_offset \<Longrightarrow> off' \<noteq> off \<Longrightarrow>
      load_counter off' (store_counter off w mem) = load_counter off' mem"
proof -
  have small: "off + 8 \<le> 72" and fits: "off + length (le_bytes 8 w) \<le> length mem"
    using assms by (auto simp: counter_offsets ring_size)
  show "length (store_counter off w mem) = shared_ring_size"
    using length_put_bytes [OF fits] assms(1) by (simp add: store_counter_def)
  show "load_counter off (store_counter off w mem) = w"
    using get_put_same [of off 8 mem "le_bytes 8 w"] fits by (simp add: load_counter_def store_counter_def)
  show "slot_bytes j (store_counter off w mem) = slot_bytes j mem" if "j < capacity"
  proof -
    have "off + length (le_bytes 8 w) \<le> slot_offset j"
      using small slot_range(1) [OF assms(1) that] by simp
    with get_put_disjoint [OF _ fits] show ?thesis by (simp add: slot_bytes_def store_counter_def)
  qed
  show "load_counter off' (store_counter off w mem) = load_counter off' mem"
    if "off' = head_offset \<or> off' = tail_offset" "off' \<noteq> off"
  proof -
    have "off + length (le_bytes 8 w) \<le> off' \<or> off' + 8 \<le> off"
      using that assms(2) by (auto simp: counter_offsets)
    from get_put_disjoint [OF this fits] show ?thesis by (simp add: load_counter_def store_counter_def)
  qed
qed

section \<open>The bytes refine the ring\<close>

definition ring_in_memory :: "shared_ring \<Rightarrow> bytes \<Rightarrow> bool" where
  "ring_in_memory r mem \<longleftrightarrow> length mem = shared_ring_size \<and>
     load_counter head_offset mem = ring_head r \<and> load_counter tail_offset mem = ring_tail r \<and>
     (\<forall>i < capacity. \<forall>e. ring_events r i = Some e \<longrightarrow> load_event (slot_bytes i mem) = e)"

lemma ring_in_memory_zero: "ring_in_memory zeroed_ring (replicate shared_ring_size 0)"
  by (simp add: ring_in_memory_def zeroed_ring_def load_counter_def counter_offsets get_bytes_def ring_size)
     (simp add: numeral_eq_Suc)

lemma mem_push_commit_refines:
  assumes mem: "ring_in_memory r mem" and e: "wf_event e"
  shows "\<exists>mem'. mem_push_commit (ring_head r) e p mem = Inr (Inr (), p, mem') \<and> ring_in_memory (pushed_ring e r) mem'"
proof -
  let ?i = "slot_of (ring_head r)"
  let ?mem1 = "write_slot ?i e mem"
  let ?mem2 = "store_counter head_offset (ring_head r + 1) ?mem1"
  have len: "length mem = shared_ring_size" and i: "?i < capacity"
    using mem by (simp_all add: ring_in_memory_def)
  note slot = write_slot_facts [OF len i e] and count = store_counter_facts [OF write_slot_facts(1) [OF len i e] disjI1 [OF refl]]
  have "ring_in_memory (pushed_ring e r) ?mem2"
    using mem by (auto simp: ring_in_memory_def ring_events_pushed slot count)
  then show ?thesis
    using i by (simp add: mem_push_commit_def Let_def flip: slot_of_def capacity_def)
qed

lemma mem_push_refines:
  assumes "ring_in_memory r mem" and "wf_event e" and "push e p r = Inr (res, p', r')"
  shows "\<exists>mem'. mem_push e p mem = Inr (res, p', mem') \<and> ring_in_memory r' mem'"
proof -
  have counters: "load_counter head_offset mem = ring_head r" "load_counter tail_offset mem = ring_tail r"
    using assms(1) by (simp_all add: ring_in_memory_def)
  show ?thesis
    using assms(3) assms(1) mem_push_commit_refines [OF assms(1,2)]
    by (auto simp: mem_push_def push_def counters Let_def push_commit_eq split: if_splits)
qed

lemma mem_pop_refines:
  assumes mem: "ring_in_memory r mem" and "pop c r = Inr (res, c', r')"
  shows "\<exists>mem'. mem_pop c mem = Inr (res, c', mem') \<and> ring_in_memory r' mem'"
proof -
  have counters: "load_counter head_offset mem = ring_head r" "load_counter tail_offset mem = ring_tail r"
    and len: "length mem = shared_ring_size"
    using mem by (simp_all add: ring_in_memory_def)
  note count = store_counter_facts [OF len disjI2 [OF refl]]
  have commit: "\<exists>mem'. mem_pop_commit (ring_tail r) c2 mem = Inr (res, c', mem') \<and> ring_in_memory r' mem'"
    if "pop_commit (ring_tail r) c2 r = Inr (res, c', r')" for c2
  proof -
    let ?i = "slot_of (ring_tail r)"
    have i: "?i < capacity" by simp
    from that obtain e where e: "ring_events r ?i = Some e" "res = Some e" "c' = c2" "r' = r\<lparr>ring_tail := ring_tail r + 1\<rparr>"
      using i by (auto simp: pop_commit_def events_read_def Let_def simp flip: slot_of_def capacity_def split: option.splits sum.splits)
    have "load_event (slot_bytes ?i mem) = e"
      using mem e(1) i by (simp add: ring_in_memory_def)
    then show ?thesis
      using mem e i by (auto simp: mem_pop_commit_def Let_def ring_in_memory_def count simp flip: slot_of_def capacity_def)
  qed
  show ?thesis
    using assms(2) mem commit by (auto simp: mem_pop_def pop_def counters Let_def split: if_splits)
qed

lemma mem_script_refines:
  "ring_in_memory r mem \<Longrightarrow> \<forall>e. Push e \<in> set xs \<longrightarrow> wf_event e \<Longrightarrow> run_script push pop xs (p, c, r) = Inr (rs, p', c', r') \<Longrightarrow>
   \<exists>mem'. run_script mem_push mem_pop xs (p, c, mem) = Inr (rs, p', c', mem') \<and> ring_in_memory r' mem'"
proof (induction xs arbitrary: p c r mem rs)
  case (Cons x xs)
  obtain res p1 c1 r1 rs1 where step: "script_op push pop x (p, c, r) = Inr (res, p1, c1, r1)"
    and rest: "run_script push pop xs (p1, c1, r1) = Inr (rs1, p', c', r')" and rs: "rs = res # rs1"
    using Cons.prems(3) by (auto split: sum.splits prod.splits)
  have "\<exists>mem1. script_op mem_push mem_pop x (p, c, mem) = Inr (res, p1, c1, mem1) \<and> ring_in_memory r1 mem1"
  proof (cases x)
    case (Push e)
    with step obtain out where "push e p r = Inr (out, p1, r1)" "res = Pushed (\<not> isl out)" "c1 = c"
      by (auto split: sum.splits)
    with mem_push_refines [OF Cons.prems(1) _ this(1)] Cons.prems(2) Push show ?thesis by auto
  next
    case Pop
    with step obtain out where "pop c r = Inr (out, c1, r1)" "res = Popped out" "p1 = p"
      by (auto split: sum.splits)
    with mem_pop_refines [OF Cons.prems(1) this(1)] Pop show ?thesis by auto
  qed
  then obtain mem1 where mem1: "script_op mem_push mem_pop x (p, c, mem) = Inr (res, p1, c1, mem1)" "ring_in_memory r1 mem1"
    by blast
  obtain mem' where "run_script mem_push mem_pop xs (p1, c1, mem1) = Inr (rs1, p', c', mem')" and "ring_in_memory r' mem'"
    using Cons.IH [OF mem1(2) _ rest] Cons.prems(2) by auto
  with mem1(1) rs show ?case by simp
qed simp

text \<open>
  C40: the bytes are the channel. Take the file as AEGIS maps it, zero-filled and never initialised, and
  let push and pop work on its bytes, with counters and slots where the \<^verbatim>\<open>repr(C)\<close> layout puts them.
  Then any sequence of calls returns exactly what the bounded queue of 131072 events returns: no event
  is altered by its passage through memory, no slot overlaps another one or a counter, no call faults,
  and the file keeps its size. (The trace fields of an event have 16 and 8 bytes, as their types say.)
\<close>

theorem memory_is_bounded_queue:
  assumes "\<forall>e. Push e \<in> set xs \<longrightarrow> wf_event e"
  shows "\<exists>p c mem. run_script mem_push mem_pop xs (AegisProducer_new, CelerConsumer_new, replicate shared_ring_size 0) =
      Inr (fst (queue_script capacity xs []), p, c, mem) \<and> length mem = shared_ring_size"
proof -
  obtain p c r where "run_script push pop xs (AegisProducer_new, CelerConsumer_new, zeroed_ring) =
      Inr (fst (queue_script capacity xs []), p, c, r)"
    using ring.script_refines [OF spsc_inv_new, of xs] by auto
  from mem_script_refines [OF ring_in_memory_zero assms this] show ?thesis
    by (auto simp: ring_in_memory_def)
qed

text \<open>Two events and three pops; the events differ in their first and last bytes.\<close>

theorem memory_is_bounded_queue_witness:
  "\<exists>p c mem. run_script mem_push mem_pop [Push traced_event, Push (sample_event 7), Pop, Pop, Pop]
       (AegisProducer_new, CelerConsumer_new, replicate shared_ring_size 0) =
     Inr ([Pushed True, Pushed True, Popped (Some traced_event), Popped (Some (sample_event 7)), Popped None], p, c, mem)"
proof -
  have "\<forall>e. Push e \<in> set [Push traced_event, Push (sample_event 7), Pop, Pop, Pop] \<longrightarrow> wf_event e"
    by (auto simp: wf_event_def traced_event_def sample_event_def)
  from memory_is_bounded_queue [OF this] show ?thesis by auto
qed

end
