(* ===== verification/Ipc_Bridge.thy ===== *)
theory Ipc_Bridge
  imports Aegis_Ops Ring_Memory
begin

text \<open>
  The bridge between AEGIS and CELER: AEGIS creates an anonymous file of the size of the ring, seals
  its size, maps it and sends its descriptor over a socket; CELER receives the descriptor and maps
  the same file. The ring lies in that file, so every access is inside the mapping, and inside the
  file, exactly if the file never shrinks. The kernel is a parameter: a record of the system calls
  the two processes make, of which only what the manual pages promise is used.
\<close>

section \<open>The system calls\<close>

datatype seal = SealSeal | SealShrink | SealGrow

datatype process = Aegis | Celer | Other nat

text \<open>A mapping: the file, and the length it had when it was mapped.\<close>

type_synonym mapping = "nat \<times> nat"

text \<open>
  \<open>'k\<close> is the state of the kernel, about which nothing is known but what the last four fields tell:
  the file a descriptor of a process names, the size and the seals of a file, and whether one state
  comes out of another by system calls of any processes none of which closes a descriptor of a given set.
\<close>

record 'k kernel_api =
  ka_memfd_create :: "process \<Rightarrow> bool \<Rightarrow> 'k \<Rightarrow> (int \<times> 'k) option" \<comment> \<open>whether \<^verbatim>\<open>MFD_ALLOW_SEALING\<close> is given\<close>
  ka_ftruncate :: "process \<Rightarrow> int \<Rightarrow> nat \<Rightarrow> 'k \<Rightarrow> 'k option"
  ka_add_seals :: "process \<Rightarrow> int \<Rightarrow> seal set \<Rightarrow> 'k \<Rightarrow> 'k option"
  ka_map_mut :: "process \<Rightarrow> int \<Rightarrow> 'k \<Rightarrow> (mapping \<times> 'k) option"
  ka_pass_fd :: "process \<Rightarrow> int \<Rightarrow> process \<Rightarrow> 'k \<Rightarrow> (int \<times> 'k) option" \<comment> \<open>the number it gets in the receiver\<close>
  ka_file :: "process \<Rightarrow> int \<Rightarrow> 'k \<Rightarrow> nat option"
  ka_size :: "nat \<Rightarrow> 'k \<Rightarrow> nat"
  ka_seals :: "nat \<Rightarrow> 'k \<Rightarrow> seal set"
  ka_calls :: "(process \<times> int) set \<Rightarrow> 'k \<Rightarrow> 'k \<Rightarrow> bool"

text \<open>
  What \<^verbatim>\<open>memfd_create\<close>(2), \<^verbatim>\<open>ftruncate\<close>(2), \<^verbatim>\<open>fcntl\<close>(2), \<^verbatim>\<open>mmap\<close>(2) and \<^verbatim>\<open>unix\<close>(7) document. A new file is
  empty and has no seals if it may be sealed; a call that succeeds does what it is for to the file of
  its descriptor; a mapping covers the file as long as it is; a passed descriptor names the same file;
  descriptors are not negative. And whatever is called: seals are never taken off, a file sealed against shrinking
  does not shrink and one sealed against growing does not grow, and a descriptor nobody closes keeps its file.
\<close>

definition calls_documented :: "'k kernel_api \<Rightarrow> bool" where
  "calls_documented api \<longleftrightarrow> (\<forall>kept k k'. ka_calls api kept k k' \<longrightarrow>
     (\<forall>(pr, fd) \<in> kept. \<forall>i. ka_file api pr fd k = Some i \<longrightarrow> ka_file api pr fd k' = Some i) \<and>
     (\<forall>i. ka_seals api i k \<subseteq> ka_seals api i k' \<and>
        (SealShrink \<in> ka_seals api i k \<longrightarrow> ka_size api i k \<le> ka_size api i k') \<and>
        (SealGrow \<in> ka_seals api i k \<longrightarrow> ka_size api i k' \<le> ka_size api i k)))"

definition create_documented :: "'k kernel_api \<Rightarrow> bool" where
  "create_documented api \<longleftrightarrow> (\<forall>pr allow k fd k'. ka_memfd_create api pr allow k = Some (fd, k') \<longrightarrow>
     (\<exists>i. ka_file api pr fd k' = Some i \<and> ka_size api i k' = 0 \<and> ka_seals api i k' = (if allow then {} else {SealSeal})))"

definition truncate_documented :: "'k kernel_api \<Rightarrow> bool" where
  "truncate_documented api \<longleftrightarrow> (\<forall>pr fd n k k' i. ka_ftruncate api pr fd n k = Some k' \<longrightarrow> ka_file api pr fd k = Some i \<longrightarrow>
     ka_file api pr fd k' = Some i \<and> ka_size api i k' = n \<and> ka_seals api i k' = ka_seals api i k)"

definition seals_documented :: "'k kernel_api \<Rightarrow> bool" where
  "seals_documented api \<longleftrightarrow> (\<forall>pr fd added k k' i. ka_add_seals api pr fd added k = Some k' \<longrightarrow> ka_file api pr fd k = Some i \<longrightarrow>
     ka_file api pr fd k' = Some i \<and> ka_size api i k' = ka_size api i k \<and> ka_seals api i k' = added \<union> ka_seals api i k)"

definition map_documented :: "'k kernel_api \<Rightarrow> bool" where
  "map_documented api \<longleftrightarrow> (\<forall>pr fd k i len k'. ka_map_mut api pr fd k = Some ((i, len), k') \<longrightarrow>
     ka_file api pr fd k = Some i \<and> len = ka_size api i k \<and> ka_calls api UNIV k k')"

definition pass_documented :: "'k kernel_api \<Rightarrow> bool" where
  "pass_documented api \<longleftrightarrow> (\<forall>pr fd pr' k fd' k'. ka_pass_fd api pr fd pr' k = Some (fd', k') \<longrightarrow>
     ka_file api pr' fd' k' = ka_file api pr fd k \<and> ka_calls api UNIV k k') \<and>
     (\<forall>pr fd k. fd < 0 \<longrightarrow> ka_file api pr fd k = None)"

definition memfd_documented :: "'k kernel_api \<Rightarrow> bool" where
  "memfd_documented api \<longleftrightarrow> calls_documented api \<and> create_documented api \<and> truncate_documented api \<and>
     seals_documented api \<and> map_documented api \<and> pass_documented api"

lemmas documented_defs = create_documented_def truncate_documented_def seals_documented_def map_documented_def
  pass_documented_def

section \<open>The two ends\<close>

datatype bridge_panic =
    MemfdFails
  | TruncateFails
  | SealFails
  | MapFails
  | SocketBindFails
  | AcceptFails
  | RecvFails
  | NoDescriptor \<comment> \<open>index out of bounds on an empty list of rights\<close>

text \<open>AEGIS: the four calls in their order, each with \<^verbatim>\<open>expect\<close>.\<close>

definition aegis_bridge :: "'k kernel_api \<Rightarrow> 'k \<Rightarrow> bridge_panic + int \<times> mapping \<times> 'k" where
  "aegis_bridge api k =
     (case ka_memfd_create api Aegis True k of
        None \<Rightarrow> Inl MemfdFails
      | Some (fd, k1) \<Rightarrow>
          (let ring_size = shared_ring_size in
           case ka_ftruncate api Aegis fd ring_size k1 of
             None \<Rightarrow> Inl TruncateFails
           | Some k2 \<Rightarrow>
               (case ka_add_seals api Aegis fd {SealShrink, SealGrow} k2 of
                  None \<Rightarrow> Inl SealFails
                | Some k3 \<Rightarrow>
                    (case ka_map_mut api Aegis fd k3 of
                       None \<Rightarrow> Inl MapFails
                     | Some (celer_mmap, k4) \<Rightarrow> Inr (fd, celer_mmap, k4)))))"

text \<open>
  CELER: the control messages of the one message it receives, and the mapping of the descriptor it
  takes from them, \<open>-1\<close> if there is none. \<open>map_fd\<close> is what mapping a descriptor gives it.
\<close>

definition celer_bridge :: "control_message list option \<Rightarrow> (int \<Rightarrow> mapping option) \<Rightarrow> bridge_panic + mapping" where
  "celer_bridge msg map_fd =
     (case msg of
        None \<Rightarrow> Inl RecvFails
      | Some cmsgs \<Rightarrow>
          (case receive_fd cmsgs of
             None \<Rightarrow> Inl NoDescriptor
           | Some received_fd \<Rightarrow>
               (case map_fd received_fd of
                  None \<Rightarrow> Inl MapFails
                | Some mmap \<Rightarrow> Inr mmap)))"

abbreviation celer_maps :: "'k kernel_api \<Rightarrow> 'k \<Rightarrow> int \<Rightarrow> mapping option" where
  "celer_maps api k \<equiv> (\<lambda>fd. map_option fst (ka_map_mut api Celer fd k))"

text \<open>
  The two threads around it. CELER binds its socket and accepts one connection before it receives;
  AEGIS retries until it is connected and sends once, then drops the connection, so that CELER gets
  a message without descriptors if the sending failed.
\<close>

definition celer_ipc_start ::
    "bool \<Rightarrow> bool \<Rightarrow> control_message list option \<Rightarrow> (int \<Rightarrow> mapping option) \<Rightarrow> bridge_panic + mapping" where
  "celer_ipc_start bind_ok accept_ok msg map_fd =
     (if \<not> bind_ok then Inl SocketBindFails
      else if \<not> accept_ok then Inl AcceptFails
      else celer_bridge msg map_fd)"

definition handshake_thread ::
    "'k kernel_api \<Rightarrow> bool list \<Rightarrow> int \<Rightarrow> 'k \<Rightarrow> (control_message list \<times> 'k) option" where
  "handshake_thread api attempts raw_fd k =
     (case aegis_handshake attempts of
        None \<Rightarrow> None
      | Some _ \<Rightarrow> Some (case ka_pass_fd api Aegis raw_fd Celer k of
          Some (fd', k') \<Rightarrow> (send_fd fd', k')
        | None \<Rightarrow> ([], k)))"

section \<open>The mapping stays valid\<close>

definition sealed_ring :: "'k kernel_api \<Rightarrow> nat \<Rightarrow> 'k \<Rightarrow> bool" where
  "sealed_ring api i k \<longleftrightarrow> ka_size api i k = shared_ring_size \<and> {SealShrink, SealGrow} \<subseteq> ka_seals api i k"

lemma memfd_documentedD:
  assumes "memfd_documented api"
  shows "ka_memfd_create api pr allow k = Some (fd, k') \<Longrightarrow>
      \<exists>i. ka_file api pr fd k' = Some i \<and> ka_size api i k' = 0 \<and> ka_seals api i k' = (if allow then {} else {SealSeal})"
    and "ka_ftruncate api pr fd n k = Some k' \<Longrightarrow> ka_file api pr fd k = Some i \<Longrightarrow>
      ka_file api pr fd k' = Some i \<and> ka_size api i k' = n \<and> ka_seals api i k' = ka_seals api i k"
    and "ka_add_seals api pr fd added k = Some k' \<Longrightarrow> ka_file api pr fd k = Some i \<Longrightarrow>
      ka_file api pr fd k' = Some i \<and> ka_size api i k' = ka_size api i k \<and> ka_seals api i k' = added \<union> ka_seals api i k"
    and "ka_map_mut api pr fd k = Some ((i, len), k') \<Longrightarrow>
      ka_file api pr fd k = Some i \<and> len = ka_size api i k \<and> ka_calls api UNIV k k'"
    and "ka_pass_fd api pr fd pr' k = Some (fd', k') \<Longrightarrow>
      ka_file api pr' fd' k' = ka_file api pr fd k \<and> ka_calls api UNIV k k'"
    and "fd < 0 \<Longrightarrow> ka_file api pr fd k = None"
  using assms unfolding memfd_documented_def by (simp_all add: documented_defs)

lemma calls_keep:
  assumes "memfd_documented api" and "ka_calls api kept k k'"
  shows "sealed_ring api i k \<Longrightarrow> sealed_ring api i k'"
    and "(pr, fd) \<in> kept \<Longrightarrow> ka_file api pr fd k = Some i \<Longrightarrow> ka_file api pr fd k' = Some i"
proof -
  have law: "ka_seals api i k \<subseteq> ka_seals api i k' \<and>
      (SealShrink \<in> ka_seals api i k \<longrightarrow> ka_size api i k \<le> ka_size api i k') \<and>
      (SealGrow \<in> ka_seals api i k \<longrightarrow> ka_size api i k' \<le> ka_size api i k)"
    "\<forall>(pr, fd) \<in> kept. \<forall>i. ka_file api pr fd k = Some i \<longrightarrow> ka_file api pr fd k' = Some i" for i
    using assms unfolding memfd_documented_def calls_documented_def by blast+
  show "sealed_ring api i k \<Longrightarrow> sealed_ring api i k'"
    using law(1) [of i] by (auto simp: sealed_ring_def intro: order_antisym)
  show "(pr, fd) \<in> kept \<Longrightarrow> ka_file api pr fd k = Some i \<Longrightarrow> ka_file api pr fd k' = Some i"
    using law(2) by blast
qed

lemma aegis_bridge_seals:
  assumes doc: "memfd_documented api" and "aegis_bridge api k = Inr (fd, mmap, k')"
  shows "ka_file api Aegis fd k' = Some (fst mmap)" and "snd mmap = shared_ring_size" and "sealed_ring api (fst mmap) k'"
proof -
  obtain k1 k2 k3 where created: "ka_memfd_create api Aegis True k = Some (fd, k1)"
    and sized: "ka_ftruncate api Aegis fd shared_ring_size k1 = Some k2"
    and sealing: "ka_add_seals api Aegis fd {SealShrink, SealGrow} k2 = Some k3"
    and mapped: "ka_map_mut api Aegis fd k3 = Some (mmap, k')"
    using assms(2) by (auto simp: aegis_bridge_def split: option.splits)
  note laws = memfd_documentedD [OF doc]
  obtain i where k1: "ka_file api Aegis fd k1 = Some i"
    using laws(1) [OF created] by blast
  note k2 = laws(2) [OF sized k1]
  note k3 = laws(3) [OF sealing k2 [THEN conjunct1]]
  have i: "ka_file api Aegis fd k3 = Some i" and ring: "sealed_ring api i k3"
    using k2 k3 by (simp_all add: sealed_ring_def)
  obtain len where mmap: "mmap = (i, len)" and len: "len = ka_size api i k3" and calls: "ka_calls api UNIV k3 k'"
    using laws(4) [of Aegis fd k3 "fst mmap" "snd mmap" k'] mapped i by (cases mmap) auto
  show "ka_file api Aegis fd k' = Some (fst mmap)"
    using calls_keep(2) [OF doc calls _ i] mmap by simp
  show "snd mmap = shared_ring_size" and "sealed_ring api (fst mmap) k'"
    using ring len mmap calls_keep(1) [OF doc calls ring] by (simp_all add: sealed_ring_def)
qed

text \<open>
  CELER maps what it was sent: whatever mapping it gets is that of the ring, and the descriptor \<open>-1\<close> it is
  left with when the sending failed cannot be mapped.
\<close>

lemma celer_maps_ring:
  assumes doc: "memfd_documented api" and "sealed_ring api i k" and "ka_file api Celer fd k = Some i"
  shows "celer_maps api k fd = (if ka_map_mut api Celer fd k = None then None else Some (i, shared_ring_size))"
proof (cases "ka_map_mut api Celer fd k")
  case (Some m)
  then obtain i' len k' where m: "ka_map_mut api Celer fd k = Some ((i', len), k')"
    by (metis prod.exhaust)
  with memfd_documentedD(4) [OF doc this] assms(2,3) show ?thesis
    by (simp add: sealed_ring_def)
qed simp

lemma no_descriptor_no_map:
  assumes "memfd_documented api"
  shows "celer_maps api k (-1) = None"
proof (cases "ka_map_mut api Celer (-1) k")
  case (Some m)
  then obtain i' len k' where "ka_map_mut api Celer (-1) k = Some ((i', len), k')"
    by (metis prod.exhaust)
  from memfd_documentedD(4) [OF assms this] memfd_documentedD(6) [OF assms, of "-1" Celer k] show ?thesis
    by simp
qed simp

lemma handshake_waits: "handshake_thread api (replicate n False) raw_fd k = None"
  by (simp add: handshake_thread_def aegis_handshake_connects)

text \<open>
  C22: the two processes share one ring, and it stays. Take any kernel that keeps what the manual pages
  of its calls promise, and let AEGIS set up the bridge. Let any process call whatever it likes before
  the hand-over and again before CELER maps what it received, but for AEGIS closing its descriptor (its
  code leaks it) and CELER closing the one it received. Then, however late CELER comes up, once it has bound
  its socket and accepted the connection it gets the
  mapping of AEGIS's own file at AEGIS's own length, unless the one sending or its own mapping call
  fails, and then its thread panics. At any time after the set-up, with every descriptor closed or not,
  every slot of the ring lies inside that mapping and inside the file, so that no access of either
  process can fault.
\<close>

theorem bridge_shares_ring:
  assumes "memfd_documented api" and "aegis_bridge api k0 = Inr (fd, mmap, k1)"
    and "ka_calls api {(Aegis, fd)} k1 k2" and "handshake_thread api attempts fd k2 = Some (cmsgs, k3)"
    and "ka_calls api {(pr, fd'). pr = Celer \<and> cmsgs = send_fd fd'} k3 k4"
  shows "celer_ipc_start True True (Some cmsgs) (celer_maps api k4) =
      (case ka_pass_fd api Aegis fd Celer k2 of
         None \<Rightarrow> Inl MapFails
       | Some (fd', _) \<Rightarrow> if ka_map_mut api Celer fd' k4 = None then Inl MapFails else Inr mmap) \<and>
    (\<forall>later closed j. ka_calls api closed k1 later \<and> j < capacity \<longrightarrow>
       slot_offset j + stroke_event_size \<le> snd mmap \<and> snd mmap \<le> ka_size api (fst mmap) later)"
proof -
  note ring = aegis_bridge_seals [OF assms(1,2)] and keep = calls_keep [OF assms(1)]
  have file2: "ka_file api Aegis fd k2 = Some (fst mmap)" and sealed2: "sealed_ring api (fst mmap) k2"
    using keep [OF assms(3)] ring(1,3) by simp_all
  have "celer_ipc_start True True (Some cmsgs) (celer_maps api k4) =
      (case ka_pass_fd api Aegis fd Celer k2 of
         None \<Rightarrow> Inl MapFails
       | Some (fd', _) \<Rightarrow> if ka_map_mut api Celer fd' k4 = None then Inl MapFails else Inr mmap)"
  proof (cases "ka_pass_fd api Aegis fd Celer k2")
    case None
    with assms(4) no_descriptor_no_map [OF assms(1), of k4] show ?thesis
      by (auto simp: handshake_thread_def celer_ipc_start_def celer_bridge_def receive_fd_def split: option.splits)
  next
    case (Some p)
    then obtain fd' k' where pass: "ka_pass_fd api Aegis fd Celer k2 = Some (fd', k')"
      by (metis prod.exhaust)
    with assms(4) have sent: "cmsgs = send_fd fd'" "k3 = k'"
      by (auto simp: handshake_thread_def split: option.splits)
    from memfd_documentedD(5) [OF assms(1) pass] sent(2) file2
    have file3: "ka_file api Celer fd' k3 = Some (fst mmap)" and sealed3: "sealed_ring api (fst mmap) k3"
      using keep(1) [OF _ sealed2] by auto
    have "ka_file api Celer fd' k4 = Some (fst mmap)" and "sealed_ring api (fst mmap) k4"
      using keep(1) [OF assms(5) sealed3] keep(2) [OF assms(5) _ file3] sent(1) by simp_all
    from celer_maps_ring [OF assms(1) this(2,1)] ring(2) prod.collapse [of mmap] pass sent(1) show ?thesis
      by (simp add: celer_ipc_start_def celer_bridge_def fd_passes split: if_splits)
  qed
  moreover have "slot_offset j + stroke_event_size \<le> snd mmap \<and> snd mmap \<le> ka_size api (fst mmap) later"
    if "ka_calls api closed k1 later" "j < capacity" for later closed j
    using keep(1) [OF that(1) ring(3)] ring(2) that(2) by (simp add: sealed_ring_def ring_size)
  ultimately show ?thesis by blast
qed

section \<open>A kernel with these calls\<close>

text \<open>
  The promises can be kept: files as a list of sizes and seals, and descriptors numbered through all
  processes, each with the process that holds it, or none once it is closed.
\<close>

record memfd =
  mf_size :: nat
  mf_seals :: "seal set"

record small_kernel =
  kn_files :: "memfd list"
  kn_fds :: "(process \<times> nat) option list"

definition small_file :: "process \<Rightarrow> int \<Rightarrow> small_kernel \<Rightarrow> nat option" where
  "small_file pr fd k =
     (if 0 \<le> fd \<and> nat fd < length (kn_fds k)
      then (case kn_fds k ! nat fd of
              Some (pr', i) \<Rightarrow> if pr' = pr \<and> i < length (kn_files k) then Some i else None
            | None \<Rightarrow> None)
      else None)"

datatype small_op =
    CreateFile process bool
  | Truncate process int nat
  | AddSeals process int "seal set"
  | PassFd process int process
  | CloseFd process int

text \<open>A call that the seals or the descriptor do not allow fails and leaves everything as it was.\<close>

fun small_call :: "small_op \<Rightarrow> small_kernel \<Rightarrow> small_kernel option" where
  "small_call (CreateFile pr allow) k =
     Some \<lparr>kn_files = kn_files k @ [\<lparr>mf_size = 0, mf_seals = (if allow then {} else {SealSeal})\<rparr>],
           kn_fds = kn_fds k @ [Some (pr, length (kn_files k))]\<rparr>"
| "small_call (Truncate pr fd n) k =
     (case small_file pr fd k of
        None \<Rightarrow> None
      | Some i \<Rightarrow>
          (let f = kn_files k ! i in
           if n < mf_size f \<and> SealShrink \<in> mf_seals f \<or> mf_size f < n \<and> SealGrow \<in> mf_seals f then None
           else Some (k\<lparr>kn_files := (kn_files k)[i := f\<lparr>mf_size := n\<rparr>]\<rparr>)))"
| "small_call (AddSeals pr fd added) k =
     (case small_file pr fd k of
        None \<Rightarrow> None
      | Some i \<Rightarrow>
          (let f = kn_files k ! i in
           if SealSeal \<in> mf_seals f then None
           else Some (k\<lparr>kn_files := (kn_files k)[i := f\<lparr>mf_seals := added \<union> mf_seals f\<rparr>]\<rparr>)))"
| "small_call (PassFd pr fd pr') k =
     (case small_file pr fd k of
        None \<Rightarrow> None
      | Some i \<Rightarrow> Some (k\<lparr>kn_fds := kn_fds k @ [Some (pr', i)]\<rparr>))"
| "small_call (CloseFd pr fd) k =
     (case small_file pr fd k of
        None \<Rightarrow> None
      | Some i \<Rightarrow> Some (k\<lparr>kn_fds := (kn_fds k)[nat fd := None]\<rparr>))"

definition small_step :: "small_op \<Rightarrow> small_kernel \<Rightarrow> small_kernel" where
  "small_step op k = (case small_call op k of None \<Rightarrow> k | Some k' \<Rightarrow> k')"

definition small_api :: "small_kernel kernel_api" where
  "small_api =
     \<lparr>ka_memfd_create = (\<lambda>pr allow k. map_option (Pair (int (length (kn_fds k)))) (small_call (CreateFile pr allow) k)),
      ka_ftruncate = (\<lambda>pr fd n. small_call (Truncate pr fd n)),
      ka_add_seals = (\<lambda>pr fd added. small_call (AddSeals pr fd added)),
      ka_map_mut = (\<lambda>pr fd k. case small_file pr fd k of
         None \<Rightarrow> None
       | Some i \<Rightarrow> if mf_size (kn_files k ! i) = 0 then None else Some ((i, mf_size (kn_files k ! i)), k)),
      ka_pass_fd = (\<lambda>pr fd pr' k. map_option (Pair (int (length (kn_fds k)))) (small_call (PassFd pr fd pr') k)),
      ka_file = small_file,
      ka_size = (\<lambda>i k. if i < length (kn_files k) then mf_size (kn_files k ! i) else 0),
      ka_seals = (\<lambda>i k. if i < length (kn_files k) then mf_seals (kn_files k ! i) else {}),
      ka_calls = (\<lambda>kept k k'. \<exists>ops. k' = fold small_step ops k \<and> (\<forall>(pr, fd) \<in> kept. CloseFd pr fd \<notin> set ops))\<rparr>"

lemma small_file_Some: "small_file pr fd k = Some i \<longleftrightarrow>
    0 \<le> fd \<and> nat fd < length (kn_fds k) \<and> kn_fds k ! nat fd = Some (pr, i) \<and> i < length (kn_files k)"
  by (auto simp: small_file_def split: option.splits)


lemmas small_defs = small_api_def small_file_Some Let_def nth_append nth_list_update

definition small_keeps :: "(process \<times> int) set \<Rightarrow> small_kernel \<Rightarrow> small_kernel \<Rightarrow> bool" where
  "small_keeps kept k k' \<longleftrightarrow>
     (\<forall>(pr, fd) \<in> kept. \<forall>i. small_file pr fd k = Some i \<longrightarrow> small_file pr fd k' = Some i) \<and>
     (\<forall>i. ka_seals small_api i k \<subseteq> ka_seals small_api i k' \<and>
        (SealShrink \<in> ka_seals small_api i k \<longrightarrow> ka_size small_api i k \<le> ka_size small_api i k') \<and>
        (SealGrow \<in> ka_seals small_api i k \<longrightarrow> ka_size small_api i k' \<le> ka_size small_api i k))"

lemma small_call_keeps:
  assumes "small_call op k = Some k'" and "\<forall>(pr, fd) \<in> kept. op \<noteq> CloseFd pr fd"
  shows "small_keeps kept k k'"
proof -
  have "small_file pr fd k' = Some i" if "(pr, fd) \<in> kept" "small_file pr fd k = Some i" for pr fd i
    using assms that by (cases op) (fastforce simp: small_defs split: option.splits if_splits)+
  moreover have "ka_seals small_api i k \<subseteq> ka_seals small_api i k' \<and>
      (SealShrink \<in> ka_seals small_api i k \<longrightarrow> ka_size small_api i k \<le> ka_size small_api i k') \<and>
      (SealGrow \<in> ka_seals small_api i k \<longrightarrow> ka_size small_api i k' \<le> ka_size small_api i k)" for i
    using assms(1) by (cases op) (auto simp: small_defs split: option.splits if_splits)
  ultimately show ?thesis
    unfolding small_keeps_def by blast
qed

lemma small_keeps_trans: "small_keeps kept k k1 \<Longrightarrow> small_keeps kept k1 k2 \<Longrightarrow> small_keeps kept k k2"
  unfolding small_keeps_def by (blast intro: order_trans)

lemma small_run_keeps:
  "\<forall>(pr, fd) \<in> kept. CloseFd pr fd \<notin> set ops \<Longrightarrow> small_keeps kept k (fold small_step ops k)"
proof (induction ops arbitrary: k)
  case Nil
  show ?case by (simp add: small_keeps_def)
next
  case (Cons op ops)
  have "small_keeps kept k (small_step op k)"
  proof (cases "small_call op k")
    case None
    then show ?thesis by (simp add: small_step_def small_keeps_def)
  next
    case (Some k')
    with small_call_keeps [OF Some, of kept] Cons.prems show ?thesis by (auto simp: small_step_def)
  qed
  with Cons show ?case using small_keeps_trans by fastforce
qed

lemma small_api_documented: "memfd_documented small_api"
proof -
  have calls: "calls_documented small_api"
    unfolding calls_documented_def
  proof (intro allI impI)
    fix kept k k' assume "ka_calls small_api kept k k'"
    then obtain ops where "k' = fold small_step ops k" and "\<forall>(pr, fd) \<in> kept. CloseFd pr fd \<notin> set ops"
      by (auto simp: small_api_def)
    with small_run_keeps have "small_keeps kept k k'" by blast
    moreover have "ka_file small_api = small_file" by (simp add: small_api_def)
    ultimately show "(\<forall>(pr, fd) \<in> kept. \<forall>i. ka_file small_api pr fd k = Some i \<longrightarrow> ka_file small_api pr fd k' = Some i) \<and>
        (\<forall>i. ka_seals small_api i k \<subseteq> ka_seals small_api i k' \<and>
          (SealShrink \<in> ka_seals small_api i k \<longrightarrow> ka_size small_api i k \<le> ka_size small_api i k') \<and>
          (SealGrow \<in> ka_seals small_api i k \<longrightarrow> ka_size small_api i k' \<le> ka_size small_api i k))"
      unfolding small_keeps_def by simp
  qed
  have "create_documented small_api" and "truncate_documented small_api" and "seals_documented small_api"
    by (auto simp: documented_defs small_defs split: option.splits if_splits)
  moreover have "map_documented small_api"
    unfolding map_documented_def
    by (auto simp: small_defs split: option.splits if_splits intro: exI [of _ "[]"])
  moreover have "pass_documented small_api"
  proof -
    have one: "small_step (PassFd pr fd pr') k = k'" if "small_call (PassFd pr fd pr') k = Some k'" for pr fd pr' k k'
      using that by (simp add: small_step_def)
    have "\<exists>ops. k' = fold small_step ops k \<and> (\<forall>pr fd. CloseFd pr fd \<notin> set ops)"
      if "small_call (PassFd pr fd pr') k = Some k'" for pr fd pr' k k'
      using one [OF that] by (intro exI [of _ "[PassFd pr fd pr']"]) simp
    moreover have "small_file pr' (int (length (kn_fds k))) k' = small_file pr fd k"
      if "small_call (PassFd pr fd pr') k = Some k'" for pr fd pr' k k'
    proof -
      from that obtain i where i: "small_file pr fd k = Some i" and k': "k' = k\<lparr>kn_fds := kn_fds k @ [Some (pr', i)]\<rparr>"
        by (auto split: option.splits)
      then have "small_file pr' (int (length (kn_fds k))) k' = Some i"
        by (simp add: small_file_Some)
      with i show ?thesis by simp
    qed
    moreover have "small_file pr fd k = None" if "fd < 0" for pr fd k
      using that by (simp add: small_file_def)
    ultimately show ?thesis
      unfolding pass_documented_def by (auto simp: small_api_def simp del: small_call.simps)
  qed
  ultimately show ?thesis
    using calls by (simp add: memfd_documented_def)
qed

definition no_files :: small_kernel where
  "no_files = \<lparr>kn_files = [], kn_fds = []\<rparr>"

text \<open>
  Another process opens a file of its own and AEGIS tries to grow the ring before CELER comes up at the
  third attempt. CELER maps what it gets, then shrinks it, in vain, and closes every descriptor.
\<close>

theorem bridge_shares_ring_witness:
  "\<exists>mmap k1 k3. aegis_bridge small_api no_files = Inr (0, mmap, k1) \<and>
     handshake_thread small_api [False, False, True] 0 (fold small_step [CreateFile (Other 7) True, Truncate Aegis 0 (2 ^ 40)] k1)
       = Some (send_fd 2, k3) \<and>
     celer_ipc_start True True (Some (send_fd 2)) (celer_maps small_api k3) = Inr mmap \<and>
     slot_offset 131071 + stroke_event_size \<le> ka_size small_api (fst mmap)
       (fold small_step [PassFd Aegis 0 Celer, Truncate Celer 1 0, CloseFd Celer 1, CloseFd Aegis 0] k1)"
proof -
  let ?k1 = "\<lparr>kn_files = [\<lparr>mf_size = shared_ring_size, mf_seals = {SealShrink, SealGrow}\<rparr>], kn_fds = [Some (Aegis, 0)]\<rparr>"
  let ?k2 = "fold small_step [CreateFile (Other 7) True, Truncate Aegis 0 (2 ^ 40)] ?k1"
  let ?ops = "[PassFd Aegis 0 Celer, Truncate Celer 1 0, CloseFd Celer 1, CloseFd Aegis 0]"
  have set_up: "aegis_bridge small_api no_files = Inr (0, (0, shared_ring_size), ?k1)"
    by (simp add: aegis_bridge_def small_api_def small_file_def no_files_def Let_def ring_size)
  have k2: "?k2 = \<lparr>kn_files = kn_files ?k1 @ [\<lparr>mf_size = 0, mf_seals = {}\<rparr>], kn_fds = kn_fds ?k1 @ [Some (Other 7, 1)]\<rparr>"
    by (simp add: small_step_def small_file_def Let_def ring_size)
  obtain k3 where pass: "ka_pass_fd small_api Aegis 0 Celer ?k2 = Some (2, k3)"
    and k3: "k3 = \<lparr>kn_files = kn_files ?k2, kn_fds = kn_fds ?k2 @ [Some (Celer, 0)]\<rparr>"
    unfolding k2 by (simp add: small_api_def small_file_def)
  have handed: "handshake_thread small_api [False, False, True] 0 ?k2 = Some (send_fd 2, k3)"
    using pass by (simp add: handshake_thread_def aegis_handshake_def)
  have map: "ka_map_mut small_api Celer 2 k3 \<noteq> None"
    unfolding k3 k2 by (simp add: small_api_def small_file_def ring_size)
  have before: "ka_calls small_api {(Aegis, 0)} ?k1 ?k2"
    unfolding small_api_def kernel_api.simps
    by (intro exI [of _ "[CreateFile (Other 7) True, Truncate Aegis 0 (2 ^ 40)]"]) simp
  have between: "ka_calls small_api kept k3 k3" for kept
    by (simp add: small_api_def exI [of _ "[]"])
  have later: "ka_calls small_api {} ?k1 (fold small_step ?ops ?k1)"
    by (auto simp: small_api_def simp del: fold.simps)
  have slot: "131071 < capacity" by simp
  note shared = bridge_shares_ring [OF small_api_documented set_up before handed between]
  have "celer_ipc_start True True (Some (send_fd 2)) (celer_maps small_api k3) = Inr (0, shared_ring_size)"
    using shared [THEN conjunct1] pass map by simp
  moreover have "slot_offset 131071 + stroke_event_size \<le> ka_size small_api 0 (fold small_step ?ops ?k1)"
    using shared [THEN conjunct2] later slot by fastforce
  ultimately show ?thesis
    using set_up handed by (intro exI [of _ "(0, shared_ring_size)"] exI [of _ ?k1] exI [of _ k3]) simp
qed

end
