(* ===== verification/Chronos_Client.thy ===== *)
theory Chronos_Client
  imports Chronos_Server
begin

text \<open>
  The clients of Chronos that the repository ships: the interactive command line
  (\<^verbatim>\<open>chronos/src/bin/client.rs\<close>) and the load generator (\<^verbatim>\<open>chronos/src/bin/bench.rs\<close>), with
  what the server makes of the messages they send.
\<close>

section \<open>The command line\<close>

datatype stdin_item = StdinLine ustring | StdinEof | StdinErr

datatype net_reply = NetData bytes | NetErr

datatype cli_exit = NotConnected | EndOfInput | UserQuit | LinkBroken | ServerClosed | NetFailed | StdinFailed

datatype cli_action = SendMsg bytes | Show ustring

text \<open>\<^verbatim>\<open>msg_to_send\<close>: the trimmed command and a line feed.\<close>

definition cli_message :: "ustring \<Rightarrow> bytes" where
  "cli_message input = utf8_encode (trim input @ [10])"

text \<open>One turn: what the user typed, whether the write succeeds, what the socket then yields.\<close>

definition cli_turn :: "stdin_item \<Rightarrow> bool \<Rightarrow> net_reply \<Rightarrow> cli_action list \<times> cli_exit option" where
  "cli_turn item write_ok net =
     (case item of
        StdinEof \<Rightarrow> ([], Some EndOfInput)
      | StdinErr \<Rightarrow> ([], Some StdinFailed)
      | StdinLine input \<Rightarrow>
          (let command = trim input in
           if command = [] then ([], None)
           else if eq_ignore_ascii_case command (ascii ''exit'') \<or> eq_ignore_ascii_case command (ascii ''quit'')
           then ([], Some UserQuit)
           else if \<not> write_ok then ([], Some LinkBroken)
           else
             (case net of
                NetErr \<Rightarrow> ([SendMsg (cli_message input)], Some NetFailed)
              | NetData avail \<Rightarrow>
                  (let buffer = take READ_BUFFER avail in
                   if buffer = [] then ([SendMsg (cli_message input)], Some ServerClosed)
                   else ([SendMsg (cli_message input), Show (from_utf8_lossy buffer)], None)))))"

fun cli_loop :: "(stdin_item \<times> bool \<times> net_reply) list \<Rightarrow> cli_action list \<times> cli_exit option" where
  "cli_loop [] = ([], None)"
| "cli_loop ((item, write_ok, net) # turns) =
     (case cli_turn item write_ok net of
        (acts, Some ex) \<Rightarrow> (acts, Some ex)
      | (acts, None) \<Rightarrow> (case cli_loop turns of (acts', ex) \<Rightarrow> (acts @ acts', ex)))"

definition cli_main :: "bool \<Rightarrow> (stdin_item \<times> bool \<times> net_reply) list \<Rightarrow> cli_action list \<times> cli_exit option" where
  "cli_main connect_ok turns = (if connect_ok then cli_loop turns else ([], Some NotConnected))"

lemma cli_turn_sends:
  assumes "SendMsg bs \<in> set (fst (cli_turn item write_ok net))"
  shows "\<exists>input. item = StdinLine input \<and> bs = cli_message input \<and> trim input \<noteq> []"
  using assms by (auto simp: cli_turn_def Let_def split: stdin_item.splits net_reply.splits if_splits)

lemma trim_chars: "set (trim t) \<subseteq> set t"
  unfolding trim_def by (auto dest!: set_dropWhileD)

lemma split_whitespace_snoc: "is_whitespace c \<Longrightarrow> split_whitespace (t @ [c]) = split_whitespace t"
  unfolding split_whitespace_def by (rule words_from_trailing) simp

lemma trim_blank_iff: "trim t = [] \<longleftrightarrow> split_whitespace t = []"
proof
  assume "trim t = []"
  then show "split_whitespace t = []"
    by (metis split_trim split_whitespace_Nil_iff empty_iff empty_set)
next
  assume "split_whitespace t = []"
  then have "\<forall>c \<in> set t. is_whitespace c"
    by (simp add: split_whitespace_Nil_iff)
  then have "dropWhile is_whitespace t = []"
    by simp
  then show "trim t = []"
    by (simp only: trim_def rev.simps dropWhile.simps)
qed

lemma cli_message_decodes:
  assumes "list_all is_scalar input"
  shows "from_utf8_lossy (cli_message input) = trim input @ [10]"
proof -
  have "list_all is_scalar (trim input @ [10])"
    using assms trim_chars [of input] by (auto simp: list_all_iff is_scalar_def)
  then show ?thesis by (simp add: cli_message_def)
qed

lemma parse_same_words: "split_whitespace s = split_whitespace t \<Longrightarrow> parse s = parse t"
  by (simp add: parse_split)

lemma cli_short_message:
  assumes "list_all is_scalar input" and "trim input \<noteq> []" and "length (cli_message input) \<le> READ_BUFFER"
  shows "parse (from_utf8_lossy (take READ_BUFFER (cli_message input))) = parse input \<and> parse input \<noteq> None"
proof -
  have "split_whitespace (trim input @ [10]) = split_whitespace input"
    by (simp add: split_whitespace_snoc split_trim)
  then have "parse (trim input @ [10]) = parse input"
    by (rule parse_same_words)
  moreover have "parse input \<noteq> None"
    using assms(2) by (auto simp: trim_blank_iff parse_split split: list.splits)
  ultimately show ?thesis
    using assms by (simp add: cli_message_decodes)
qed

lemma cli_long_message:
  assumes "length (utf8_encode (trim input)) = READ_BUFFER"
  shows "drop READ_BUFFER (cli_message input) = [10]"
proof -
  have "cli_message input = utf8_encode (trim input) @ [10]"
    by (simp add: cli_message_def utf8_encode_append) (simp add: utf8_encode_def utf8_encode_char_def)
  with assms show ?thesis by simp
qed

text \<open>
  C38: the command line and the server agree, up to one buffer. A message that the client sends
  and that fits the server's 512-byte buffer is read as exactly the command the user typed, and
  never panics the server; a command of exactly 512 bytes leaves its line feed for a read of its
  own, which panics the server's thread for this client.
\<close>

theorem cli_server_framing:
  assumes "SendMsg bs \<in> set (fst (cli_turn (StdinLine input) write_ok net))" and "list_all is_scalar input"
  shows "(length bs \<le> 512 \<longrightarrow>
            parse (from_utf8_lossy (take READ_BUFFER bs)) = parse input \<and> parse input \<noteq> None) \<and>
         (length (utf8_encode (trim input)) = 512 \<longrightarrow>
            serve_read env (ReadBytes (drop READ_BUFFER bs)) reply_ok st = ([], Some Panicked, st))"
proof -
  from cli_turn_sends [OF assms(1)] have bs: "bs = cli_message input" and "trim input \<noteq> []"
    by auto
  moreover have "parse [10] = None"
    by (simp add: parse_split split_whitespace_def)
  moreover have "from_utf8_lossy [10] = [10]"
    using utf8_lossy_encode [of "[10]"] by (simp add: utf8_encode_def utf8_encode_char_def is_scalar_def)
  ultimately show ?thesis
    using cli_short_message [OF assms(2)] cli_long_message [of input]
    by (auto simp: READ_BUFFER_def serve_read_def Let_def)
qed

lemma trim_word: "trim (ascii ''ping'' @ [10]) = ascii ''ping''"
  by (simp add: trim_def ascii_def is_whitespace_def)

theorem cli_server_framing_witness:
  "parse (from_utf8_lossy (take READ_BUFFER (cli_message (ascii ''ping'' @ [10])))) = Some CmdPing"
proof -
  let ?input = "ascii ''ping'' @ [10]"
  have sent: "SendMsg (cli_message ?input) \<in> set (fst (cli_turn (StdinLine ?input) True NetErr))"
    by (simp add: cli_turn_def Let_def trim_word) (simp add: ascii_def eq_ignore_ascii_case_def)
  have scalars: "list_all is_scalar ?input"
    by (simp add: ascii_def is_scalar_def)
  have "length (cli_message ?input) \<le> 512"
    unfolding cli_message_def trim_word by (simp add: ascii_def utf8_encode_def utf8_encode_char_def)
  moreover have "parse ?input = Some CmdPing"
    by (simp add: parse_split split_whitespace_def ascii_def is_whitespace_def kw_defs to_uppercase_def upper_char_def)
  ultimately show ?thesis
    using cli_server_framing [OF sent scalars, of calm True "engine_start rev_order"] by simp
qed

section \<open>The load generator\<close>

definition NUM_REQUEST :: nat where "NUM_REQUEST = 10000"

definition bench_key :: "nat \<Rightarrow> ustring" where
  "bench_key i = ascii ''bench_key_'' @ show_dec i"

definition bench_value :: "nat \<Rightarrow> ustring" where
  "bench_value i = ascii ''valor_de_prueba_numero_'' @ show_dec i"

definition bench_set_message :: "nat \<Rightarrow> ustring" where
  "bench_set_message i = ascii ''SET '' @ bench_key i @ [0x20] @ bench_value i @ [10]"

definition bench_get_message :: "nat \<Rightarrow> ustring" where
  "bench_get_message i = ascii ''GET '' @ bench_key i @ [10]"

text \<open>The two loops of \<^verbatim>\<open>main\<close>, one message after the other, against the server's store.\<close>

definition bench_execute :: "ustring \<Rightarrow> db \<Rightarrow> ustring \<times> db" where
  "bench_execute msg st =
     (case serve_read calm (ReadBytes (utf8_encode msg)) True st of
        (responses, _, st') \<Rightarrow> (concat responses, st'))"

fun load_loop :: "(nat \<Rightarrow> ustring) \<Rightarrow> nat list \<Rightarrow> db \<Rightarrow> ustring list \<times> db" where
  "load_loop msg [] st = ([], st)"
| "load_loop msg (i # is) st =
     (case bench_execute (msg i) st of (r, st1) \<Rightarrow> (case load_loop msg is st1 of (rs, st2) \<Rightarrow> (r # rs, st2)))"

definition bench_main :: "nat \<Rightarrow> db \<Rightarrow> ustring list \<times> ustring list \<times> db" where
  "bench_main n st =
     (case load_loop bench_set_message [0..<n] st of (written, st1) \<Rightarrow>
        (case load_loop bench_get_message [0..<n] st1 of (read, st2) \<Rightarrow> (written, read, st2)))"

lemma dec_not_space: "c \<in> set (show_dec i) \<Longrightarrow> \<not> is_whitespace c"
  and dec_scalar: "c \<in> set (show_dec i) \<Longrightarrow> is_scalar c"
  and dec_ascii: "c \<in> set (show_dec i) \<Longrightarrow> c < 128"
  and dec_not_comma: "comma \<notin> set (show_dec i)"
  using show_dec_digits [of c i] show_dec_digits [of comma i]
  by (auto simp: is_whitespace_def is_scalar_def comma_def)

lemma bench_words: "is_word (bench_key i)" "is_word (bench_value i)"
  using dec_not_space [of _ i]
  by (auto simp: is_word_def bench_key_def bench_value_def) (auto simp: ascii_def is_whitespace_def)

lemma bench_scalars: "list_all is_scalar (bench_key i)" "list_all is_scalar (bench_value i)"
  using dec_scalar [of _ i]
  by (auto simp: list_all_iff bench_key_def bench_value_def) (auto simp: ascii_def is_scalar_def)

lemma bench_key_inj: "bench_key i = bench_key j \<longleftrightarrow> i = j"
  by (simp add: bench_key_def show_dec_inj)

lemma bench_storable: "storable (bench_key i, bench_value i)"
proof (rule normal_value_storable)
  show "normal_value (bench_value i)"
    using split_whitespace_word [OF bench_words(2)] by (simp add: normal_value_def)
  show "comma \<notin> set (bench_key i)"
    using dec_not_comma [of i] by (auto simp: bench_key_def) (auto simp: ascii_def comma_def)
qed (rule bench_words bench_scalars)+

lemma parse_bench_set: "parse (bench_set_message i) = Some (CmdSet (bench_key i) (bench_value i))"
proof -
  have "split_whitespace (bench_set_message i) = [kw_SET, bench_key i, bench_value i]"
    using split_set [OF bench_words(1), of i "bench_value i @ [10]"] split_whitespace_word [OF bench_words(2), of i]
    by (simp add: bench_set_message_def ascii_def kw_SET_def split_whitespace_snoc)
  then show ?thesis by (simp add: parse_split)
qed

lemma parse_bench_get: "parse (bench_get_message i) = Some (CmdGet (bench_key i))"
proof -
  have "split_whitespace (kw_GET @ 0x20 # bench_key i @ [10]) = [kw_GET, bench_key i]"
    using split_whitespace_word [OF bench_words(1), of i]
    by (simp add: split_whitespace_word_space keyword_words split_whitespace_snoc)
  then have "split_whitespace (bench_get_message i) = [kw_GET, bench_key i]"
    by (simp add: bench_get_message_def ascii_def kw_GET_def)
  then show ?thesis by (simp add: parse_split)
qed

lemma utf8_ascii_length: "list_all (\<lambda>c. c < 0x80) t \<Longrightarrow> length (utf8_encode t) = length t"
  by (induction t) (simp_all add: utf8_encode_def utf8_encode_char_def)

lemma length_show_dec: "n < 10 ^ Suc k \<Longrightarrow> length (show_dec n) \<le> Suc k"
proof (induction k arbitrary: n)
  case 0
  then show ?case by (subst show_dec.simps) simp
next
  case (Suc k)
  then have "n div 10 < 10 ^ Suc k"
    by (simp add: less_mult_imp_div_less)
  from Suc.IH [OF this] show ?case
    by (subst show_dec.simps) simp
qed

lemma bench_execute_command:
  assumes "parse msg = Some cmd" and "list_all (\<lambda>c. c < 0x80) msg" and "length msg \<le> 512" and "msg \<noteq> []"
  shows "bench_execute msg st = exec_command calm cmd st"
proof -
  have "list_all is_scalar msg"
    using assms(2) by (auto simp: list_all_iff is_scalar_def)
  moreover have "length (utf8_encode msg) = length msg"
    using assms(2) by (rule utf8_ascii_length)
  ultimately have "from_utf8_lossy (take READ_BUFFER (utf8_encode msg)) = msg" "take READ_BUFFER (utf8_encode msg) \<noteq> []"
    using assms(3,4) by (auto simp: READ_BUFFER_def)
  with assms(1) show ?thesis
    by (simp add: bench_execute_def serve_read_def Let_def case_prod_beta)
qed

lemma bench_short: "i < 10000 \<Longrightarrow> length (bench_set_message i) \<le> 512 \<and> length (bench_get_message i) \<le> 512"
  using length_show_dec [of i 3]
  by (simp add: bench_set_message_def bench_get_message_def bench_key_def bench_value_def ascii_def)

lemma bench_ascii: "list_all (\<lambda>c. c < 0x80) (bench_set_message i)" "list_all (\<lambda>c. c < 0x80) (bench_get_message i)"
  using dec_ascii [of _ i]
  by (auto simp: list_all_iff bench_set_message_def bench_get_message_def bench_key_def bench_value_def)
     (auto simp: ascii_def)

lemma bench_value_not_tombstone: "bench_value i \<noteq> TOMBSTONE"
  by (simp add: bench_value_def TOMBSTONE_def ascii_def)

lemma bench_set_step:
  assumes "db_inv st" and "i < 10000"
  obtains st' where "bench_execute (bench_set_message i) st = (reply ''OK'', st')" and "db_inv st'"
    and "visible (contents st') = (visible (contents st))(bench_key i \<mapsto> bench_value i)"
proof -
  have "bench_execute (bench_set_message i) st = exec_command calm (CmdSet (bench_key i) (bench_value i)) st"
    using assms(2) bench_short bench_ascii parse_bench_set
    by (intro bench_execute_command) (auto simp: bench_set_message_def)
  moreover obtain st' where "exec_command calm (CmdSet (bench_key i) (bench_value i)) st = (reply ''OK'', st')"
    "db_inv st'" "visible (contents st') = (visible (contents st))(bench_key i \<mapsto> bench_value i)"
    using engine.exec_refines [OF assms(1), of "CmdSet (bench_key i) (bench_value i)"] bench_storable
      bench_value_not_tombstone by (auto simp: exec_command_calm)
  ultimately show thesis by (intro that) auto
qed

lemma bench_get_step:
  assumes "db_inv st" and "i < 10000" and "visible (contents st) (bench_key i) = Some v"
  shows "bench_execute (bench_get_message i) st = (v @ [10], st)"
proof -
  have "bench_execute (bench_get_message i) st = exec_command calm (CmdGet (bench_key i)) st"
    using assms(2) bench_short bench_ascii parse_bench_get
    by (intro bench_execute_command) (auto simp: bench_get_message_def)
  then show ?thesis
    using engine.exec_refines [OF assms(1), of "CmdGet (bench_key i)"] assms(3)
    by (auto simp: exec_command_calm)
qed

lemma bench_set_loop:
  "db_inv st \<Longrightarrow> \<forall>i \<in> set is. i < 10000 \<Longrightarrow>
   \<exists>st'. load_loop bench_set_message is st = (replicate (length is) (reply ''OK''), st') \<and> db_inv st' \<and>
     visible (contents st') = fold (\<lambda>i m. m(bench_key i \<mapsto> bench_value i)) is (visible (contents st))"
proof (induction "is" arbitrary: st)
  case (Cons i "is")
  obtain st1 where st1: "bench_execute (bench_set_message i) st = (reply ''OK'', st1)" "db_inv st1"
    "visible (contents st1) = (visible (contents st))(bench_key i \<mapsto> bench_value i)"
    using Cons.prems by (auto elim: bench_set_step)
  with Cons.IH [OF st1(2)] Cons.prems(2) show ?case by auto
qed simp

lemma bench_get_loop:
  "db_inv st \<Longrightarrow> \<forall>i \<in> set is. i < 10000 \<and> visible (contents st) (bench_key i) = Some (bench_value i) \<Longrightarrow>
   load_loop bench_get_message is st = (map (\<lambda>i. bench_value i @ [10]) is, st)"
  by (induction "is") (simp_all add: bench_get_step)

lemma bench_written:
  "j \<in> set is \<Longrightarrow> fold (\<lambda>i m. m(bench_key i \<mapsto> bench_value i)) is m (bench_key j) = Some (bench_value j)"
  by (induction "is" rule: rev_induct) (auto simp: bench_key_inj)

text \<open>
  The load generator reads back what it wrote. Against a fresh server (or any database in
  a consistent state) every one of its writes is answered OK and every read with the value it
  wrote under that number; no message is misparsed and no two of its keys collide.
\<close>

lemma bench_reads_back:
  assumes "db_inv st" and "n \<le> NUM_REQUEST"
  shows "\<exists>st'. bench_main n st = (replicate n (reply ''OK''), map (\<lambda>i. bench_value i @ [10]) [0..<n], st')"
proof -
  have small: "\<forall>i \<in> set [0..<n]. i < 10000"
    using assms(2) by (simp add: NUM_REQUEST_def)
  obtain st1 where st1: "load_loop bench_set_message [0..<n] st = (replicate n (reply ''OK''), st1)" "db_inv st1"
    "visible (contents st1) = fold (\<lambda>i m. m(bench_key i \<mapsto> bench_value i)) [0..<n] (visible (contents st))"
    using bench_set_loop [OF assms(1) small] by auto
  have "visible (contents st1) (bench_key i) = Some (bench_value i)" if "i \<in> set [0..<n]" for i
    unfolding st1(3) using that by (rule bench_written)
  with bench_get_loop [OF st1(2)] small
  have "load_loop bench_get_message [0..<n] st1 = (map (\<lambda>i. bench_value i @ [10]) [0..<n], st1)" by blast
  with st1(1) show ?thesis by (simp add: bench_main_def)
qed

lemma bench_reads_back_example:
  "\<exists>st'. bench_main 10000 (engine_start rev_order) =
     (replicate 10000 (reply ''OK''), map (\<lambda>i. bench_value i @ [10]) [0..<10000], st')"
  by (rule bench_reads_back [OF db_inv_start [OF rev_order]]) (simp add: NUM_REQUEST_def)

section \<open>The load generator on the network\<close>

text \<open>
  The same loops against any peer: whether each write succeeds, and what the read after it yields. A
  result is the messages sent, and either the turns left or where the process stops: every failure
  is unwrapped. What has been read is not looked at.
\<close>

datatype load_stop = ConnectPanics | WritePanics | ReadPanics | LoadWaits

fun load_phase ::
    "(nat \<Rightarrow> ustring) \<Rightarrow> nat list \<Rightarrow> (bool \<times> net_reply) list \<Rightarrow> bytes list \<times> (load_stop + (bool \<times> net_reply) list)" where
  "load_phase msg [] turns = ([], Inr turns)"
| "load_phase msg (i # is) [] = ([], Inl LoadWaits)"
| "load_phase msg (i # is) ((write_ok, net) # turns) =
     (if \<not> write_ok then ([], Inl WritePanics)
      else
        (case net of
           NetErr \<Rightarrow> ([utf8_encode (msg i)], Inl ReadPanics)
         | NetData avail \<Rightarrow>
             (case load_phase msg is turns of (sent, res) \<Rightarrow> (utf8_encode (msg i) # sent, res))))"

definition load_main :: "bool \<Rightarrow> nat \<Rightarrow> (bool \<times> net_reply) list \<Rightarrow> bytes list \<times> (load_stop + (bool \<times> net_reply) list)" where
  "load_main connect_ok n turns =
     (if \<not> connect_ok then ([], Inl ConnectPanics)
      else
        (case load_phase bench_set_message [0..<n] turns of
           (sent, Inl stop) \<Rightarrow> (sent, Inl stop)
         | (sent, Inr turns') \<Rightarrow>
             (case load_phase bench_get_message [0..<n] turns' of (sent', res) \<Rightarrow> (sent @ sent', res))))"

definition turn_ok :: "bool \<times> net_reply \<Rightarrow> bool" where
  "turn_ok t \<longleftrightarrow> fst t \<and> snd t \<noteq> NetErr"

lemma load_phase_completes:
  "length is \<le> length turns \<Longrightarrow> list_all turn_ok (take (length is) turns) \<Longrightarrow>
   load_phase msg is turns = (map (\<lambda>i. utf8_encode (msg i)) is, Inr (drop (length is) turns))"
  by (induction msg "is" turns rule: load_phase.induct) (auto simp: turn_ok_def split: net_reply.split)

lemma load_phase_stops:
  "length is \<le> length turns \<Longrightarrow> \<not> list_all turn_ok (take (length is) turns) \<Longrightarrow>
   snd (load_phase msg is turns) \<in> {Inl WritePanics, Inl ReadPanics}"
  by (induction msg "is" turns rule: load_phase.induct)
     (auto simp: turn_ok_def case_prod_beta split: net_reply.split if_splits)

text \<open>
  The generator counts calls and not answers: it completes if and only if no call fails, whatever the
  answers are. A peer that has closed its end (reads of no bytes), or that answers every request with
  an error, is measured like one that serves them.
\<close>

lemma load_main_ignores_answers:
  assumes "length turns = 2 * n"
  shows "(\<exists>rest. snd (load_main True n turns) = Inr rest) \<longleftrightarrow> list_all turn_ok turns"
    and "list_all turn_ok turns \<Longrightarrow> load_main True n turns =
      (map (\<lambda>i. utf8_encode (bench_set_message i)) [0..<n] @ map (\<lambda>i. utf8_encode (bench_get_message i)) [0..<n], Inr [])"
proof -
  have halves: "list_all turn_ok turns \<longleftrightarrow> list_all turn_ok (take n turns) \<and> list_all turn_ok (drop n turns)"
    by (metis append_take_drop_id list_all_append)
  have sets: "list_all turn_ok (take n turns) \<Longrightarrow> load_phase bench_set_message [0..<n] turns =
      (map (\<lambda>i. utf8_encode (bench_set_message i)) [0..<n], Inr (drop n turns))"
    using load_phase_completes [of "[0..<n]" turns bench_set_message] assms by simp
  have gets: "list_all turn_ok (drop n turns) \<Longrightarrow> load_phase bench_get_message [0..<n] (drop n turns) =
      (map (\<lambda>i. utf8_encode (bench_get_message i)) [0..<n], Inr [])"
    using load_phase_completes [of "[0..<n]" "drop n turns" bench_get_message] assms by simp
  show all: "load_main True n turns =
      (map (\<lambda>i. utf8_encode (bench_set_message i)) [0..<n] @ map (\<lambda>i. utf8_encode (bench_get_message i)) [0..<n], Inr [])"
    if "list_all turn_ok turns"
    using that sets gets halves by (simp add: load_main_def)
  have "\<not> (\<exists>rest. snd (load_main True n turns) = Inr rest)" if "\<not> list_all turn_ok turns"
  proof (cases "list_all turn_ok (take n turns)")
    case True
    with that halves have "snd (load_phase bench_get_message [0..<n] (drop n turns)) \<in> {Inl WritePanics, Inl ReadPanics}"
      using load_phase_stops [of "[0..<n]" "drop n turns"] assms by simp
    with sets [OF True] show ?thesis
      by (auto simp: load_main_def case_prod_beta)
  next
    case False
    then have "snd (load_phase bench_set_message [0..<n] turns) \<in> {Inl WritePanics, Inl ReadPanics}"
      using load_phase_stops [of "[0..<n]" turns] assms by simp
    then show ?thesis
      by (cases "load_phase bench_set_message [0..<n] turns") (auto simp: load_main_def)
  qed
  with all show "(\<exists>rest. snd (load_main True n turns) = Inr rest) \<longleftrightarrow> list_all turn_ok turns" by fastforce
qed

lemma closed_peer_completes: "snd (load_main True n (replicate (2 * n) (True, NetData []))) = Inr []"
  using load_main_ignores_answers(2) [of "replicate (2 * n) (True, NetData [])" n] by (simp add: list_all_iff turn_ok_def)

end
