(* ===== verification/Chronos_Mvp.thy ===== *)
theory Chronos_Mvp
  imports Rust_Text "HOL-Library.AList"
begin

text \<open>
  The time-travel store of \<^verbatim>\<open>chronos/src/bin/mvp_check.rs\<close>: an append-only file of serialised
  entries, an index from each key to the times and offsets of its entries, and a query for the
  value a key had at a given time, by binary search.

  Serialisation is the \<^verbatim>\<open>bincode\<close> crate's: the parameters \<open>ser\<close> and \<open>de\<close>. The code relies on one
  thing about them: reading at the place where an entry was written gives that entry, whatever
  follows it (\<open>codec_ok\<close>).
\<close>

section \<open>State\<close>

record entry =
  en_key :: ustring
  en_value :: ustring
  en_timestamp :: u64

type_synonym serialize_fun = "entry \<Rightarrow> bytes option"
type_synonym deserialize_fun = "bytes \<Rightarrow> entry option"

type_synonym history = "(u64 \<times> nat) list" \<comment> \<open>times and file offsets\<close>

record chronos_db =
  cd_file :: "bytes option" \<comment> \<open>the file at the path of the store, if it exists\<close>
  cd_index :: "(ustring \<times> history) list"

datatype mvp_outcome =
    MvpOk
  | OpenFails
  | SeekFails
  | FlushFails nat \<comment> \<open>after that many bytes\<close>

section \<open>Operations\<close>

definition ChronosDB_new :: "bytes option \<Rightarrow> bool \<Rightarrow> chronos_db option" where
  "ChronosDB_new old_file remove_ok =
     (if old_file \<noteq> None \<and> \<not> remove_ok then None else Some \<lparr>cd_file = None, cd_index = []\<rparr>)"

text \<open>\<^verbatim>\<open>unwrap()\<close> panics when the clock is before the epoch.\<close>

definition current_time :: "nat option \<Rightarrow> u64 option" where
  "current_time since_epoch_millis = map_option of_nat since_epoch_millis"

definition history_of :: "ustring \<Rightarrow> chronos_db \<Rightarrow> history" where
  "history_of key db = (case map_of (cd_index db) key of Some h \<Rightarrow> h | None \<Rightarrow> [])"

definition mvp_set ::
    "serialize_fun \<Rightarrow> u64 \<Rightarrow> mvp_outcome \<Rightarrow> ustring \<Rightarrow> ustring \<Rightarrow> chronos_db \<Rightarrow> u64 option \<times> chronos_db" where
  "mvp_set ser now out key value db =
     (if out = OpenFails then (None, db)
      else
        (let file = (case cd_file db of Some bs \<Rightarrow> bs | None \<Rightarrow> []);
             db1 = db\<lparr>cd_file := Some file\<rparr>;
             current_offset = length file;
             e = \<lparr>en_key = key, en_value = value, en_timestamp = now\<rparr> in
         if out = SeekFails then (None, db1)
         else
           (case ser e of
              None \<Rightarrow> (None, db1)
            | Some bs \<Rightarrow>
                (case out of
                   FlushFails j \<Rightarrow> (None, db1\<lparr>cd_file := Some (file @ take j bs)\<rparr>)
                 | _ \<Rightarrow>
                   (Some now, db1\<lparr>cd_file := Some (file @ bs),
                      cd_index := AList.update key (history_of key db @ [(now, current_offset)]) (cd_index db)\<rparr>)))))"

definition read_at :: "deserialize_fun \<Rightarrow> chronos_db \<Rightarrow> nat \<Rightarrow> ustring option" where
  "read_at de db offset =
     (case cd_file db of None \<Rightarrow> None | Some file \<Rightarrow> map_option en_value (de (drop offset file)))"

text \<open>
  \<^verbatim>\<open>partition_point\<close> as the library implements it: halve the range that holds the boundary until
  one element is left. The loop ends because the size shrinks.
\<close>

function partition_loop :: "('a \<Rightarrow> bool) \<Rightarrow> 'a list \<Rightarrow> nat \<Rightarrow> nat \<Rightarrow> nat" where
  "partition_loop pred xs base len =
     (if len \<le> 1 then base + (if pred (xs ! base) then 1 else 0)
      else
        (let half = len div 2; mid = base + half in
         partition_loop pred xs (if pred (xs ! mid) then mid else base) (len - half)))"
  by pat_completeness auto
termination by (relation "measure (\<lambda>(pred, xs, base, len). len)") auto

declare partition_loop.simps [simp del]

definition partition_point :: "('a \<Rightarrow> bool) \<Rightarrow> 'a list \<Rightarrow> nat" where
  "partition_point pred xs = (if xs = [] then 0 else partition_loop pred xs 0 (length xs))"

definition get_at_time :: "deserialize_fun \<Rightarrow> chronos_db \<Rightarrow> ustring \<Rightarrow> u64 \<Rightarrow> ustring option" where
  "get_at_time de db key query_time =
     (case map_of (cd_index db) key of
        None \<Rightarrow> None
      | Some history \<Rightarrow>
          (let index = partition_point (\<lambda>(t, _). t \<le> query_time) history in
           if index = 0 then None
           else (case history ! (index - 1) of (_, offset) \<Rightarrow> read_at de db offset)))"

section \<open>Binary search\<close>

definition partitioned :: "('a \<Rightarrow> bool) \<Rightarrow> 'a list \<Rightarrow> bool" where
  "partitioned pred xs \<longleftrightarrow> (\<forall>i j. i < j \<longrightarrow> j < length xs \<longrightarrow> pred (xs ! j) \<longrightarrow> pred (xs ! i))"

lemma partition_loop_spec:
  assumes "partitioned pred xs" and "0 < len" and "base + len \<le> length xs"
    and "\<forall>i < base. pred (xs ! i)" and "\<forall>i. base + len \<le> i \<longrightarrow> i < length xs \<longrightarrow> \<not> pred (xs ! i)"
  shows "partition_loop pred xs base len \<le> length xs \<and>
    (\<forall>i < length xs. pred (xs ! i) \<longleftrightarrow> i < partition_loop pred xs base len)"
  using assms(2-)
proof (induction len arbitrary: base rule: less_induct)
  case (less len)
  show ?case
  proof (cases "len \<le> 1")
    case True
    with less.prems(1) have len: "len = 1" by simp
    have "pred (xs ! i) \<longleftrightarrow> i < base + (if pred (xs ! base) then 1 else 0)" if "i < length xs" for i
      using less.prems that len by (cases i base rule: linorder_cases) auto
    with less.prems len show ?thesis
      by (subst (1 2) partition_loop.simps) auto
  next
    case False
    let ?half = "len div 2" let ?mid = "base + ?half"
    have half: "0 < ?half" "?half < len"
      using False by auto
    show ?thesis
    proof (cases "pred (xs ! ?mid)")
      case True
      have "pred (xs ! i)" if "i < ?mid" for i
        using assms(1) that True less.prems(2) half unfolding partitioned_def by auto
      then have "partition_loop pred xs ?mid (len - ?half) \<le> length xs \<and>
          (\<forall>i < length xs. pred (xs ! i) \<longleftrightarrow> i < partition_loop pred xs ?mid (len - ?half))"
        using half less.prems by (intro less.IH) auto
      with False True show ?thesis
        by (subst (1 2) partition_loop.simps) (simp add: Let_def)
    next
      case no: False
      have "\<not> pred (xs ! i)" if "?mid \<le> i" "i < length xs" for i
        using assms(1) [unfolded partitioned_def, rule_format, of ?mid i] that no
        by (cases "i = ?mid") auto
      moreover have "?mid \<le> base + (len - ?half)"
        by simp
      ultimately have "partition_loop pred xs base (len - ?half) \<le> length xs \<and>
          (\<forall>i < length xs. pred (xs ! i) \<longleftrightarrow> i < partition_loop pred xs base (len - ?half))"
        using half less.prems by (intro less.IH) auto
      with False no show ?thesis
        by (subst (1 2) partition_loop.simps) (simp add: Let_def)
    qed
  qed
qed

text \<open>
  The binary search is the linear scan: on a list whose elements satisfying the predicate come
  first, it returns their number.
\<close>

lemma partition_point_counts:
  assumes "partitioned pred xs"
  shows "partition_point pred xs = length (takeWhile pred xs)"
proof (cases "xs = []")
  case False
  let ?n = "partition_point pred xs"
  have n: "?n \<le> length xs" "\<forall>i < length xs. pred (xs ! i) \<longleftrightarrow> i < ?n"
    using partition_loop_spec [OF assms, of "length xs" 0] False by (simp_all add: partition_point_def)
  have "takeWhile pred xs = take ?n xs"
    using n by (intro takeWhile_eq_take_P_nth) auto
  then show ?thesis
    using n(1) by simp
qed (simp add: partition_point_def)

lemma partitioned_sorted: "sorted (map f xs) \<Longrightarrow> partitioned (\<lambda>x. f x \<le> q) xs"
  unfolding partitioned_def
  by (metis (mono_tags, lifting) order.strict_implies_order order.strict_trans length_map nth_map order.trans sorted_nth_mono)

section \<open>Runs of the store\<close>

fun mvp_run ::
    "serialize_fun \<Rightarrow> (u64 \<times> mvp_outcome \<times> ustring \<times> ustring) list \<Rightarrow> chronos_db \<Rightarrow> entry list \<times> chronos_db" where
  "mvp_run ser [] db = ([], db)"
| "mvp_run ser ((now, out, key, value) # ops) db =
     (case mvp_set ser now out key value db of
        (res, db1) \<Rightarrow>
          (case mvp_run ser ops db1 of
             (log, db2) \<Rightarrow>
               ((if res = None then log else \<lparr>en_key = key, en_value = value, en_timestamp = now\<rparr> # log), db2)))"

definition codec_ok :: "serialize_fun \<Rightarrow> deserialize_fun \<Rightarrow> bool" where
  "codec_ok ser de \<longleftrightarrow> (\<forall>e bs rest. ser e = Some bs \<longrightarrow> de (bs @ rest) = Some e)"

definition stored_at :: "serialize_fun \<Rightarrow> bytes \<Rightarrow> nat \<Rightarrow> entry \<Rightarrow> bool" where
  "stored_at ser file off e \<longleftrightarrow> (\<exists>pre bs rest. file = pre @ bs @ rest \<and> length pre = off \<and> ser e = Some bs)"

definition indexed :: "serialize_fun \<Rightarrow> bytes \<Rightarrow> u64 \<times> nat \<Rightarrow> entry \<Rightarrow> bool" where
  "indexed ser file h e \<longleftrightarrow> fst h = en_timestamp e \<and> stored_at ser file (snd h) e"

definition file_of :: "chronos_db \<Rightarrow> bytes" where
  "file_of db = (case cd_file db of Some bs \<Rightarrow> bs | None \<Rightarrow> [])"

definition entries_of :: "ustring \<Rightarrow> entry list \<Rightarrow> entry list" where
  "entries_of key log = filter (\<lambda>e. en_key e = key) log"

definition mvp_inv :: "serialize_fun \<Rightarrow> entry list \<Rightarrow> chronos_db \<Rightarrow> bool" where
  "mvp_inv ser log db \<longleftrightarrow> (\<forall>key.
     list_all2 (indexed ser (file_of db)) (history_of key db) (entries_of key log))"

lemma stored_at_append: "stored_at ser file off e \<Longrightarrow> stored_at ser (file @ bs) off e"
  unfolding stored_at_def by (metis append.assoc)

lemma indexed_append: "list_all2 (indexed ser file) hs es \<Longrightarrow> list_all2 (indexed ser (file @ bs)) hs es"
  by (erule list_all2_mono) (auto simp: indexed_def intro: stored_at_append)

lemma stored_at_end: "ser e = Some bs \<Longrightarrow> stored_at ser (file @ bs) (length file) e"
  unfolding stored_at_def by (intro exI [of _ "file"] exI [of _ bs] exI [of _ "[]"]) simp

lemma mvp_inv_append:
  assumes "mvp_inv ser log db" and "cd_file db' = Some (file_of db @ bs)" and "cd_index db' = cd_index db"
  shows "mvp_inv ser log db'"
proof -
  have "file_of db' = file_of db @ bs"
    using assms(2) by (simp add: file_of_def)
  moreover have "history_of key db' = history_of key db" for key
    using assms(3) by (simp add: history_of_def)
  ultimately show ?thesis
    using assms(1) by (simp add: mvp_inv_def indexed_append)
qed

lemma history_update:
  "history_of k (db\<lparr>cd_file := f, cd_index := AList.update key h (cd_index db)\<rparr>) =
     (if k = key then h else history_of k db)"
  by (simp add: history_of_def update_conv')

lemma mvp_set_inv:
  assumes "mvp_inv ser log db" and "mvp_set ser now out key value db = (res, db')"
  shows "mvp_inv ser (log @ (if res = None then [] else [\<lparr>en_key = key, en_value = value, en_timestamp = now\<rparr>])) db'"
proof -
  let ?e = "\<lparr>en_key = key, en_value = value, en_timestamp = now\<rparr>"
  let ?file = "file_of db"
  have created: "mvp_inv ser log (db\<lparr>cd_file := Some (?file @ bs)\<rparr>)" for bs
    using assms(1) by (rule mvp_inv_append) simp_all
  show ?thesis
  proof (cases "out = MvpOk \<and> ser ?e \<noteq> None")
    case True
    then obtain bs where bs: "ser ?e = Some bs" and "out = MvpOk" by auto
    let ?db = "db\<lparr>cd_file := Some (?file @ bs),
        cd_index := AList.update key (history_of key db @ [(now, length ?file)]) (cd_index db)\<rparr>"
    have db': "db' = ?db" "res = Some now"
      using assms(2) bs \<open>out = MvpOk\<close> by (auto simp: mvp_set_def Let_def file_of_def)
    have old: "list_all2 (indexed ser (?file @ bs)) (history_of k db) (entries_of k log)" for k
      using assms(1) by (simp add: mvp_inv_def indexed_append)
    have "file_of ?db = ?file @ bs"
      by (simp add: file_of_def)
    with old stored_at_end [of ser ?e bs ?file] bs show ?thesis
      by (auto simp: mvp_inv_def db' history_update entries_of_def indexed_def intro!: list_all2_appendI)
  next
    case False
    have "res = None \<and> (db' = db \<or> (\<exists>bs. db' = db\<lparr>cd_file := Some (?file @ bs)\<rparr>))"
      using assms(2) False append_Nil2 [of ?file]
      by (cases out; cases "ser ?e") (auto simp: mvp_set_def Let_def file_of_def intro: exI [of _ "[]"])
    with created assms(1) show ?thesis by auto
  qed
qed

lemma mvp_run_inv:
  "mvp_inv ser log db \<Longrightarrow> mvp_run ser ops db = (log', db') \<Longrightarrow> mvp_inv ser (log @ log') db'"
proof (induction ops arbitrary: log db log')
  case (Cons op ops)
  obtain now out key val where op: "op = (now, out, key, val)" by (cases op)
  obtain res db1 where s: "mvp_set ser now out key val db = (res, db1)" by fastforce
  obtain log2 where r: "mvp_run ser ops db1 = (log2, db')"
    and log': "log' = (if res = None then [] else [\<lparr>en_key = key, en_value = val, en_timestamp = now\<rparr>]) @ log2"
    using Cons.prems(2) by (auto simp: op s split: prod.splits if_splits)
  from Cons.IH [OF mvp_set_inv [OF Cons.prems(1) s] r] show ?case
    by (simp add: log')
qed simp

text \<open>What time travel should find: the last value set for the key at or before the time.\<close>

definition value_at :: "entry list \<Rightarrow> ustring \<Rightarrow> u64 \<Rightarrow> ustring option" where
  "value_at log key q =
     (case filter (\<lambda>e. en_key e = key \<and> en_timestamp e \<le> q) log of [] \<Rightarrow> None | es \<Rightarrow> Some (en_value (last es)))"

lemma list_all2_take_while:
  assumes "list_all2 R hs es" and "\<And>h e. R h e \<Longrightarrow> P h = Q e"
  shows "length (takeWhile P hs) = length (takeWhile Q es)"
  using assms by (induction rule: list_all2_induct) auto

lemma takeWhile_filter_sorted:
  "sorted (map f es) \<Longrightarrow> takeWhile (\<lambda>e. f e \<le> q) es = filter (\<lambda>e. f e \<le> q) es"
proof (induction es)
  case (Cons a es)
  show ?case
  proof (cases "f a \<le> q")
    case False
    then have "filter (\<lambda>e. f e \<le> q) es = []"
      using Cons.prems by (auto simp: filter_empty_conv dest: order.trans)
    with False show ?thesis by simp
  qed (use Cons in simp)
qed simp

lemma read_indexed:
  assumes "codec_ok ser de" and "indexed ser (file_of db) h e" and "cd_file db \<noteq> None"
  shows "read_at de db (snd h) = Some (en_value e)"
  using assms by (auto simp: read_at_def indexed_def stored_at_def codec_ok_def file_of_def)

lemma mvp_file_exists:
  "mvp_run ser ops db = (log, db') \<Longrightarrow> cd_file db \<noteq> None \<or> log \<noteq> [] \<Longrightarrow> cd_file db' \<noteq> None"
proof (induction ops arbitrary: db log)
  case (Cons op ops)
  obtain now out key val where op: "op = (now, out, key, val)" by (cases op)
  obtain res db1 where s: "mvp_set ser now out key val db = (res, db1)" by fastforce
  have "cd_file db1 \<noteq> None" if "cd_file db \<noteq> None \<or> res \<noteq> None"
    using s that by (auto simp: mvp_set_def Let_def split: if_splits option.splits mvp_outcome.splits)
  with Cons.prems Cons.IH [of db1] show ?case
    by (auto simp: op s split: prod.splits if_splits)
qed auto

lemma value_at_nth:
  assumes "sorted (map en_timestamp (entries_of key log))"
    and "n = length (filter (\<lambda>e. en_timestamp e \<le> q) (entries_of key log))"
  shows "value_at log key q = (if n = 0 then None else Some (en_value (entries_of key log ! (n - 1))))"
proof -
  let ?es = "entries_of key log" and ?Q = "\<lambda>e. en_timestamp e \<le> q"
  have f: "filter (\<lambda>e. en_key e = key \<and> en_timestamp e \<le> q) log = takeWhile ?Q ?es"
    using takeWhile_filter_sorted [OF assms(1)] by (simp add: entries_of_def conj_commute)
  have n: "n = length (takeWhile ?Q ?es)"
    using takeWhile_filter_sorted [OF assms(1)] assms(2) by simp
  show ?thesis
  proof (cases "takeWhile ?Q ?es = []")
    case False
    then have "last (takeWhile ?Q ?es) = ?es ! (n - 1)"
      unfolding n by (simp add: last_conv_nth takeWhile_nth)
    moreover have "value_at log key q = Some (en_value (last (takeWhile ?Q ?es)))"
      unfolding value_at_def f using False by (cases "takeWhile ?Q ?es") simp_all
    moreover have "n \<noteq> 0"
      unfolding n using False by simp
    ultimately show ?thesis by (simp only: if_False)
  next
    case True
    then show ?thesis
      unfolding value_at_def f n True by simp
  qed
qed

text \<open>The binary search over the history counts the entries of the key that are old enough.\<close>

lemma search_counts:
  assumes "list_all2 (indexed ser file) (history_of key db) (entries_of key log)"
    and "sorted (map en_timestamp (entries_of key log))"
  shows "partition_point (\<lambda>(t, _). t \<le> q) (history_of key db) =
    length (filter (\<lambda>e. en_timestamp e \<le> q) (entries_of key log))"
proof -
  let ?es = "entries_of key log" and ?hs = "history_of key db"
  let ?P = "\<lambda>(t, _). t \<le> q" and ?Q = "\<lambda>e. en_timestamp e \<le> q"
  have "map fst ?hs = map en_timestamp ?es"
    using assms(1) by (induction rule: list_all2_induct) (auto simp: indexed_def)
  then have "partitioned ?P ?hs"
    using partitioned_sorted [of fst ?hs q] assms(2) by (simp add: case_prod_beta')
  then have "partition_point ?P ?hs = length (takeWhile ?P ?hs)"
    by (rule partition_point_counts)
  also have "\<dots> = length (takeWhile ?Q ?es)"
    using assms(1) by (rule list_all2_take_while) (auto simp: indexed_def)
  finally show ?thesis
    using takeWhile_filter_sorted [OF assms(2)] by simp
qed

lemma get_at_time_value:
  assumes "codec_ok ser de" and "mvp_run ser ops \<lparr>cd_file = None, cd_index = []\<rparr> = (log, db)"
    and "sorted (map en_timestamp (entries_of key log))"
  shows "get_at_time de db key q = value_at log key q"
proof -
  let ?es = "entries_of key log" and ?hs = "history_of key db"
  let ?n = "length (filter (\<lambda>e. en_timestamp e \<le> q) ?es)"
  have "mvp_inv ser [] \<lparr>cd_file = None, cd_index = []\<rparr>"
    by (simp add: mvp_inv_def history_of_def entries_of_def)
  from mvp_run_inv [OF this assms(2)] have idx: "list_all2 (indexed ser (file_of db)) ?hs ?es"
    by (simp add: mvp_inv_def)
  note search = search_counts [OF idx assms(3), of q] and val = value_at_nth [OF assms(3) refl, of q]
  show ?thesis
  proof (cases "?n = 0")
    case True
    with search val show ?thesis
      by (auto simp: get_at_time_def history_of_def Let_def split: option.splits)
  next
    case False
    then have k: "?n - 1 < length ?es" "?es \<noteq> []"
      using length_filter_le [of "\<lambda>e. en_timestamp e \<le> q" ?es]
      by (auto intro: order.strict_trans2 simp: diff_less)
    then have "log \<noteq> []"
      by (auto simp: entries_of_def)
    then have "cd_file db \<noteq> None"
      using mvp_file_exists [OF assms(2)] by simp
    moreover have "indexed ser (file_of db) (?hs ! (?n - 1)) (?es ! (?n - 1))"
      using idx k(1) by (simp add: list_all2_conv_all_nth)
    ultimately have "read_at de db (snd (?hs ! (?n - 1))) = Some (en_value (?es ! (?n - 1)))"
      using assms(1) by (intro read_indexed) auto
    moreover have "map_of (cd_index db) key = Some ?hs"
      using k(2) idx by (auto simp: history_of_def split: option.splits)
    ultimately show ?thesis
      using False search val by (simp add: get_at_time_def Let_def case_prod_beta)
  qed
qed

section \<open>The simulation\<close>

definition estado :: ustring where "estado = ascii ''estado''"
definition ACTIVO :: ustring where "ACTIVO = ascii ''ACTIVO''"
definition INACTIVO :: ustring where "INACTIVO = ascii ''INACTIVO''"
definition BORRADO :: ustring where "BORRADO = ascii ''BORRADO''"

text \<open>
  \<^verbatim>\<open>main\<close>: three states of one key, each written with \<^verbatim>\<open>unwrap\<close>, and a query 50 ms after the first.
  The arguments are the clock and the file system at each of the three writes.
\<close>

datatype demo_result = DemoPanic | DemoVerdict bool

definition mvp_main ::
    "serialize_fun \<Rightarrow> deserialize_fun \<Rightarrow> bytes option \<Rightarrow> bool \<Rightarrow>
     u64 \<times> mvp_outcome \<Rightarrow> u64 \<times> mvp_outcome \<Rightarrow> u64 \<times> mvp_outcome \<Rightarrow> demo_result" where
  "mvp_main ser de old_file remove_ok w1 w2 w3 =
     (case ChronosDB_new old_file remove_ok of
        None \<Rightarrow> DemoPanic
      | Some db \<Rightarrow>
          (case mvp_set ser (fst w1) (snd w1) estado ACTIVO db of
             (None, _) \<Rightarrow> DemoPanic
           | (Some t1, db1) \<Rightarrow>
               (case mvp_set ser (fst w2) (snd w2) estado INACTIVO db1 of
                  (None, _) \<Rightarrow> DemoPanic
                | (Some t2, db2) \<Rightarrow>
                    (case mvp_set ser (fst w3) (snd w3) estado BORRADO db2 of
                       (None, _) \<Rightarrow> DemoPanic
                     | (Some t3, db3) \<Rightarrow>
                         (let tiempo_fantasma = t1 + 50 in
                          case get_at_time de db3 estado tiempo_fantasma of
                            None \<Rightarrow> DemoPanic
                          | Some resultado \<Rightarrow> DemoVerdict (resultado = ACTIVO))))))"

lemma demo_values: "INACTIVO \<noteq> ACTIVO" "BORRADO \<noteq> ACTIVO"
  by (simp_all add: ACTIVO_def INACTIVO_def BORRADO_def ascii_def)

definition demo_writes :: "u64 \<times> mvp_outcome \<Rightarrow> u64 \<times> mvp_outcome \<Rightarrow> u64 \<times> mvp_outcome \<Rightarrow>
    (u64 \<times> mvp_outcome \<times> ustring \<times> ustring) list" where
  "demo_writes w1 w2 w3 =
     [(fst w1, snd w1, estado, ACTIVO), (fst w2, snd w2, estado, INACTIVO), (fst w3, snd w3, estado, BORRADO)]"

lemma mvp_set_time: "mvp_set ser now out key value db = (Some t, db') \<Longrightarrow> t = now"
  by (auto simp: mvp_set_def Let_def split: if_splits option.splits mvp_outcome.splits)

text \<open>
  The simulation passes exactly when its sleeps take effect: with every call succeeding and a clock
  that does not go back, the verdict is that the second write came more than 50 ms after the first.
\<close>

lemma mvp_main_verdict:
  assumes codec: "codec_ok ser de" and "mvp_main ser de old_file remove_ok w1 w2 w3 \<noteq> DemoPanic"
    and "fst w1 \<le> fst w2" and "fst w2 \<le> fst w3" and "fst w1 \<le> fst w1 + 50"
  shows "mvp_main ser de old_file remove_ok w1 w2 w3 = DemoVerdict (fst w1 + 50 < fst w2)"
proof -
  let ?db = "\<lparr>cd_file = None, cd_index = []\<rparr>"
  obtain t1 db1 t2 db2 t3 db3 where new: "ChronosDB_new old_file remove_ok = Some ?db"
      and s1: "mvp_set ser (fst w1) (snd w1) estado ACTIVO ?db = (Some t1, db1)"
      and s2: "mvp_set ser (fst w2) (snd w2) estado INACTIVO db1 = (Some t2, db2)"
      and s3: "mvp_set ser (fst w3) (snd w3) estado BORRADO db2 = (Some t3, db3)"
    using assms(2) by (auto simp: mvp_main_def ChronosDB_new_def split: option.splits prod.splits if_splits)
  let ?log = "[\<lparr>en_key = estado, en_value = ACTIVO, en_timestamp = fst w1\<rparr>,
    \<lparr>en_key = estado, en_value = INACTIVO, en_timestamp = fst w2\<rparr>,
    \<lparr>en_key = estado, en_value = BORRADO, en_timestamp = fst w3\<rparr>]"
  have "mvp_run ser (demo_writes w1 w2 w3) ?db = (?log, db3)"
    by (simp add: demo_writes_def s1 s2 s3)
  moreover have "sorted (map en_timestamp (entries_of estado ?log))"
    using assms(3,4) by (auto simp: entries_of_def)
  ultimately have "get_at_time de db3 estado (fst w1 + 50) = value_at ?log estado (fst w1 + 50)"
    by (rule get_at_time_value [OF codec])
  also have "\<dots> = Some (if fst w1 + 50 < fst w2 then ACTIVO else if fst w1 + 50 < fst w3 then INACTIVO else BORRADO)"
    using assms(3-5) by (auto simp: value_at_def not_less)
  finally show ?thesis
    using mvp_set_time [OF s1] demo_values by (simp add: mvp_main_def new s1 s2 s3)
qed

text \<open>
  C35: time travel. After any sequence of sets, some of which fail at any step (leaving partial
  entries in the file), a query gives the value of the last successful set of the key at or
  before the time asked for, and nothing if there was none, provided the clock did not go back
  between the sets of that key. The binary search and the offsets into the file are exact.
\<close>

theorem get_at_time_travels:
  assumes "codec_ok ser de" and "mvp_run ser ops \<lparr>cd_file = None, cd_index = []\<rparr> = (log, db)"
    and "sorted (map en_timestamp (entries_of key log))"
  shows "get_at_time de db key q = value_at log key q"
  using assms by (rule get_at_time_value)

definition demo_entry :: "nat \<Rightarrow> entry" where
  "demo_entry i = \<lparr>en_key = estado,
     en_value = (if i = 1 then ACTIVO else if i = 2 then INACTIVO else BORRADO),
     en_timestamp = of_nat (1000 + 100 * i)\<rparr>"

definition demo_ser :: serialize_fun where
  "demo_ser e = (if e = demo_entry 1 then Some [1] else if e = demo_entry 2 then Some [2]
     else if e = demo_entry 3 then Some [3] else None)"

definition demo_de :: deserialize_fun where
  "demo_de bs = (case bs of [] \<Rightarrow> None | b # _ \<Rightarrow>
     if b = 1 then Some (demo_entry 1) else if b = 2 then Some (demo_entry 2)
     else if b = 3 then Some (demo_entry 3) else None)"

definition demo_ops :: "(u64 \<times> mvp_outcome \<times> ustring \<times> ustring) list" where
  "demo_ops = map (\<lambda>i. (en_timestamp (demo_entry i), MvpOk, estado, en_value (demo_entry i))) [1, 2, 3]"

lemma demo_codec: "codec_ok demo_ser demo_de"
  by (auto simp: codec_ok_def demo_ser_def demo_de_def split: if_splits)

theorem get_at_time_travels_witness:
  "\<exists>log db. mvp_run demo_ser demo_ops \<lparr>cd_file = None, cd_index = []\<rparr> = (log, db) \<and>
     get_at_time demo_de db estado (1100 + 50) = Some ACTIVO"
proof -
  have differ: "demo_entry 1 \<noteq> demo_entry 2" "demo_entry 1 \<noteq> demo_entry 3" "demo_entry 2 \<noteq> demo_entry 3"
    by (simp_all add: demo_entry_def ascii_def)
  have entry: "\<lparr>en_key = estado, en_value = en_value (demo_entry i), en_timestamp = en_timestamp (demo_entry i)\<rparr> = demo_entry i" for i
    by (simp add: demo_entry_def)
  obtain log db where run: "mvp_run demo_ser demo_ops \<lparr>cd_file = None, cd_index = []\<rparr> = (log, db)" by fastforce
  then have log: "log = [demo_entry 1, demo_entry 2, demo_entry 3]"
    using differ differ [symmetric]
    by (auto simp: demo_ops_def mvp_set_def Let_def entry demo_ser_def split: prod.splits)
  have "sorted (map en_timestamp (entries_of estado log))"
    unfolding log by (simp add: entries_of_def demo_entry_def)
  from get_at_time_travels [OF demo_codec run this, of "1100 + 50"]
  have "get_at_time demo_de db estado (1100 + 50) = Some ACTIVO"
    unfolding log by (simp add: value_at_def demo_entry_def)
  with run show ?thesis by blast
qed

end
