(* ===== verification/Stroke_Payload.thy ===== *)
theory Stroke_Payload
  imports Stroke_Event
begin

text \<open>
  The WebSocket payload contract: \<^verbatim>\<open>parse_stroke_payload\<close> of \<^verbatim>\<open>aegis/src/main.rs\<close>, and the
  frame that the page builds in \<^verbatim>\<open>sendPoint\<close> of \<^verbatim>\<open>celer/src/index.html\<close>. Coordinates are the
  32 bits on the wire; no operation here interprets them as numbers.
\<close>

section \<open>Definitions\<close>

definition STROKE_PAYLOAD_LEN :: nat where "STROKE_PAYLOAD_LEN = 13"

record parsed_stroke =
  ps_x :: f32
  ps_y :: f32
  ps_pressure :: f32
  ps_action :: u8

datatype parse_outcome = Valid parsed_stroke | WrongLength | InvalidFlag u8

definition slice :: "nat \<Rightarrow> nat \<Rightarrow> bytes \<Rightarrow> bytes" where
  "slice a b bs = take (b - a) (drop a bs)"

text \<open>\<^verbatim>\<open>f32::from_le_bytes(s.try_into().unwrap_or([0; 4]))\<close>\<close>

definition f32_from_slice :: "bytes \<Rightarrow> f32" where
  "f32_from_slice s = of_le_bytes (if length s = 4 then s else [0, 0, 0, 0])"

definition parse_stroke_payload :: "bytes \<Rightarrow> parse_outcome" where
  "parse_stroke_payload bin_data =
     (if length bin_data \<noteq> STROKE_PAYLOAD_LEN then WrongLength
      else
        (let x = f32_from_slice (slice 0 4 bin_data);
             y = f32_from_slice (slice 4 8 bin_data);
             pressure = 0x3F800000;
             flag = bin_data ! 12 in
         if flag = ACTION_DOWN \<or> flag = ACTION_MOVE \<or> flag = ACTION_UP
         then Valid \<lparr>ps_x = x, ps_y = y, ps_pressure = pressure, ps_action = flag\<rparr>
         else InvalidFlag flag))"

text \<open>
  \<^verbatim>\<open>sendPoint\<close>: a 13-byte buffer, the two coordinates and the constant 1.0 as little-endian
  floats, then the flag.
\<close>

definition sendPoint :: "f32 \<Rightarrow> f32 \<Rightarrow> u8 \<Rightarrow> bytes" where
  "sendPoint x y flag = le_bytes 4 x @ le_bytes 4 y @ le_bytes 4 (0x3F800000 :: f32) @ [flag]"

section \<open>Properties\<close>

definition known_action :: "u8 \<Rightarrow> bool" where
  "known_action a \<longleftrightarrow> a = ACTION_DOWN \<or> a = ACTION_MOVE \<or> a = ACTION_UP"

lemma known_action_iff: "known_action a \<longleftrightarrow> unat a < 3"
  by (auto simp: known_action_def action_defs word_unat_eq_iff)

lemma slices_of_four:
  assumes "length a = 4" and "length b = 4" and "length c = 4"
  shows "slice 0 4 (a @ b @ c @ [f]) = a" and "slice 4 8 (a @ b @ c @ [f]) = b"
    and "(a @ b @ c @ [f]) ! 12 = f"
  using assms by (simp_all add: slice_def nth_append)

lemma parse_chunks:
  assumes "length a = 4" and "length b = 4" and "length c = 4"
  shows "parse_stroke_payload (a @ b @ c @ [flag]) =
    (if known_action flag
     then Valid \<lparr>ps_x = of_le_bytes a, ps_y = of_le_bytes b, ps_pressure = 0x3F800000, ps_action = flag\<rparr>
     else InvalidFlag flag)"
  using assms slices_of_four [OF assms]
  by (simp add: parse_stroke_payload_def STROKE_PAYLOAD_LEN_def f32_from_slice_def known_action_def)

lemma parse_known_sendPoint:
  "known_action flag \<Longrightarrow> parse_stroke_payload (sendPoint x y flag) =
     Valid \<lparr>ps_x = x, ps_y = y, ps_pressure = 0x3F800000, ps_action = flag\<rparr>"
  by (simp add: sendPoint_def parse_chunks)

text \<open>
  C36: round trip between the page and the proxy. What \<^verbatim>\<open>sendPoint\<close> encodes, the parser
  decodes to the same coordinate bits and the same action; the pressure the page writes into the
  reserved bytes is not what is read back: the parser puts the constant 1.0 whatever they hold.
  A flag outside the protocol is reported as such.
\<close>

theorem parse_sendPoint:
  "parse_stroke_payload (sendPoint x y flag) =
     (if unat flag < 3
      then Valid \<lparr>ps_x = x, ps_y = y, ps_pressure = 0x3F800000, ps_action = flag\<rparr>
      else InvalidFlag flag)
   \<and> parse_stroke_payload (le_bytes 4 x @ le_bytes 4 y @ le_bytes 4 (pressure :: f32) @ [flag])
       = parse_stroke_payload (sendPoint x y flag)"
  by (simp add: sendPoint_def parse_chunks known_action_iff)

lemma split_13:
  assumes "length bin = 13"
  obtains a b c f where "bin = a @ b @ c @ [f]" and "length a = 4" and "length b = 4" and "length c = 4"
proof
  have one: "drop 12 bin = [bin ! 12]"
    using assms by (simp add: list_eq_iff_nth_eq)
  have "take 4 bin @ take 4 (drop 4 bin) @ take 4 (drop 8 bin) @ drop 12 bin = bin"
    using append_take_drop_id [of 4 bin] append_take_drop_id [of 4 "drop 4 bin"]
      append_take_drop_id [of 4 "drop 8 bin"] by simp
  then show "bin = take 4 bin @ take 4 (drop 4 bin) @ take 4 (drop 8 bin) @ [bin ! 12]"
    by (simp add: one)
qed (use assms in simp_all)

text \<open>
  C14: the parser accepts exactly the 13-byte frames that end in a known action, and the frame
  determines the stroke: every other length is \<^verbatim>\<open>WrongLength\<close>, every other flag
  \<^verbatim>\<open>InvalidFlag\<close> with that flag, and an accepted frame is the page's encoding of the stroke it
  yields, up to its four reserved bytes.
\<close>

theorem parse_stroke_payload_spec:
  "(parse_stroke_payload bin = WrongLength \<longleftrightarrow> length bin \<noteq> 13) \<and>
   (parse_stroke_payload bin = InvalidFlag f \<longleftrightarrow> length bin = 13 \<and> bin ! 12 = f \<and> 3 \<le> unat f) \<and>
   (parse_stroke_payload bin = Valid p \<longleftrightarrow>
      ps_pressure p = 0x3F800000 \<and> unat (ps_action p) < 3 \<and>
      (\<exists>pad. length pad = 4 \<and> bin = le_bytes 4 (ps_x p) @ le_bytes 4 (ps_y p) @ pad @ [ps_action p]))"
proof (cases "length bin = 13")
  case False
  then show ?thesis by (auto simp: parse_stroke_payload_def STROKE_PAYLOAD_LEN_def)
next
  case True
  then obtain a b c g where bin: "bin = a @ b @ c @ [g]" and len: "length a = 4" "length b = 4" "length c = 4"
    by (rule split_13)
  have le: "le_bytes 4 (of_le_bytes z :: f32) = z" if "length z = 4" for z
    using le_bytes_of_le_bytes [of z, where 'a = 32] that by simp
  have last: "bin ! 12 = g"
    unfolding bin by (rule slices_of_four(3) [OF len])
  have frame: "(\<exists>pad. length pad = 4 \<and> bin = le_bytes 4 x @ le_bytes 4 y @ pad @ [h]) \<longleftrightarrow>
      a = le_bytes 4 x \<and> b = le_bytes 4 y \<and> g = h" for x y :: f32 and h
    using len by (auto simp: bin append_eq_append_conv)
  have codec: "a = le_bytes 4 x \<longleftrightarrow> of_le_bytes a = x" "b = le_bytes 4 x \<longleftrightarrow> of_le_bytes b = x" for x :: f32
    using le [OF len(1)] le [OF len(2)] by (metis of_le_bytes_le_bytes_32)+
  have parsed: "parse_stroke_payload bin = (if known_action g
     then Valid \<lparr>ps_x = of_le_bytes a, ps_y = of_le_bytes b, ps_pressure = 0x3F800000, ps_action = g\<rparr>
     else InvalidFlag g)"
    unfolding bin by (rule parse_chunks [OF len])
  show ?thesis
    unfolding frame parsed using True last
    by (cases p) (auto simp: codec known_action_iff)
qed

end
