(* ===== verification/Aegis_Session.thy ===== *)
theory Aegis_Session
  imports Stroke_Payload Shared_Ring
begin

text \<open>
  The WebSocket dojo of \<^verbatim>\<open>aegis/src/main.rs\<close> (thread 2): the loop of one session over the
  messages of its socket, and the accept loop that numbers the sessions and gives each a clone
  of the producer handle. The runtime is single-threaded and a session only yields between two
  messages, so one message is one atomic step of the dojo; the steps of the consumer interleave
  freely with them.
\<close>

section \<open>One message\<close>

datatype ws_item =
    WsBinary bytes
  | WsClose
  | WsOther \<comment> \<open>text, ping, pong and raw frames, and \<^verbatim>\<open>Err\<close> items: the \<^verbatim>\<open>_ => {}\<close> arm\<close>

text \<open>
  What the handler reads from its surroundings when a stroke arrives: the wall clock (\<^verbatim>\<open>None\<close> if
  it is set before the epoch, else nanoseconds since) and the identifiers of the span.
\<close>

record recv_env =
  env_since_epoch :: "nat option"
  env_trace_id :: bytes
  env_span_id :: bytes

definition wf_env :: "recv_env \<Rightarrow> bool" where
  "wf_env env \<longleftrightarrow> length (env_trace_id env) = 16 \<and> length (env_span_id env) = 8"

definition timestamp_nanos :: "recv_env \<Rightarrow> u64" where
  "timestamp_nanos env = of_nat (case env_since_epoch env of None \<Rightarrow> 0 | Some ns \<Rightarrow> ns)"

definition build_event :: "u32 \<Rightarrow> recv_env \<Rightarrow> parsed_stroke \<Rightarrow> stroke_event" where
  "build_event sid env parsed =
     \<lparr>ev_session_id = sid, ev_timestamp = timestamp_nanos env,
      ev_x = ps_x parsed, ev_y = ps_y parsed, ev_pressure = ps_pressure parsed,
      ev_action = ps_action parsed, ev_trace_id = env_trace_id env,
      ev_parent_span_id = env_span_id env\<rparr>"

datatype message_outcome =
    Injected bool \<comment> \<open>whether the ring took the stroke; \<^verbatim>\<open>False\<close> is logged as saturation\<close>
  | Skipped
  | UnknownFlag u8 \<comment> \<open>logged; the session returns\<close>
  | Disconnected

definition handle_message ::
    "u32 \<Rightarrow> ws_item \<times> recv_env \<Rightarrow> aegis_producer \<Rightarrow> shared_ring
       \<Rightarrow> ring_fault + message_outcome \<times> aegis_producer \<times> shared_ring" where
  "handle_message sid msg producer r =
     (case fst msg of
        WsBinary bin_data \<Rightarrow>
          (case parse_stroke_payload bin_data of
             Valid parsed \<Rightarrow>
               (case push (build_event sid (snd msg) parsed) producer r of
                  Inl f \<Rightarrow> Inl f
                | Inr (res, producer', r') \<Rightarrow> Inr (Injected (\<not> isl res), producer', r'))
           | WrongLength \<Rightarrow> Inr (Skipped, producer, r)
           | InvalidFlag flag \<Rightarrow> Inr (UnknownFlag flag, producer, r))
      | WsClose \<Rightarrow> Inr (Disconnected, producer, r)
      | WsOther \<Rightarrow> Inr (Skipped, producer, r))"

definition ends_session :: "message_outcome \<Rightarrow> bool" where
  "ends_session out \<longleftrightarrow> (case out of UnknownFlag _ \<Rightarrow> True | Disconnected \<Rightarrow> True | _ \<Rightarrow> False)"

fun session_loop ::
    "u32 \<Rightarrow> (ws_item \<times> recv_env) list \<Rightarrow> aegis_producer \<Rightarrow> shared_ring
       \<Rightarrow> ring_fault + message_outcome list \<times> aegis_producer \<times> shared_ring" where
  "session_loop sid [] producer r = Inr ([], producer, r)"
| "session_loop sid (msg # msgs) producer r =
     (case handle_message sid msg producer r of
        Inl f \<Rightarrow> Inl f
      | Inr (out, producer', r') \<Rightarrow>
          if ends_session out then Inr ([out], producer', r')
          else (case session_loop sid msgs producer' r' of
                  Inl f \<Rightarrow> Inl f
                | Inr (outs, producer'', r'') \<Rightarrow> Inr (out # outs, producer'', r'')))"

section \<open>The accept loop\<close>

datatype session_phase = Handshaking | Open | Ended

record session_task =
  st_id :: u32
  st_producer :: aegis_producer
  st_phase :: session_phase

record dojo =
  dj_counter :: u32 \<comment> \<open>\<^verbatim>\<open>SESSION_COUNTER\<close>\<close>
  dj_producer :: aegis_producer \<comment> \<open>the boxed handle, only ever cloned\<close>
  dj_listening :: bool
  dj_tasks :: "session_task list" \<comment> \<open>in the order of the accepts\<close>
  dj_ring :: shared_ring
  dj_consumer :: celer_consumer \<comment> \<open>CELER's side of the ring\<close>

definition dojo_new :: dojo where
  "dojo_new = \<lparr>dj_counter = 1, dj_producer = AegisProducer_new, dj_listening = True, dj_tasks = [],
     dj_ring = zeroed_ring, dj_consumer = CelerConsumer_new\<rparr>"

datatype dojo_event =
    Accept
  | AcceptError
  | HandshakeDone nat bool
  | Frame nat ws_item recv_env
  | EndOfStream nat
  | ConsumerPop

definition in_phase :: "nat \<Rightarrow> session_phase \<Rightarrow> session_task list \<Rightarrow> bool" where
  "in_phase k ph tasks \<longleftrightarrow> k < length tasks \<and> st_phase (tasks ! k) = ph"

definition set_phase :: "nat \<Rightarrow> session_phase \<Rightarrow> dojo \<Rightarrow> dojo" where
  "set_phase k ph d = d\<lparr>dj_tasks := (dj_tasks d)[k := (dj_tasks d ! k)\<lparr>st_phase := ph\<rparr>]\<rparr>"

definition accept_session :: "dojo \<Rightarrow> dojo" where
  "accept_session d = d\<lparr>dj_counter := dj_counter d + 1,
     dj_tasks := dj_tasks d @
       [\<lparr>st_id = dj_counter d, st_producer = AegisProducer_clone (dj_producer d), st_phase = Handshaking\<rparr>]\<rparr>"

definition channel_results :: "message_outcome \<Rightarrow> stroke_event channel_result list" where
  "channel_results out = (case out of Injected ok \<Rightarrow> [Pushed ok] | _ \<Rightarrow> [])"

definition receive_frame ::
    "nat \<Rightarrow> ws_item \<times> recv_env \<Rightarrow> dojo \<Rightarrow> ring_fault + stroke_event channel_result list \<times> dojo" where
  "receive_frame k msg d =
     (let t = dj_tasks d ! k in
      case handle_message (st_id t) msg (st_producer t) (dj_ring d) of
        Inl f \<Rightarrow> Inl f
      | Inr (out, producer', r') \<Rightarrow>
          Inr (channel_results out,
               d\<lparr>dj_ring := r', dj_tasks := (dj_tasks d)[k := t\<lparr>st_producer := producer',
                    st_phase := if ends_session out then Ended else Open\<rparr>]\<rparr>))"

text \<open>
  An event that the state does not allow (a frame on a session that is not open, an accept
  after the listener failed) leaves the state alone.
\<close>

fun dojo_step :: "dojo_event \<Rightarrow> dojo \<Rightarrow> ring_fault + stroke_event channel_result list \<times> dojo" where
  "dojo_step Accept d = Inr ([], if dj_listening d then accept_session d else d)"
| "dojo_step AcceptError d = Inr ([], d\<lparr>dj_listening := False\<rparr>)"
| "dojo_step (HandshakeDone k ok) d =
     Inr ([], if in_phase k Handshaking (dj_tasks d) then set_phase k (if ok then Open else Ended) d else d)"
| "dojo_step (Frame k item env) d =
     (if in_phase k Open (dj_tasks d) then receive_frame k (item, env) d else Inr ([], d))"
| "dojo_step (EndOfStream k) d =
     Inr ([], if in_phase k Open (dj_tasks d) then set_phase k Ended d else d)"
| "dojo_step ConsumerPop d =
     (case pop (dj_consumer d) (dj_ring d) of
        Inl f \<Rightarrow> Inl f
      | Inr (res, c', r') \<Rightarrow> Inr ([Popped res], d\<lparr>dj_consumer := c', dj_ring := r'\<rparr>))"

fun dojo_run :: "dojo_event list \<Rightarrow> dojo \<Rightarrow> ring_fault + stroke_event channel_result list \<times> dojo" where
  "dojo_run [] d = Inr ([], d)"
| "dojo_run (e # es) d =
     (case dojo_step e d of
        Inl f \<Rightarrow> Inl f
      | Inr (rs, d1) \<Rightarrow>
          (case dojo_run es d1 of Inl f \<Rightarrow> Inl f | Inr (rs', d2) \<Rightarrow> Inr (rs @ rs', d2)))"

section \<open>What a session sends\<close>

fun message_strokes :: "u32 \<Rightarrow> ws_item \<times> recv_env \<Rightarrow> stroke_event list" where
  "message_strokes sid (WsBinary bin, env) =
     (case parse_stroke_payload bin of Valid p \<Rightarrow> [build_event sid env p] | _ \<Rightarrow> [])"
| "message_strokes sid (_, env) = []"

fun message_ends :: "ws_item \<Rightarrow> bool" where
  "message_ends (WsBinary bin) = (case parse_stroke_payload bin of InvalidFlag _ \<Rightarrow> True | _ \<Rightarrow> False)"
| "message_ends WsClose = True"
| "message_ends WsOther = False"

fun session_strokes :: "u32 \<Rightarrow> (ws_item \<times> recv_env) list \<Rightarrow> stroke_event list" where
  "session_strokes sid [] = []"
| "session_strokes sid (msg # msgs) =
     message_strokes sid msg @ (if message_ends (fst msg) then [] else session_strokes sid msgs)"

definition saturations :: "message_outcome list \<Rightarrow> nat" where
  "saturations outs = length (filter (\<lambda>out. out = Injected False) outs)"

text \<open>A message touches the ring at most once, by the push of its stroke.\<close>

lemma handle_message_eq:
  "handle_message sid msg p r =
     (case message_strokes sid msg of
        e # _ \<Rightarrow> (case push e p r of Inl f \<Rightarrow> Inl f | Inr (res, p', r') \<Rightarrow> Inr (Injected (\<not> isl res), p', r'))
      | [] \<Rightarrow> Inr (case fst msg of
                WsBinary bin \<Rightarrow> (case parse_stroke_payload bin of InvalidFlag f \<Rightarrow> UnknownFlag f | _ \<Rightarrow> Skipped)
              | WsClose \<Rightarrow> Disconnected | WsOther \<Rightarrow> Skipped, p, r))"
  by (cases "(sid, msg)" rule: message_strokes.cases) (auto simp: handle_message_def split: parse_outcome.splits)

lemma message_strokes_cases:
  obtains (stroke) e where "message_strokes sid msg = [e]" and "\<not> message_ends (fst msg)"
    | (control) "message_strokes sid msg = []"
proof (cases "(sid, msg)" rule: message_strokes.cases)
  case (1 _ bin env)
  with stroke control show thesis by (cases "parse_stroke_payload bin") auto
qed (use control in auto)

lemma handle_message_control:
  "message_strokes sid msg = [] \<Longrightarrow>
   \<exists>out. handle_message sid msg p r = Inr (out, p, r) \<and> (\<forall>ok. out \<noteq> Injected ok) \<and>
     ends_session out = message_ends (fst msg)"
  by (cases "(sid, msg)" rule: message_strokes.cases)
     (auto simp: handle_message_def ends_session_def split: parse_outcome.splits)

lemma handle_message_stroke:
  "message_strokes sid msg = [e] \<Longrightarrow> push e p r = Inr (res, p', r') \<Longrightarrow>
   handle_message sid msg p r = Inr (Injected (\<not> isl res), p', r')"
  by (simp add: handle_message_eq)

lemma ends_session_simps [simp]:
  "\<not> ends_session (Injected ok)" "\<not> ends_session Skipped"
  "ends_session (UnknownFlag f)" "ends_session Disconnected"
  by (simp_all add: ends_session_def)

section \<open>One session\<close>

lemma push_on_queue:
  assumes "spsc_inv p c r"
  obtains p' r' where "push e p r = Inr (if length (queue_of r) < capacity then Inr () else Inl queue_full, p', r')"
    and "queue_of r' = queue_of r @ (if length (queue_of r) < capacity then [e] else [])"
    and "spsc_inv p' c r'"
proof (cases "length (queue_of r) < capacity")
  case True
  then show thesis
    using ring.push_accepts [OF assms, of e] that by auto
next
  case False
  then have "push e p r = Inr (Inl queue_full, p\<lparr>cached_tail := ring_tail r\<rparr>, r)"
    and "spsc_inv (p\<lparr>cached_tail := ring_tail r\<rparr>) c r"
    using assms by (auto simp: spsc_inv_def producer_inv_def [of p] push_full intro!: refresh_inv)
  with False show thesis by (intro that) auto
qed

lemma take_room_append:
  "length q \<le> n \<Longrightarrow> q @ take (n - length q) (e # es) =
     (let q' = q @ (if length q < n then [e] else []) in q' @ take (n - length q') es)"
  by (cases "length q < n") (simp_all add: Let_def Suc_diff_Suc [symmetric])

lemma session_injects:
  assumes "spsc_inv p c r"
  shows "\<exists>outs p' r'. session_loop sid msgs p r = Inr (outs, p', r') \<and> spsc_inv p' c r' \<and>
     queue_of r' = queue_of r @ take (capacity - length (queue_of r)) (session_strokes sid msgs) \<and>
     saturations outs = length (session_strokes sid msgs) - (capacity - length (queue_of r))"
  using assms
proof (induction msgs arbitrary: p r)
  case Nil
  then show ?case by (simp add: saturations_def)
next
  case (Cons msg msgs)
  show ?case
  proof (cases rule: message_strokes_cases [of sid msg])
    case control
    then obtain out where "handle_message sid msg p r = Inr (out, p, r)" and "out \<noteq> Injected False"
      and "ends_session out = message_ends (fst msg)"
      using handle_message_control by blast
    with control Cons.IH [OF Cons.prems] Cons.prems show ?thesis
      by (auto simp: saturations_def)
  next
    case (stroke e)
    let ?room = "length (queue_of r) < capacity"
    obtain p1 r1 where p1: "push e p r = Inr (if ?room then Inr () else Inl queue_full, p1, r1)"
      and q1: "queue_of r1 = queue_of r @ (if ?room then [e] else [])" and i1: "spsc_inv p1 c r1"
      using Cons.prems by (rule push_on_queue)
    have bound: "length (queue_of r) \<le> capacity"
      using Cons.prems by (rule ring.queue_bound)
    obtain outs p2 r2 where s2: "session_loop sid msgs p1 r1 = Inr (outs, p2, r2)" "spsc_inv p2 c r2"
      and q2: "queue_of r2 = queue_of r1 @ take (capacity - length (queue_of r1)) (session_strokes sid msgs)"
      and n2: "saturations outs = length (session_strokes sid msgs) - (capacity - length (queue_of r1))"
      using Cons.IH [OF i1] by blast
    have "handle_message sid msg p r = Inr (Injected ?room, p1, r1)"
      using handle_message_stroke [OF stroke(1) p1] by simp
    moreover have "saturations (Injected ?room # outs) =
        Suc (length (session_strokes sid msgs)) - (capacity - length (queue_of r))"
      using n2 q1 bound by (auto simp: saturations_def simp del: capacity_eq length_queue_of)
    moreover have "queue_of r2 = queue_of r @ take (capacity - length (queue_of r)) (e # session_strokes sid msgs)"
      unfolding q2 take_room_append [OF bound] q1 Let_def ..
    ultimately show ?thesis
      using s2 stroke by (simp del: capacity_eq length_queue_of)
  qed
qed

text \<open>
  A session alone on its ring. The loop never faults, whatever arrives on the socket; it
  puts into the ring exactly the strokes of the valid frames before the first close or unknown
  flag, stamped with its id and the clock and span of their message, in order, until the ring
  is full; the strokes beyond the free space are dropped, one saturation warning each.
\<close>

lemma session_injects_strokes:
  assumes "spsc_inv p c r"
  shows "\<exists>outs p' r'. session_loop sid msgs p r = Inr (outs, p', r') \<and> spsc_inv p' c r' \<and>
     queue_of r' = queue_of r @ take (capacity - length (queue_of r)) (session_strokes sid msgs) \<and>
     saturations outs = length (session_strokes sid msgs) - (capacity - length (queue_of r))"
  using assms by (rule session_injects)

definition sample_env :: recv_env where
  "sample_env = \<lparr>env_since_epoch = Some 99, env_trace_id = replicate 16 1, env_span_id = replicate 8 2\<rparr>"

lemma session_injects_strokes_example:
  "\<exists>outs p' r'. session_loop 7 [(WsOther, sample_env), (WsBinary (sendPoint 1 2 ACTION_DOWN), sample_env),
        (WsBinary [0], sample_env), (WsClose, sample_env), (WsBinary (sendPoint 3 4 ACTION_UP), sample_env)]
       AegisProducer_new zeroed_ring = Inr (outs, p', r') \<and>
     map ev_x (queue_of r') = [1]"
proof -
  let ?msgs = "[(WsOther, sample_env), (WsBinary (sendPoint 1 2 ACTION_DOWN), sample_env),
        (WsBinary [0], sample_env), (WsClose, sample_env), (WsBinary (sendPoint 3 4 ACTION_UP), sample_env)]"
  have "parse_stroke_payload (sendPoint 1 2 ACTION_DOWN) =
      Valid \<lparr>ps_x = 1, ps_y = 2, ps_pressure = 0x3F800000, ps_action = ACTION_DOWN\<rparr>"
    by (rule parse_known_sendPoint) (simp add: known_action_def)
  moreover have "parse_stroke_payload [0] = WrongLength"
    by (simp add: parse_stroke_payload_def STROKE_PAYLOAD_LEN_def)
  ultimately have "map ev_x (session_strokes 7 ?msgs) = [1]"
    by (simp add: build_event_def)
  with session_injects_strokes [OF spsc_inv_new, of 7 ?msgs] show ?thesis
    by (fastforce simp: take_map [symmetric])
qed

section \<open>Many sessions on one ring\<close>

text \<open>
  The clones of the producer handle each remember a tail of their own. On one thread that is
  safe: a remembered tail is a past value of the tail, so a clone underestimates the free space
  and never overestimates it, as long as the counters have not wrapped since. \<open>n\<close> counts the
  strokes ever accepted and \<open>m\<close> those popped.
\<close>

definition handles_inv :: "nat \<Rightarrow> nat \<Rightarrow> aegis_producer set \<Rightarrow> celer_consumer \<Rightarrow> shared_ring \<Rightarrow> bool" where
  "handles_inv n m ps c r \<longleftrightarrow> ring_inv r \<and> consumer_inv c r \<and>
     m \<le> n \<and> n - m \<le> capacity \<and> ring_head r = of_nat n \<and> ring_tail r = of_nat m \<and>
     (\<forall>p \<in> ps. \<exists>j \<le> m. cached_tail p = of_nat j)"

lemma handles_inv_mono: "handles_inv n m ps c r \<Longrightarrow> qs \<subseteq> ps \<Longrightarrow> handles_inv n m qs c r"
  unfolding handles_inv_def by blast

lemma handles_ring_len: "handles_inv n m ps c r \<Longrightarrow> n < 2 ^ 64 \<Longrightarrow> ring_len r = n - m"
  by (simp add: handles_inv_def ring_len_def unat_of_nat_diff_64)

lemma handles_producer_safe:
  assumes "handles_inv n m ps c r" and "p \<in> ps" and "n < 2 ^ 64"
  shows "producer_safe p r"
proof -
  from assms obtain j where "j \<le> m" "cached_tail p = of_nat j"
    unfolding handles_inv_def by blast
  with assms(1,3) handles_ring_len [OF assms(1,3)] show ?thesis
    by (simp add: producer_safe_def handles_inv_def unat_of_nat_diff_64)
qed

lemma handles_inv_pushed:
  assumes "handles_inv n m ps c r" and "ring_len r < 131072" and "n < 2 ^ 64"
    and "p' \<in> ps \<or> cached_tail p' = ring_tail r"
  shows "handles_inv (Suc n) m (insert p' ps) c (pushed_ring e r)"
  using assms handles_ring_len [OF assms(1,3)] unfolding handles_inv_def
  by (simp add: ring_inv_pushed consumer_inv_pushed Suc_diff_le add.commute) blast

lemma handles_inv_refreshed:
  assumes "handles_inv n m ps c r" and "cached_tail p' = ring_tail r"
  shows "handles_inv n m (insert p' ps) c r"
  using assms unfolding handles_inv_def by auto

lemma handles_inv_popped:
  assumes "handles_inv n m ps c r" and "0 < ring_len r" and "n < 2 ^ 64"
    and "c' = c \<and> cached_head c \<noteq> ring_tail r \<or> cached_head c' = ring_head r"
  shows "handles_inv n (Suc m) ps c' (popped_ring r)"
proof -
  have "consumer_inv c' (popped_ring r)" and "ring_inv (popped_ring r)"
    using assms unfolding handles_inv_def by (blast intro: consumer_inv_popped ring_inv_popped)+
  moreover have "\<forall>p \<in> ps. \<exists>j \<le> Suc m. cached_tail p = of_nat j"
    using assms(1) le_SucI unfolding handles_inv_def by blast
  moreover have "n - Suc m \<le> capacity"
    using assms(1) unfolding handles_inv_def by auto
  ultimately show ?thesis
    using assms handles_ring_len [OF assms(1,3)] unfolding handles_inv_def by simp
qed

text \<open>One call of a clone, or of the consumer, acts on the queue as the bounded queue does.\<close>

lemma handles_push:
  assumes "handles_inv n m ps c r" and "p \<in> ps" and "n < 2 ^ 64"
  obtains p' r' n' where "push e p r = Inr (if length (queue_of r) < capacity then Inr () else Inl queue_full, p', r')"
    and "queue_of r' = queue_of r @ (if length (queue_of r) < capacity then [e] else [])"
    and "n' \<le> Suc n" and "handles_inv n' m (insert p' ps) c r'"
proof (cases "ring_len r < 131072")
  case True
  obtain p' where "push e p r = Inr (Inr (), p', pushed_ring e r)"
    and "p' = p \<and> unat (ring_head r - cached_tail p) < 131072 \<or> cached_tail p' = ring_tail r"
    using handles_producer_safe [OF assms] True by (rule push_room)
  moreover from this(2) have "handles_inv (Suc n) m (insert p' ps) c (pushed_ring e r)"
    using assms True by (intro handles_inv_pushed) auto
  ultimately show thesis
    using True by (intro that [of p' "pushed_ring e r"]) (auto simp: queue_of_pushed)
next
  case False
  have "push e p r = Inr (Inl queue_full, p\<lparr>cached_tail := ring_tail r\<rparr>, r)"
    using handles_producer_safe [OF assms] False by (intro push_full) auto
  moreover have "handles_inv n m (insert (p\<lparr>cached_tail := ring_tail r\<rparr>) ps) c r"
    using assms(1) by (rule handles_inv_refreshed) simp
  ultimately show thesis
    using False by (intro that [of _ r n]) auto
qed

lemma handles_pop:
  assumes "handles_inv n m ps c r" and "n < 2 ^ 64"
  obtains c' r' m' where "pop c r = Inr (case queue_of r of [] \<Rightarrow> None | e # _ \<Rightarrow> Some e, c', r')"
    and "queue_of r' = tl (queue_of r)" and "handles_inv n m' ps c' r'"
proof (cases "queue_of r")
  case Nil
  then have "ring_len r = 0"
    by (metis length_queue_of list.size(3))
  then have "pop c r = Inr (None, c\<lparr>cached_head := ring_head r\<rparr>, r)"
    using assms unfolding handles_inv_def by (intro pop_none) auto
  moreover have "handles_inv n m ps (c\<lparr>cached_head := ring_head r\<rparr>) r"
    using assms(1) refresh_inv(2) [where c = c and r = r] unfolding handles_inv_def by auto
  ultimately show thesis
    using Nil by (intro that) auto
next
  case (Cons e es)
  then have len: "0 < ring_len r"
    by (metis length_queue_of length_greater_0_conv list.distinct(1))
  obtain c' where p: "pop c r = Inr (Some (hd (queue_of r)), c', popped_ring r)"
    and c': "c' = c \<and> cached_head c \<noteq> ring_tail r \<or> cached_head c' = ring_head r"
    using assms len unfolding handles_inv_def by (auto elim: pop_some)
  have "queue_of (popped_ring r) = tl (queue_of r)"
    by (simp add: queue_of_popped [OF len])
  with p Cons show thesis
    by (intro that [OF _ _ handles_inv_popped [OF assms(1) len assms(2) c']]) simp_all
qed

section \<open>The dojo against a bounded queue\<close>

record dojo_spec =
  sp_counter :: u32
  sp_listening :: bool
  sp_sessions :: "(u32 \<times> session_phase) list"
  sp_queue :: "stroke_event list"

definition spec_phase :: "nat \<Rightarrow> session_phase \<Rightarrow> dojo_spec \<Rightarrow> bool" where
  "spec_phase k ph s \<longleftrightarrow> k < length (sp_sessions s) \<and> snd (sp_sessions s ! k) = ph"

definition spec_set_phase :: "nat \<Rightarrow> session_phase \<Rightarrow> dojo_spec \<Rightarrow> dojo_spec" where
  "spec_set_phase k ph s = s\<lparr>sp_sessions := (sp_sessions s)[k := (fst (sp_sessions s ! k), ph)]\<rparr>"

fun spec_step :: "dojo_event \<Rightarrow> dojo_spec \<Rightarrow> stroke_event channel_result list \<times> dojo_spec" where
  "spec_step Accept s = ([], if sp_listening s
     then s\<lparr>sp_counter := sp_counter s + 1, sp_sessions := sp_sessions s @ [(sp_counter s, Handshaking)]\<rparr> else s)"
| "spec_step AcceptError s = ([], s\<lparr>sp_listening := False\<rparr>)"
| "spec_step (HandshakeDone k ok) s =
     ([], if spec_phase k Handshaking s then spec_set_phase k (if ok then Open else Ended) s else s)"
| "spec_step (Frame k item env) s =
     (if spec_phase k Open s
      then (case queue_script capacity (map Push (message_strokes (fst (sp_sessions s ! k)) (item, env))) (sp_queue s) of
              (rs, q) \<Rightarrow> (rs, spec_set_phase k (if message_ends item then Ended else Open) (s\<lparr>sp_queue := q\<rparr>)))
      else ([], s))"
| "spec_step (EndOfStream k) s = ([], if spec_phase k Open s then spec_set_phase k Ended s else s)"
| "spec_step ConsumerPop s =
     (case queue_script capacity [Pop] (sp_queue s) of (rs, q) \<Rightarrow> (rs, s\<lparr>sp_queue := q\<rparr>))"

fun spec_run :: "dojo_event list \<Rightarrow> dojo_spec \<Rightarrow> stroke_event channel_result list \<times> dojo_spec" where
  "spec_run [] s = ([], s)"
| "spec_run (e # es) s =
     (case spec_step e s of (rs, s1) \<Rightarrow> (case spec_run es s1 of (rs', s2) \<Rightarrow> (rs @ rs', s2)))"

definition dojo_abs :: "dojo \<Rightarrow> dojo_spec" where
  "dojo_abs d = \<lparr>sp_counter = dj_counter d, sp_listening = dj_listening d,
     sp_sessions = map (\<lambda>t. (st_id t, st_phase t)) (dj_tasks d), sp_queue = queue_of (dj_ring d)\<rparr>"

definition dojo_handles :: "dojo \<Rightarrow> aegis_producer set" where
  "dojo_handles d = insert (dj_producer d) (st_producer ` set (dj_tasks d))"

definition dojo_inv :: "nat \<Rightarrow> dojo \<Rightarrow> bool" where
  "dojo_inv n d \<longleftrightarrow> (\<exists>n' \<le> n. \<exists>m. handles_inv n' m (dojo_handles d) (dj_consumer d) (dj_ring d))"

lemma dojo_invI:
  "handles_inv n' m (dojo_handles d) (dj_consumer d) (dj_ring d) \<Longrightarrow> n' \<le> n \<Longrightarrow> dojo_inv n d"
  unfolding dojo_inv_def by blast

lemma sp_queue_abs [simp]: "sp_queue (dojo_abs d) = queue_of (dj_ring d)"
  by (simp add: dojo_abs_def)

lemma sp_queue_same [simp]: "(dojo_abs d)\<lparr>sp_queue := queue_of (dj_ring d)\<rparr> = dojo_abs d"
  by (simp add: dojo_abs_def)

lemma spec_phase_abs: "spec_phase k ph (dojo_abs d) \<longleftrightarrow> in_phase k ph (dj_tasks d)"
  by (auto simp: spec_phase_def in_phase_def dojo_abs_def)

lemma set_phase_abs:
  "in_phase k ph' (dj_tasks d) \<Longrightarrow> dojo_abs (set_phase k ph d) = spec_set_phase k ph (dojo_abs d)"
  by (simp add: set_phase_def spec_set_phase_def dojo_abs_def map_update in_phase_def)

lemma dojo_inv_weaken: "dojo_inv n d \<Longrightarrow> dojo_inv (Suc n) d"
  unfolding dojo_inv_def using le_SucI by blast

lemma dojo_inv_handles:
  assumes "dojo_inv n d" and "dojo_handles d' \<subseteq> dojo_handles d"
    and "dj_consumer d' = dj_consumer d" and "dj_ring d' = dj_ring d"
  shows "dojo_inv (Suc n) d'"
  using assms unfolding dojo_inv_def by (metis handles_inv_mono le_SucI)

lemma dojo_handles_set_phase:
  "in_phase k ph' (dj_tasks d) \<Longrightarrow> dojo_handles (set_phase k ph d) \<subseteq> dojo_handles d"
  by (auto simp: dojo_handles_def set_phase_def in_phase_def dest!: set_update_subset_insert [THEN subsetD])

lemma dojo_handles_accept: "dojo_handles (accept_session d) \<subseteq> dojo_handles d"
  by (auto simp: dojo_handles_def accept_session_def AegisProducer_clone_def)

lemma receive_control:
  assumes "message_strokes (st_id (dj_tasks d ! k)) (item, env) = []" and "in_phase k Open (dj_tasks d)"
  shows "receive_frame k (item, env) d = Inr ([], set_phase k (if message_ends item then Ended else Open) d)"
proof -
  let ?t = "dj_tasks d ! k"
  obtain out where out: "handle_message (st_id ?t) (item, env) (st_producer ?t) (dj_ring d)
      = Inr (out, st_producer ?t, dj_ring d)" "\<forall>ok. out \<noteq> Injected ok" "ends_session out = message_ends item"
    using handle_message_control [OF assms(1)] by fastforce
  then have "channel_results out = []"
    by (cases out) (auto simp: channel_results_def)
  with out show ?thesis
    by (simp add: receive_frame_def Let_def set_phase_def)
qed

lemma dojo_handles_pushed:
  assumes "k < length (dj_tasks d)"
  shows "dojo_handles (d\<lparr>dj_ring := r', dj_tasks := (dj_tasks d)[k := t\<lparr>st_producer := p', st_phase := ph\<rparr>]\<rparr>)
    \<subseteq> insert p' (dojo_handles d)"
  by (auto simp: dojo_handles_def dest!: set_update_subset_insert [THEN subsetD])

lemma receive_stroke:
  assumes "dojo_inv n d" and "n < 2 ^ 64" and "in_phase k Open (dj_tasks d)"
    and "message_strokes (st_id (dj_tasks d ! k)) (item, env) = [e]"
  shows "\<exists>d'. receive_frame k (item, env) d = Inr (fst (queue_script capacity [Push e] (queue_of (dj_ring d))), d')
    \<and> dojo_abs d' = spec_set_phase k Open
        ((dojo_abs d)\<lparr>sp_queue := snd (queue_script capacity [Push e] (queue_of (dj_ring d)))\<rparr>)
    \<and> dojo_inv (Suc n) d'"
proof -
  let ?t = "dj_tasks d ! k" and ?q = "queue_of (dj_ring d)"
  from assms(1) obtain n' m where n': "n' \<le> n"
    and inv: "handles_inv n' m (dojo_handles d) (dj_consumer d) (dj_ring d)"
    unfolding dojo_inv_def by blast
  have k: "k < length (dj_tasks d)" and ph: "st_phase ?t = Open"
    using assms(3) by (simp_all add: in_phase_def)
  then have mem: "st_producer ?t \<in> dojo_handles d"
    by (simp add: dojo_handles_def)
  have n64: "n' < 2 ^ 64"
    using n' assms(2) by simp
  obtain p' r' n'' where push: "push e (st_producer ?t) (dj_ring d) =
        Inr (if length ?q < capacity then Inr () else Inl queue_full, p', r')"
    and q: "queue_of r' = ?q @ (if length ?q < capacity then [e] else [])"
    and n'': "n'' \<le> Suc n'" and inv': "handles_inv n'' m (insert p' (dojo_handles d)) (dj_consumer d) r'"
    by (rule handles_push [OF inv mem n64, of e])
  let ?d = "d\<lparr>dj_ring := r', dj_tasks := (dj_tasks d)[k := ?t\<lparr>st_producer := p', st_phase := Open\<rparr>]\<rparr>"
  have "receive_frame k (item, env) d = Inr ([Pushed (length ?q < capacity)], ?d)"
    using handle_message_stroke [OF assms(4) push] by (simp add: receive_frame_def Let_def channel_results_def)
  moreover have "dojo_inv (Suc n) ?d"
  proof (rule dojo_invI)
    show "handles_inv n'' m (dojo_handles ?d) (dj_consumer ?d) (dj_ring ?d)"
      using handles_inv_mono [OF inv' dojo_handles_pushed [OF k]] by simp
    show "n'' \<le> Suc n"
      using n' n'' by simp
  qed
  moreover have "dojo_abs ?d = spec_set_phase k Open ((dojo_abs d)\<lparr>sp_queue := queue_of r'\<rparr>)"
    using k by (simp add: dojo_abs_def spec_set_phase_def map_update)
  ultimately show ?thesis
    using q by auto
qed

lemma dojo_step_refines:
  assumes "dojo_inv n d" and "n < 2 ^ 64"
  shows "\<exists>d'. dojo_step e d = Inr (fst (spec_step e (dojo_abs d)), d') \<and>
    dojo_abs d' = snd (spec_step e (dojo_abs d)) \<and> dojo_inv (Suc n) d'"
proof (cases e)
  case Accept
  have "dojo_inv (Suc n) (accept_session d)"
    by (rule dojo_inv_handles [OF assms(1) dojo_handles_accept]) (simp_all add: accept_session_def)
  with Accept dojo_inv_weaken [OF assms(1)] show ?thesis
    by (auto simp: dojo_abs_def accept_session_def)
next
  case AcceptError
  have "dojo_inv (Suc n) (d\<lparr>dj_listening := False\<rparr>)"
    by (rule dojo_inv_handles [OF assms(1)]) (simp_all add: dojo_handles_def)
  with AcceptError show ?thesis by (simp add: dojo_abs_def)
next
  case (HandshakeDone k ok)
  have "dojo_inv (Suc n) (set_phase k ph d)" if "in_phase k Handshaking (dj_tasks d)" for ph
    by (rule dojo_inv_handles [OF assms(1) dojo_handles_set_phase [OF that]]) (simp_all add: set_phase_def)
  with HandshakeDone dojo_inv_weaken [OF assms(1)] show ?thesis
    by (auto simp: spec_phase_abs set_phase_abs)
next
  case (EndOfStream k)
  have "dojo_inv (Suc n) (set_phase k ph d)" if "in_phase k Open (dj_tasks d)" for ph
    by (rule dojo_inv_handles [OF assms(1) dojo_handles_set_phase [OF that]]) (simp_all add: set_phase_def)
  with EndOfStream dojo_inv_weaken [OF assms(1)] show ?thesis
    by (auto simp: spec_phase_abs set_phase_abs)
next
  case ConsumerPop
  from assms(1) obtain n' m where n': "n' \<le> n"
    and inv: "handles_inv n' m (dojo_handles d) (dj_consumer d) (dj_ring d)"
    unfolding dojo_inv_def by blast
  from n' assms(2) have "n' < 2 ^ 64" by simp
  with inv obtain c' r' m' where
    "pop (dj_consumer d) (dj_ring d) = Inr (case queue_of (dj_ring d) of [] \<Rightarrow> None | e # _ \<Rightarrow> Some e, c', r')"
    and "queue_of r' = tl (queue_of (dj_ring d))" and "handles_inv n' m' (dojo_handles d) c' r'"
    by (rule handles_pop)
  moreover from this(3) n' have "dojo_inv (Suc n) (d\<lparr>dj_consumer := c', dj_ring := r'\<rparr>)"
    by (intro dojo_invI [of n' m']) (simp_all add: dojo_handles_def)
  ultimately show ?thesis
    using ConsumerPop by (simp add: dojo_abs_def split: list.splits)
next
  case (Frame k item env)
  show ?thesis
  proof (cases "in_phase k Open (dj_tasks d)")
    case False
    with Frame dojo_inv_weaken [OF assms(1)] show ?thesis by (simp add: spec_phase_abs)
  next
    case True
    then have sid: "fst (sp_sessions (dojo_abs d) ! k) = st_id (dj_tasks d ! k)"
      by (simp add: dojo_abs_def in_phase_def)
    show ?thesis
    proof (cases rule: message_strokes_cases [of "st_id (dj_tasks d ! k)" "(item, env)"])
      case (stroke e)
      with Frame True sid receive_stroke [OF assms True stroke(1)] show ?thesis
        by (simp add: spec_phase_abs case_prod_beta del: capacity_eq queue_script.simps)
    next
      case control
      have "dojo_inv (Suc n) (set_phase k ph d)" for ph
        by (rule dojo_inv_handles [OF assms(1) dojo_handles_set_phase [OF True]]) (simp_all add: set_phase_def)
      with Frame True sid control receive_control [OF control True] set_phase_abs [OF True] show ?thesis
        by (simp add: spec_phase_abs)
    qed
  qed
qed

lemma dojo_run_refines:
  "dojo_inv n d \<Longrightarrow> n + length es \<le> 2 ^ 64 \<Longrightarrow>
   \<exists>d'. dojo_run es d = Inr (fst (spec_run es (dojo_abs d)), d') \<and> dojo_abs d' = snd (spec_run es (dojo_abs d))"
proof (induction es arbitrary: n d)
  case Nil
  then show ?case by simp
next
  case (Cons e es)
  from Cons.prems have "n < 2 ^ 64" and bound: "Suc n + length es \<le> 2 ^ 64" by simp_all
  then obtain d1 where d1: "dojo_step e d = Inr (fst (spec_step e (dojo_abs d)), d1)"
    and abs1: "dojo_abs d1 = snd (spec_step e (dojo_abs d))" and "dojo_inv (Suc n) d1"
    using dojo_step_refines [OF Cons.prems(1)] by blast
  from Cons.IH [OF this(3) bound] d1 show ?case
    by (auto simp: abs1 split: prod.splits)
qed

lemma dojo_inv_new: "dojo_inv 0 dojo_new"
proof (rule dojo_invI)
  show "handles_inv 0 0 (dojo_handles dojo_new) (dj_consumer dojo_new) (dj_ring dojo_new)"
    using spsc_inv_new
    by (simp add: handles_inv_def spsc_inv_def dojo_new_def dojo_handles_def zeroed_ring_def AegisProducer_new_def)
qed simp

definition spec_new :: dojo_spec where
  "spec_new = \<lparr>sp_counter = 1, sp_listening = True, sp_sessions = [], sp_queue = []\<rparr>"

lemma dojo_abs_new: "dojo_abs dojo_new = spec_new"
  by (simp add: dojo_abs_def dojo_new_def spec_new_def)

text \<open>
  C7: any interleaving of accepts, handshakes, frames, disconnects and consumer pops, over any
  number of sessions that each push through a clone of the one handle, behaves as sessions that
  share one bounded FIFO queue: no step faults, a stroke is refused only when the queue is full,
  and every pop returns the oldest accepted stroke. The comment in the library asks for one
  producer per ring; this is the argument that the clones of the dojo are sound (for the first
  \<open>2 ^ 64\<close> steps: until then no counter wraps past a remembered tail).
\<close>

theorem dojo_refines_shared_queue:
  assumes "length es \<le> 2 ^ 64"
  shows "\<exists>d. dojo_run es dojo_new = Inr (fst (spec_run es spec_new), d) \<and>
    dojo_abs d = snd (spec_run es spec_new)"
  using dojo_run_refines [OF dojo_inv_new, of es] assms by (simp add: dojo_abs_new)

definition two_session_trace :: "dojo_event list" where
  "two_session_trace = [Accept, Accept, HandshakeDone 0 True, HandshakeDone 1 True,
     Frame 1 (WsBinary (sendPoint 1 2 ACTION_DOWN)) sample_env,
     Frame 0 (WsBinary (sendPoint 3 4 ACTION_DOWN)) sample_env, ConsumerPop, ConsumerPop, ConsumerPop]"

theorem dojo_refines_shared_queue_witness:
  "\<exists>rs d. dojo_run two_session_trace dojo_new = Inr (rs, d) \<and>
     map ev_session_id (delivered rs) = [2, 1] \<and> map ev_x (delivered rs) = [1, 3]"
proof -
  have parsed: "parse_stroke_payload (sendPoint x y ACTION_DOWN) =
      Valid \<lparr>ps_x = x, ps_y = y, ps_pressure = 0x3F800000, ps_action = ACTION_DOWN\<rparr>" for x y
    by (rule parse_known_sendPoint) (simp add: known_action_def)
  let ?spec = "fst (spec_run two_session_trace spec_new)"
  have "map ev_session_id (delivered ?spec) = [2, 1] \<and> map ev_x (delivered ?spec) = [1, 3]"
    by (simp add: two_session_trace_def spec_new_def spec_phase_def spec_set_phase_def parsed build_event_def)
  moreover have "length two_session_trace \<le> 2 ^ 64"
    by (simp add: two_session_trace_def)
  then obtain d where "dojo_run two_session_trace dojo_new = Inr (?spec, d)"
    using dojo_refines_shared_queue by blast
  ultimately show ?thesis
    by (intro exI [of _ ?spec] exI [of _ d]) simp
qed

section \<open>Session numbers\<close>

definition session_ids :: "dojo \<Rightarrow> u32 list" where
  "session_ids d = map st_id (dj_tasks d)"

definition numbered :: "dojo \<Rightarrow> bool" where
  "numbered d \<longleftrightarrow> session_ids d = map (\<lambda>k. of_nat (Suc k)) [0..<length (dj_tasks d)] \<and>
     dj_counter d = of_nat (Suc (length (dj_tasks d)))"

lemma session_ids_update: "k < length (dj_tasks d) \<Longrightarrow> st_id t = st_id (dj_tasks d ! k) \<Longrightarrow>
   map st_id ((dj_tasks d)[k := t]) = map st_id (dj_tasks d)"
  by (metis list_update_id map_update)

lemma numbered_tasks:
  "numbered d \<Longrightarrow> map st_id (dj_tasks d') = map st_id (dj_tasks d) \<Longrightarrow> dj_counter d' = dj_counter d \<Longrightarrow> numbered d'"
  unfolding numbered_def session_ids_def by (metis length_map)

lemma numbered_set_phase: "numbered d \<Longrightarrow> in_phase k ph' (dj_tasks d) \<Longrightarrow> numbered (set_phase k ph d)"
  by (erule numbered_tasks) (simp_all add: set_phase_def session_ids_update in_phase_def)

lemma numbered_accept: "numbered d \<Longrightarrow> numbered (accept_session d)"
  by (simp add: numbered_def session_ids_def accept_session_def)

lemma numbered_receive:
  assumes "numbered d" and "in_phase k Open (dj_tasks d)" and "receive_frame k msg d = Inr (rs, d')"
  shows "numbered d'"
  using assms by (auto simp: receive_frame_def Let_def in_phase_def session_ids_update
      intro: numbered_tasks split: sum.splits)

lemma numbered_step: "numbered d \<Longrightarrow> dojo_step e d = Inr (rs, d') \<Longrightarrow> numbered d'"
  by (cases e) (auto intro: numbered_accept numbered_set_phase numbered_receive numbered_tasks
      split: if_splits sum.splits)

lemma numbered_run: "numbered d \<Longrightarrow> dojo_run es d = Inr (rs, d') \<Longrightarrow> numbered d'"
proof (induction es arbitrary: d rs)
  case (Cons e es)
  then show ?case by (auto split: sum.splits) (metis numbered_step)
qed simp

lemma numbered_new: "numbered dojo_new"
  by (simp add: numbered_def session_ids_def dojo_new_def)

text \<open>
  The \<open>k\<close>-th session of a run (from 0) has the id \<open>k + 1\<close> in 32-bit arithmetic, whatever
  the sessions do: ids are unique among any \<open>2 ^ 32\<close> consecutive sessions and repeat after that.
\<close>

lemma session_ids_consecutive:
  assumes "dojo_run es dojo_new = Inr (rs, d)"
  shows "session_ids d = map (\<lambda>k. of_nat (Suc k)) [0..<length (dj_tasks d)]"
  using numbered_run [OF numbered_new assms] by (simp add: numbered_def)

lemma session_ids_two:
  "\<exists>rs d. dojo_run [Accept, HandshakeDone 0 False, Accept] dojo_new = Inr (rs, d) \<and> session_ids d = [1, 2]"
proof -
  obtain d where run: "dojo_run [Accept, HandshakeDone 0 False, Accept] dojo_new = Inr ([], d)"
    and "length (dj_tasks d) = 2"
    by (simp add: dojo_new_def accept_session_def set_phase_def in_phase_def)
  with session_ids_consecutive [OF run] have "session_ids d = [1, 2]"
    by (simp add: upt_rec)
  with run show ?thesis
    by (intro exI [of _ "[]"] exI [of _ d]) simp
qed

section \<open>The life of a session\<close>

text \<open>The phases in their order, as an instance of the library's linear orders.\<close>

fun phase_rank :: "session_phase \<Rightarrow> nat" where
  "phase_rank Handshaking = 0"
| "phase_rank Open = 1"
| "phase_rank Ended = 2"

lemma phase_rank_inj: "phase_rank a = phase_rank b \<Longrightarrow> a = b"
  by (cases a; cases b) simp_all

instantiation session_phase :: linorder
begin

definition less_eq_session_phase :: "session_phase \<Rightarrow> session_phase \<Rightarrow> bool" where
  "less_eq_session_phase a b \<longleftrightarrow> phase_rank a \<le> phase_rank b"

definition less_session_phase :: "session_phase \<Rightarrow> session_phase \<Rightarrow> bool" where
  "less_session_phase a b \<longleftrightarrow> phase_rank a < phase_rank b"

instance
  by standard (auto simp: less_eq_session_phase_def less_session_phase_def intro: phase_rank_inj)

end

lemma phase_bounds [simp]: "Handshaking \<le> ph" "ph \<le> Ended"
  by (cases ph; simp add: less_eq_session_phase_def)+

lemma Open_le: "Open \<le> ph \<longleftrightarrow> ph = Open \<or> ph = Ended"
  by (cases ph) (simp_all add: less_eq_session_phase_def)

text \<open>A session only moves forward, whatever the dojo does; once ended it stays so.\<close>

definition advances :: "session_task list \<Rightarrow> session_task list \<Rightarrow> bool" where
  "advances ts us \<longleftrightarrow> length ts \<le> length us \<and>
     (\<forall>k < length ts. st_phase (ts ! k) \<le> st_phase (us ! k) \<and> st_id (us ! k) = st_id (ts ! k))"

lemma advances_refl [simp]: "advances ts ts"
  by (simp add: advances_def)

lemma advances_trans: "advances ts us \<Longrightarrow> advances us vs \<Longrightarrow> advances ts vs"
  unfolding advances_def
proof (elim conjE, intro conjI allI impI)
  fix k
  assume "length ts \<le> length us" and "k < length ts" and t: "\<forall>k < length ts. st_phase (ts ! k) \<le> st_phase (us ! k) \<and> st_id (us ! k) = st_id (ts ! k)"
    and u: "\<forall>k < length us. st_phase (us ! k) \<le> st_phase (vs ! k) \<and> st_id (vs ! k) = st_id (us ! k)"
  then have "k < length us" by simp
  with t u \<open>k < length ts\<close> show "st_phase (ts ! k) \<le> st_phase (vs ! k)" "st_id (vs ! k) = st_id (ts ! k)"
    by (auto intro: order_trans [of _ "st_phase (us ! k)"])
qed simp

lemma advances_update:
  "k < length ts \<Longrightarrow> st_phase (ts ! k) \<le> st_phase t \<Longrightarrow> st_id t = st_id (ts ! k) \<Longrightarrow> advances ts (ts[k := t])"
  by (simp add: advances_def nth_list_update)

lemma set_phase_advances:
  "in_phase k old (dj_tasks d) \<Longrightarrow> old \<le> ph \<Longrightarrow> advances (dj_tasks d) (dj_tasks (set_phase k ph d))"
  by (simp add: set_phase_def in_phase_def advances_update)

lemma receive_advances:
  assumes "receive_frame k msg d = Inr (rs, d')" and "in_phase k Open (dj_tasks d)"
  shows "advances (dj_tasks d) (dj_tasks d')"
proof -
  let ?t = "dj_tasks d ! k"
  obtain out p r where "handle_message (st_id ?t) msg (st_producer ?t) (dj_ring d) = Inr (out, p, r)"
    using assms(1) by (auto simp: receive_frame_def Let_def split: sum.splits)
  then have "dj_tasks d' = (dj_tasks d)[k := ?t\<lparr>st_producer := p, st_phase := if ends_session out then Ended else Open\<rparr>]"
    using assms(1) by (auto simp: receive_frame_def Let_def)
  then show ?thesis
    using assms(2) by (simp add: in_phase_def advances_update)
qed

lemma dojo_step_advances:
  assumes "dojo_step e d = Inr (rs, d')"
  shows "advances (dj_tasks d) (dj_tasks d')"
proof (cases e)
  case Accept
  with assms show ?thesis by (auto simp: accept_session_def advances_def nth_append split: if_splits)
next
  case (HandshakeDone k ok)
  with assms show ?thesis by (auto intro: set_phase_advances split: if_splits)
next
  case (Frame k item env)
  with assms show ?thesis by (auto intro: receive_advances split: if_splits)
next
  case (EndOfStream k)
  with assms show ?thesis by (auto intro: set_phase_advances split: if_splits)
qed (use assms in \<open>auto split: sum.splits\<close>)

lemma dojo_run_advances: "dojo_run es d = Inr (rs, d') \<Longrightarrow> advances (dj_tasks d) (dj_tasks d')"
proof (induction es arbitrary: d rs)
  case (Cons e es)
  then show ?case
    by (auto split: sum.splits prod.splits intro: advances_trans dojo_step_advances)
qed simp

lemma session_stays_ended:
  assumes "dojo_run es d = Inr (rs, d')" and "in_phase k Ended (dj_tasks d)"
  shows "in_phase k Ended (dj_tasks d')"
  using dojo_run_advances [OF assms(1)] assms(2)
  by (fastforce simp: advances_def in_phase_def intro: order_antisym)

end
