(* ===== verification/F32.thy ===== *)
theory F32
  imports Prelude "HOL-Library.Log_Nat"
begin

text \<open>
  Rust's \<^verbatim>\<open>f32\<close>: IEEE 754 binary32 on bit patterns, with the operations the sources use
  (\<^verbatim>\<open>+\<close>, \<^verbatim>\<open>-\<close>, \<^verbatim>\<open>*\<close>, \<^verbatim>\<open>>\<close>), rounded to nearest, ties to even. Every finite value is a multiple
  of \<open>2 ^ -149\<close>, so a value is the integer \<open>f32_int\<close> counting these units, arithmetic is exact
  on integers, and rounding drops the low bits of an integer. A NaN result is the preferred
  quiet NaN; Rust leaves its payload open and nothing proved here depends on it.
\<close>

section \<open>Fields and classes\<close>

definition f32_sign :: "f32 \<Rightarrow> bool" where "f32_sign w \<longleftrightarrow> 2 ^ 31 \<le> unat w"
definition f32_exp :: "f32 \<Rightarrow> nat" where "f32_exp w = unat w div 2 ^ 23 mod 2 ^ 8"
definition f32_frac :: "f32 \<Rightarrow> nat" where "f32_frac w = unat w mod 2 ^ 23"

definition f32_bits :: "bool \<Rightarrow> nat \<Rightarrow> nat \<Rightarrow> f32" where
  "f32_bits s e f = of_nat ((if s then 2 ^ 31 else 0) + e * 2 ^ 23 + f)"

definition f32_is_nan :: "f32 \<Rightarrow> bool" where "f32_is_nan w \<longleftrightarrow> f32_exp w = 255 \<and> f32_frac w \<noteq> 0"
definition f32_is_inf :: "f32 \<Rightarrow> bool" where "f32_is_inf w \<longleftrightarrow> f32_exp w = 255 \<and> f32_frac w = 0"
definition f32_is_finite :: "f32 \<Rightarrow> bool" where "f32_is_finite w \<longleftrightarrow> f32_exp w < 255"

definition f32_nan :: f32 where "f32_nan = f32_bits False 255 (2 ^ 22)"
definition f32_inf :: "bool \<Rightarrow> f32" where "f32_inf s = f32_bits s 255 0"

text \<open>
  Magnitude in units of \<open>2 ^ -149\<close>; on an infinity the same formula gives \<open>2 ^ 277\<close>, above
  every finite magnitude, which is what comparison needs.
\<close>

definition f32_mag :: "f32 \<Rightarrow> nat" where
  "f32_mag w = (if f32_exp w = 0 then f32_frac w else (2 ^ 23 + f32_frac w) * 2 ^ (f32_exp w - 1))"

definition f32_int :: "f32 \<Rightarrow> int" where
  "f32_int w = (if f32_sign w then - int (f32_mag w) else int (f32_mag w))"

section \<open>Rounding\<close>

text \<open>Drop \<open>sh\<close> low bits, to the nearest, ties to even.\<close>

definition rne :: "nat \<Rightarrow> nat \<Rightarrow> nat" where
  "rne sh M = (let q = M div 2 ^ sh; r = M mod 2 ^ sh in
     if 2 ^ sh < 2 * r \<or> (2 * r = 2 ^ sh \<and> odd q) then q + 1 else q)"

text \<open>
  \<open>M\<close> in units of \<open>2 ^ -(149 + k)\<close>: keep at most 24 significant bits and no unit below
  \<open>2 ^ -149\<close>; the result is in units of \<open>2 ^ -149\<close>.
\<close>

definition round_shift :: "nat \<Rightarrow> nat \<Rightarrow> nat" where
  "round_shift k M = max k (floorlog 2 M - 24)"

definition round_mag :: "nat \<Rightarrow> nat \<Rightarrow> nat" where
  "round_mag k M = rne (round_shift k M) M * 2 ^ (round_shift k M - k)"

definition f32_encode :: "bool \<Rightarrow> nat \<Rightarrow> f32" where
  "f32_encode s N =
     (if N < 2 ^ 23 then f32_bits s 0 N
      else let e = floorlog 2 N - 23 in
        if 255 \<le> e then f32_inf s else f32_bits s e (N div 2 ^ (e - 1) - 2 ^ 23))"

section \<open>Operations\<close>

definition f32_neg :: "f32 \<Rightarrow> f32" where
  "f32_neg w = w XOR push_bit 31 1"

definition f32_add :: "f32 \<Rightarrow> f32 \<Rightarrow> f32" where
  "f32_add a b =
     (if f32_is_nan a \<or> f32_is_nan b \<or> (f32_is_inf a \<and> f32_is_inf b \<and> f32_sign a \<noteq> f32_sign b) then f32_nan
      else if f32_is_inf a then a
      else if f32_is_inf b then b
      else let S = f32_int a + f32_int b in
        if S = 0 then f32_bits (f32_sign a \<and> f32_sign b) 0 0
        else f32_encode (S < 0) (round_mag 0 (nat \<bar>S\<bar>)))"

definition f32_sub :: "f32 \<Rightarrow> f32 \<Rightarrow> f32" where
  "f32_sub a b = f32_add a (f32_neg b)"

definition f32_mul :: "f32 \<Rightarrow> f32 \<Rightarrow> f32" where
  "f32_mul a b =
     (let s = (f32_sign a \<noteq> f32_sign b) in
      if f32_is_nan a \<or> f32_is_nan b \<or> (f32_is_inf a \<and> f32_mag b = 0) \<or> (f32_mag a = 0 \<and> f32_is_inf b)
      then f32_nan
      else if f32_is_inf a \<or> f32_is_inf b then f32_inf s
      else f32_encode s (round_mag 149 (f32_mag a * f32_mag b)))"

definition f32_gt :: "f32 \<Rightarrow> f32 \<Rightarrow> bool" where
  "f32_gt a b \<longleftrightarrow> \<not> f32_is_nan a \<and> \<not> f32_is_nan b \<and> f32_int b < f32_int a"

definition f32_le :: "f32 \<Rightarrow> f32 \<Rightarrow> bool" where
  "f32_le a b \<longleftrightarrow> \<not> f32_is_nan a \<and> \<not> f32_is_nan b \<and> f32_int a \<le> f32_int b"

text \<open>The bit length of a literal, read off its digits.\<close>

lemma floorlog_numeral [simp]:
  "floorlog 2 (Suc 0) = 1"
  "floorlog 2 (numeral (num.Bit0 n)) = floorlog 2 (numeral n) + 1"
  "floorlog 2 (numeral (num.Bit1 n)) = floorlog 2 (numeral n) + 1"
  using compute_floorlog [of 2 "numeral (num.Bit0 n)"] compute_floorlog [of 2 "numeral (num.Bit1 n)"]
    compute_floorlog [of 2 1] compute_floorlog [of 2 0]
  by simp_all

lemmas f32_class_defs = f32_is_nan_def f32_is_inf_def f32_is_finite_def
lemmas f32_eval = f32_class_defs f32_sign_def f32_exp_def f32_frac_def f32_bits_def f32_nan_def
  f32_inf_def f32_mag_def f32_int_def rne_def round_shift_def round_mag_def f32_encode_def
  f32_add_def f32_sub_def f32_mul_def f32_gt_def f32_le_def f32_neg_def Let_def

lemma f32_mul_example: "f32_mul 0x42340000 0x3E19999A = 0x40D80001" \<comment> \<open>45.0 * 0.15\<close>
  by (simp add: f32_eval)

lemma f32_sub_example: "f32_sub 0x3F800000 0x3E19999A = 0x3F59999A" \<comment> \<open>1.0 - 0.15\<close>
  by (simp add: f32_eval)

section \<open>Rounding is monotone and exact on representable values\<close>

lemma rne_bounds: "M div 2 ^ sh \<le> rne sh M" "rne sh M \<le> M div 2 ^ sh + 1"
  by (auto simp: rne_def Let_def)

lemma rne_exact [simp]: "rne sh (a * 2 ^ sh) = a"
  by (simp add: rne_def)

lemma rne_mono:
  assumes "M \<le> M'"
  shows "rne sh M \<le> rne sh M'"
proof (cases "M div 2 ^ sh = M' div 2 ^ sh")
  case True
  moreover have "M mod 2 ^ sh \<le> M' mod 2 ^ sh"
    using assms True by (metis add_le_cancel_left div_mult_mod_eq)
  ultimately show ?thesis by (auto simp: rne_def Let_def)
next
  case False
  then have "M div 2 ^ sh < M' div 2 ^ sh"
    using assms by (simp add: div_le_mono le_neq_implies_less)
  with rne_bounds [where M = M and sh = sh] rne_bounds [where M = M' and sh = sh] show ?thesis by linarith
qed

lemma rne_le: "M \<le> a * 2 ^ sh \<Longrightarrow> rne sh M \<le> a"
  using rne_mono [of M "a * 2 ^ sh" sh] by simp

lemma rne_ge: "a * 2 ^ sh \<le> M \<Longrightarrow> a \<le> rne sh M"
  using rne_mono [of "a * 2 ^ sh" M sh] by simp

lemma round_shift_ge: "k \<le> round_shift k M"
  by (simp add: round_shift_def)

lemma round_shift_mono: "M \<le> M' \<Longrightarrow> round_shift k M \<le> round_shift k M'"
  using floorlog_mono [of M M' 2] by (auto simp: round_shift_def intro: max.mono)

text \<open>At most 24 significant bits are kept (or \<open>2 ^ 24\<close>, when rounding carries over).\<close>

lemma kept_bits_le: "rne (round_shift k M) M \<le> 2 ^ 24"
proof (rule rne_le)
  have "floorlog 2 M \<le> 24 + round_shift k M"
    by (simp add: round_shift_def)
  then have "M < 2 ^ (24 + round_shift k M)"
    by (rule floorlog_leD) simp
  then show "M \<le> 2 ^ 24 * 2 ^ round_shift k M"
    by (simp add: power_add)
qed

lemma kept_bits_ge:
  assumes "k < round_shift k M"
  shows "2 ^ 23 \<le> rne (round_shift k M) M"
proof (rule rne_ge)
  have "floorlog 2 M = 24 + round_shift k M"
    using assms by (auto simp: round_shift_def max_def split: if_splits)
  then have "2 ^ (23 + round_shift k M) \<le> M"
    using floorlog_geD [of "24 + round_shift k M" 2 M] by simp
  then show "2 ^ 23 * 2 ^ round_shift k M \<le> M"
    by (simp add: power_add)
qed

lemma round_mag_mono:
  assumes "M \<le> M'"
  shows "round_mag k M \<le> round_mag k M'"
proof (cases "round_shift k M = round_shift k M'")
  case True
  then show ?thesis using rne_mono [OF assms] by (simp add: round_mag_def)
next
  case False
  define d d' where "d = round_shift k M - k" and "d' = round_shift k M' - k"
  from False have lt: "round_shift k M < round_shift k M'"
    using round_shift_mono [OF assms, of k] by simp
  then have "d < d'"
    using round_shift_ge [of k M] by (simp add: d_def d'_def)
  have "round_mag k M \<le> 2 ^ 24 * 2 ^ d"
    using kept_bits_le [of k M] by (simp add: round_mag_def d_def)
  also have "\<dots> = 2 ^ 23 * 2 ^ Suc d"
    by simp
  also have "\<dots> \<le> 2 ^ 23 * 2 ^ d'"
    using \<open>d < d'\<close> by (intro mult_le_mono le_refl power_increasing) auto
  also have "\<dots> \<le> round_mag k M'"
    using kept_bits_ge [of k M'] lt round_shift_ge [of k M] by (simp add: round_mag_def d'_def)
  finally show ?thesis .
qed

definition representable :: "nat \<Rightarrow> bool" where
  "representable N \<longleftrightarrow> (\<exists>q d. q \<le> 2 ^ 24 \<and> N = q * 2 ^ d)"

lemma representable_round: "representable (round_mag k M)"
  using kept_bits_le by (auto simp: representable_def round_mag_def)

lemma f32_fields_bits:
  assumes "e < 2 ^ 8" and "f < 2 ^ 23"
  shows "f32_exp (f32_bits s e f) = e" and "f32_frac (f32_bits s e f) = f"
    and "f32_sign (f32_bits s e f) = s"
proof -
  let ?k = "e + (if s then 256 else 0)"
  have bound: "f + 2 ^ 23 * ?k < 2 ^ 32"
    using assms by auto
  have "f32_bits s e f = of_nat (f + 2 ^ 23 * ?k)"
    by (simp add: f32_bits_def algebra_simps)
  with bound have u: "unat (f32_bits s e f) = f + 2 ^ 23 * ?k"
    using unat_eq_of_nat [of "f + 2 ^ 23 * ?k", where 'a = 32] by simp
  have "(f + 2 ^ 23 * ?k) div 2 ^ 23 = ?k"
    using assms(2) by simp
  with assms(1) show "f32_exp (f32_bits s e f) = e"
    by (simp only: f32_exp_def u) (auto simp: mod_add_self2)
  have "(f + 2 ^ 23 * ?k) mod 2 ^ 23 = f"
    using assms(2) by (subst mod_mult_self2) simp
  then show "f32_frac (f32_bits s e f) = f"
    by (simp only: f32_frac_def u)
  have "2 ^ 31 \<le> f + 2 ^ 23 * ?k \<longleftrightarrow> s"
    using assms by auto
  then show "f32_sign (f32_bits s e f) = s"
    by (simp only: f32_sign_def u)
qed

lemma representable_dvd:
  assumes "representable N" and "0 < N"
  shows "2 ^ (floorlog 2 N - 24) dvd N"
proof -
  from assms obtain q d where q: "q \<le> 2 ^ 24" and N: "N = q * 2 ^ d" and "0 < q"
    by (auto simp: representable_def)
  then have log: "floorlog 2 N = floorlog 2 q + d"
    by simp
  show ?thesis
  proof (cases "q = 2 ^ 24")
    case True
    then have "floorlog 2 N = 25 + d"
      using log floorlog_power [of 1 2 24] by simp
    then have "2 ^ (floorlog 2 N - 24) = (2 ^ Suc d :: nat)"
      by simp
    moreover have "N = 2 ^ 23 * 2 ^ Suc d"
      using N True by simp
    ultimately show ?thesis by simp
  next
    case False
    then have "floorlog 2 q \<le> 24"
      using q by (intro floorlog_leI) auto
    then have "floorlog 2 N - 24 \<le> d"
      using log by simp
    then show ?thesis
      using N by (simp add: le_imp_power_dvd)
  qed
qed

lemma encode_mag:
  assumes "representable N" and "N < 2 ^ 277"
  shows "f32_mag (f32_encode s N) = N" and "f32_is_finite (f32_encode s N)"
    and "f32_sign (f32_encode s N) = s"
proof -
  have "f32_mag (f32_encode s N) = N \<and> f32_is_finite (f32_encode s N) \<and> f32_sign (f32_encode s N) = s"
  proof (cases "N < 2 ^ 23")
    case True
    then show ?thesis by (simp add: f32_encode_def f32_mag_def f32_is_finite_def f32_fields_bits)
  next
    case False
    define e where "e = floorlog 2 N - 23"
    have ge: "24 \<le> floorlog 2 N"
      using False by (intro floorlog_geI) auto
    have le: "floorlog 2 N \<le> 277"
      using assms(2) by (intro floorlog_leI) auto
    have e: "0 < e" "e < 255" "floorlog 2 N = e + 23" "floorlog 2 N - 24 = e - 1"
      using ge le by (auto simp: e_def)
    have "2 ^ (e + 22) \<le> N" and "N < 2 ^ (e + 23)"
      using floorlog_bounds [of N 2] False e(1) by (simp_all add: e(3) add.commute)
    moreover have "(2 :: nat) ^ (e + 22) = 2 ^ 23 * 2 ^ (e - 1)" "(2 :: nat) ^ (e + 23) = 2 ^ 24 * 2 ^ (e - 1)"
      using power_add [of "2 :: nat" 23 "e - 1"] power_add [of "2 :: nat" 24 "e - 1"] e(1)
      by (simp_all add: add.commute)
    ultimately have "2 ^ 23 \<le> N div 2 ^ (e - 1)" and "N div 2 ^ (e - 1) < 2 ^ 24"
      by (simp_all add: less_eq_div_iff_mult_less_eq div_less_iff_less_mult)
    moreover have "N div 2 ^ (e - 1) * 2 ^ (e - 1) = N"
      using representable_dvd [OF assms(1)] False e(4) by simp
    ultimately show ?thesis
      using False e by (simp add: f32_encode_def f32_mag_def f32_is_finite_def f32_fields_bits flip: e_def)
  qed
  then show "f32_mag (f32_encode s N) = N" and "f32_is_finite (f32_encode s N)"
    and "f32_sign (f32_encode s N) = s" by auto
qed

section \<open>Arithmetic on positive values\<close>

definition f32_pos :: "f32 \<Rightarrow> bool" where
  "f32_pos w \<longleftrightarrow> f32_is_finite w \<and> \<not> f32_sign w"

lemma pos_not_special [simp]:
  "f32_pos w \<Longrightarrow> \<not> f32_is_nan w" "f32_pos w \<Longrightarrow> \<not> f32_is_inf w" "f32_pos w \<Longrightarrow> \<not> f32_sign w"
  by (simp_all add: f32_pos_def f32_class_defs)

lemma pos_int [simp]: "f32_pos w \<Longrightarrow> f32_int w = int (f32_mag w)"
  by (simp add: f32_int_def)

lemma f32_mul_pos:
  assumes "f32_pos a" and "f32_pos b" and "round_mag 149 (f32_mag a * f32_mag b) < 2 ^ 277"
  shows "f32_pos (f32_mul a b)" and "f32_mag (f32_mul a b) = round_mag 149 (f32_mag a * f32_mag b)"
proof -
  have "f32_mul a b = f32_encode False (round_mag 149 (f32_mag a * f32_mag b))"
    using assms(1,2) by (simp add: f32_mul_def)
  then show "f32_pos (f32_mul a b)" and "f32_mag (f32_mul a b) = round_mag 149 (f32_mag a * f32_mag b)"
    using encode_mag [OF representable_round assms(3), of False] by (simp_all add: f32_pos_def)
qed

lemma f32_add_pos:
  assumes "f32_pos a" and "f32_pos b" and "0 < f32_mag a"
    and "round_mag 0 (f32_mag a + f32_mag b) < 2 ^ 277"
  shows "f32_pos (f32_add a b)" and "f32_mag (f32_add a b) = round_mag 0 (f32_mag a + f32_mag b)"
proof -
  have "nat (int (f32_mag a) + int (f32_mag b)) = f32_mag a + f32_mag b"
    by linarith
  then have "f32_add a b = f32_encode False (round_mag 0 (f32_mag a + f32_mag b))"
    using assms(1-3) by (simp add: f32_add_def Let_def)
  then show "f32_pos (f32_add a b)" and "f32_mag (f32_add a b) = round_mag 0 (f32_mag a + f32_mag b)"
    using encode_mag [OF representable_round assms(4), of False] by (simp_all add: f32_pos_def)
qed

text \<open>A positive value between two others, which is how a range is stated.\<close>

definition f32_between :: "f32 \<Rightarrow> f32 \<Rightarrow> f32 \<Rightarrow> bool" where
  "f32_between lo hi w \<longleftrightarrow> f32_pos lo \<and> f32_pos hi \<and> f32_pos w \<and>
     f32_mag lo \<le> f32_mag w \<and> f32_mag w \<le> f32_mag hi"

lemma f32_between_le: "f32_between lo hi w \<Longrightarrow> f32_le lo w \<and> f32_le w hi"
  by (simp add: f32_between_def f32_le_def)

lemma f32_mul_between:
  assumes "f32_between lo hi w" and "f32_pos b" and "round_mag 149 (f32_mag hi * f32_mag b) < 2 ^ 277"
  shows "f32_between (f32_mul lo b) (f32_mul hi b) (f32_mul w b)"
proof -
  let ?r = "\<lambda>x. round_mag 149 (f32_mag x * f32_mag b)"
  have "?r lo \<le> ?r w" and "?r w \<le> ?r hi"
    using assms(1) by (auto simp: f32_between_def intro!: round_mag_mono)
  with assms show ?thesis
    unfolding f32_between_def by (auto simp: f32_mul_pos)
qed

lemma f32_add_between:
  assumes "f32_between lo hi w" and "f32_pos c" and "0 < f32_mag c"
    and "round_mag 0 (f32_mag c + f32_mag hi) < 2 ^ 277"
  shows "f32_between (f32_add c lo) (f32_add c hi) (f32_add c w)"
proof -
  let ?r = "\<lambda>x. round_mag 0 (f32_mag c + f32_mag x)"
  have "?r lo \<le> ?r w" and "?r w \<le> ?r hi"
    using assms(1) by (auto simp: f32_between_def intro!: round_mag_mono)
  with assms show ?thesis
    unfolding f32_between_def by (auto simp: f32_add_pos)
qed

lemma f32_between_trans:
  "f32_between lo hi w \<Longrightarrow> f32_between lo' hi' lo \<Longrightarrow> f32_between lo' hi' hi \<Longrightarrow> f32_between lo' hi' w"
  by (auto simp: f32_between_def)

section \<open>A reference hypotenuse\<close>

text \<open>
  Rust leaves the precision of \<^verbatim>\<open>hypot\<close> open. \<open>f32_hypot\<close> is the correctly rounded one, with the
  C99 rules for infinities and NaNs: 30 more bits than the units of the operands and a sticky
  bit decide the rounding. The theorems take any \<^verbatim>\<open>hypot\<close>; this one shows their hypotheses hold.
\<close>

definition isqrt_digit :: "nat \<Rightarrow> nat \<Rightarrow> nat" where
  "isqrt_digit n r = (if (r + 1) * (r + 1) \<le> n then r + 1 else r)"

fun isqrt :: "nat \<Rightarrow> nat" where
  "isqrt n = (if n = 0 then 0 else isqrt_digit n (2 * isqrt (n div 4)))"

declare isqrt.simps [simp del]

lemma isqrt_literal:
  "isqrt 0 = 0" "isqrt (Suc 0) = 1"
  "isqrt (numeral k) = isqrt_digit (numeral k) (2 * isqrt (numeral k div 4))"
  using isqrt.simps [of 0] isqrt.simps [of 1] isqrt.simps [of "numeral k"]
  by (simp_all add: isqrt_digit_def)

lemma isqrt_correct: "isqrt n * isqrt n \<le> n \<and> n < (isqrt n + 1) * (isqrt n + 1)"
proof (induction n rule: isqrt.induct)
  case (1 n)
  show ?case
  proof (cases "n = 0")
    case True
    then show ?thesis by (simp add: isqrt.simps)
  next
    case False
    define q where "q = isqrt (n div 4)"
    have q: "q * q \<le> n div 4" "n div 4 < (q + 1) * (q + 1)"
      using 1 False by (simp_all add: q_def)
    have "4 * (q * q) \<le> n" and "n < 4 * ((q + 1) * (q + 1))"
      using q by linarith+
    moreover have "isqrt n = (if (2 * q + 1) * (2 * q + 1) \<le> n then 2 * q + 1 else 2 * q)"
      using False isqrt.simps [of n] by (simp add: q_def isqrt_digit_def)
    ultimately show ?thesis by (simp add: algebra_simps)
  qed
qed

definition f32_hypot :: "f32 \<Rightarrow> f32 \<Rightarrow> f32" where
  "f32_hypot a b =
     (if f32_is_inf a \<or> f32_is_inf b then f32_inf False
      else if f32_is_nan a \<or> f32_is_nan b then f32_nan
      else let S = (f32_mag a * f32_mag a + f32_mag b * f32_mag b) * 4 ^ 30; r = isqrt S in
        f32_encode False (round_mag 31 (2 * r + (if r * r = S then 0 else 1))))"

lemma f32_hypot_3_4: "f32_hypot 3 4 = 5" \<comment> \<open>in the smallest units, 3, 4 and 5 times \<open>2 ^ -149\<close>\<close>
  by (simp add: f32_hypot_def f32_eval isqrt_literal isqrt_digit_def)

end
