(* ===== verification/Celer_Fsm.thy ===== *)
theory Celer_Fsm
  imports F32 Stroke_Event
begin

text \<open>
  The kinematic engine of \<^verbatim>\<open>celer/src/main.rs\<close>: the per-session state machine that turns
  pen-down, move and pen-up events into precision readings, and the pool of 65536 session
  states it indexes with the low bits of the session id. \<^verbatim>\<open>f32::hypot\<close> has no specified
  result in Rust (its documentation leaves the precision open), so it is a parameter of the
  model; the arithmetic on it is IEEE binary32.
\<close>

section \<open>State\<close>

definition SESSION_POOL_SIZE :: usize where "SESSION_POOL_SIZE = 65536"
definition SESSION_MASK :: usize where "SESSION_MASK = SESSION_POOL_SIZE - 1"

text \<open>The float literals of the source.\<close>

definition F0 :: f32 where "F0 = 0"
definition F1 :: f32 where "F1 = 0x3F800000"
definition F5 :: f32 where "F5 = 0x40A00000"
definition F45 :: f32 where "F45 = 0x42340000"
definition F95 :: f32 where "F95 = 0x42BE0000"
definition F100 :: f32 where "F100 = 0x42C80000"
definition ALPHA :: f32 where "ALPHA = 0x3E19999A" \<comment> \<open>0.15\<close>

lemmas float_literals = F0_def F1_def F5_def F45_def F95_def F100_def ALPHA_def

record session_state =
  ss_active :: bool
  ss_last_x :: f32
  ss_last_y :: f32
  ss_last_dx :: f32
  ss_last_dy :: f32
  ss_last_timestamp :: u64
  ss_smoothed_precision :: f32

record precision_event =
  pe_session_id :: u32
  pe_precision :: f32
  pe_speed :: f32

definition initial_session :: session_state where
  "initial_session = \<lparr>ss_active = False, ss_last_x = F0, ss_last_y = F0, ss_last_dx = F0,
     ss_last_dy = F0, ss_last_timestamp = 0, ss_smoothed_precision = F100\<rparr>"

section \<open>One event on one session\<close>

type_synonym hypot_fun = "f32 \<Rightarrow> f32 \<Rightarrow> f32"

definition smooth :: "f32 \<Rightarrow> f32 \<Rightarrow> f32" where
  "smooth instant_precision s =
     f32_add (f32_mul instant_precision ALPHA) (f32_mul s (f32_sub F1 ALPHA))"

definition instant_precision :: "f32 \<Rightarrow> f32" where
  "instant_precision d = (if f32_gt d F5 then F95 else F45)"

definition stroke_down :: "stroke_event \<Rightarrow> session_state \<Rightarrow> session_state" where
  "stroke_down e s = s\<lparr>ss_active := True, ss_last_x := ev_x e, ss_last_y := ev_y e,
     ss_last_timestamp := ev_timestamp e, ss_smoothed_precision := F100\<rparr>"

definition stroke_move ::
    "hypot_fun \<Rightarrow> stroke_event \<Rightarrow> session_state \<Rightarrow> precision_event option \<times> session_state" where
  "stroke_move hypot e s =
     (if ss_active s then
        (let dx = f32_sub (ev_x e) (ss_last_x s);
             dy = f32_sub (ev_y e) (ss_last_y s);
             d = hypot dx dy in
         if f32_gt d F0 then
           (let p = smooth (instant_precision d) (ss_smoothed_precision s) in
            (Some \<lparr>pe_session_id = ev_session_id e, pe_precision = p, pe_speed = d\<rparr>,
             s\<lparr>ss_smoothed_precision := p, ss_last_x := ev_x e, ss_last_y := ev_y e\<rparr>))
         else (None, s))
      else (None, s))"

definition fsm_step ::
    "hypot_fun \<Rightarrow> stroke_event \<Rightarrow> session_state \<Rightarrow> precision_event option \<times> session_state" where
  "fsm_step hypot e s =
     (if ev_action e = ACTION_DOWN then (None, stroke_down e s)
      else if ev_action e = ACTION_MOVE then stroke_move hypot e s
      else if ev_action e = ACTION_UP then (None, s\<lparr>ss_active := False\<rparr>)
      else (None, s))"

section \<open>The pool\<close>

datatype pool_panic = PoolIndexOutOfBounds nat

type_synonym fsm_pool = "nat \<Rightarrow> session_state" \<comment> \<open>a \<^verbatim>\<open>Vec\<close> of fixed length 65536\<close>

definition initial_pool :: fsm_pool where
  "initial_pool = (\<lambda>_. initial_session)"

definition session_slot :: "u32 \<Rightarrow> nat" where
  "session_slot sid = unat ((ucast sid :: usize) AND SESSION_MASK)"

definition process_stroke ::
    "hypot_fun \<Rightarrow> stroke_event \<Rightarrow> fsm_pool \<Rightarrow> pool_panic + precision_event option \<times> fsm_pool" where
  "process_stroke hypot e pool =
     (let i = session_slot (ev_session_id e) in
      if i < unat SESSION_POOL_SIZE
      then (case fsm_step hypot e (pool i) of (out, s) \<Rightarrow> Inr (out, pool(i := s)))
      else Inl (PoolIndexOutOfBounds i))"

fun process_strokes ::
    "hypot_fun \<Rightarrow> stroke_event list \<Rightarrow> fsm_pool \<Rightarrow> pool_panic + precision_event list \<times> fsm_pool" where
  "process_strokes hypot [] pool = Inr ([], pool)"
| "process_strokes hypot (e # es) pool =
     (case process_stroke hypot e pool of
        Inl f \<Rightarrow> Inl f
      | Inr (out, pool1) \<Rightarrow>
          (case process_strokes hypot es pool1 of
             Inl f \<Rightarrow> Inl f
           | Inr (outs, pool2) \<Rightarrow> Inr ((case out of None \<Rightarrow> outs | Some p \<Rightarrow> p # outs), pool2)))"

lemmas fsm_defs [handle_defs] =
  fsm_step_def stroke_down_def stroke_move_def smooth_def instant_precision_def Let_def

section \<open>Indexing\<close>

lemma session_slot_mod: "session_slot sid = unat sid mod 65536"
proof -
  have mask: "SESSION_MASK = mask 16"
    by (simp add: SESSION_MASK_def SESSION_POOL_SIZE_def mask_eq_exp_minus_1)
  have "session_slot sid = unat (ucast sid :: usize) mod 2 ^ 16"
    unfolding session_slot_def mask by (rule unat_and_mask)
  moreover have "unat sid < 2 ^ 64"
    using unsigned_less [of sid, where 'a = nat] by simp
  then have "unat (ucast sid :: usize) = unat sid"
    by (simp add: unsigned_ucast_eq take_bit_nat_eq_self)
  ultimately show ?thesis by simp
qed

lemma session_slot_less: "session_slot sid < unat SESSION_POOL_SIZE"
  by (simp add: session_slot_mod SESSION_POOL_SIZE_def)

lemma process_stroke_eq:
  "process_stroke hypot e pool =
     Inr (fst (fsm_step hypot e (pool (session_slot (ev_session_id e)))),
          pool(session_slot (ev_session_id e) := snd (fsm_step hypot e (pool (session_slot (ev_session_id e))))))"
  by (simp add: process_stroke_def session_slot_less Let_def split: prod.split)

section \<open>The smoothing step\<close>

definition BETA :: f32 where "BETA = 0x3F59999A"

lemma BETA_eq: "f32_sub F1 ALPHA = BETA"
  by (simp add: F1_def ALPHA_def BETA_def f32_eval)

lemma smooth_const:
  "f32_mul F45 ALPHA = 0x40D80001" "f32_mul F95 ALPHA = 0x41640001"
  by (simp_all add: float_literals f32_eval)

text \<open>The four end points: what one smoothing step does to the limits 45.0 and 100.0.\<close>

lemma smooth_ends:
  "smooth F45 F45 = F45" "smooth F45 F100 = 0x42B78000"
  "smooth F95 F45 = 0x42520000" "smooth F95 F100 = 0x42C68000"
  by (simp_all add: smooth_def BETA_eq) (simp_all add: float_literals BETA_def f32_eval)

lemma literal_pos [simp]: "f32_pos F45" "f32_pos F95" "f32_pos F100" "f32_pos BETA"
  by (simp_all add: f32_pos_def float_literals BETA_def f32_eval)

text \<open>A precision is in range when it is an ordinary number between 45.0 and 100.0.\<close>

abbreviation in_range :: "f32 \<Rightarrow> bool" where
  "in_range \<equiv> f32_between F45 F100"

lemma in_range_F100 [simp]: "in_range F100"
  by (simp add: f32_between_def) (simp add: float_literals f32_eval)

lemma smooth_between:
  assumes "f32_between lo hi s" and "in_range hi" and "i = F45 \<or> i = F95"
  shows "f32_between (smooth i lo) (smooth i hi) (smooth i s)"
proof -
  have hi: "f32_mag hi \<le> f32_mag F100"
    using assms(2) by (simp add: f32_between_def)
  have "f32_mag hi * f32_mag BETA \<le> f32_mag F100 * f32_mag BETA"
    using hi by (rule mult_le_mono1)
  then have "round_mag 149 (f32_mag hi * f32_mag BETA) \<le> round_mag 149 (f32_mag F100 * f32_mag BETA)"
    by (rule round_mag_mono)
  also have "\<dots> = f32_mag (f32_mul F100 BETA)"
    by (simp add: float_literals BETA_def f32_eval)
  finally have prod: "round_mag 149 (f32_mag hi * f32_mag BETA) \<le> f32_mag (f32_mul F100 BETA)" .
  have big: "f32_mag (f32_mul F100 BETA) < 2 ^ 160"
    by (simp add: float_literals BETA_def f32_eval)
  let ?c = "f32_mul i ALPHA"
  have c: "f32_pos ?c" "0 < f32_mag ?c" "f32_mag ?c < 2 ^ 160"
    using assms(3) by (auto simp: smooth_const f32_pos_def) (simp_all add: f32_eval)
  have sum: "f32_mag ?c + f32_mag (f32_mul hi BETA) \<le> 2 ^ 161"
    using assms(1) c(3) prod big by (subst f32_mul_pos) (auto simp: f32_between_def)
  have "round_mag 0 (f32_mag ?c + f32_mag (f32_mul hi BETA)) \<le> round_mag 0 (2 ^ 161)"
    using sum by (rule round_mag_mono)
  also have "\<dots> < 2 ^ 277"
    by (simp add: f32_eval)
  finally have room: "round_mag 0 (f32_mag ?c + f32_mag (f32_mul hi BETA)) < 2 ^ 277" .
  have "f32_between (f32_mul lo BETA) (f32_mul hi BETA) (f32_mul s BETA)"
    using assms(1) prod big by (intro f32_mul_between) auto
  then show ?thesis
    unfolding smooth_def BETA_eq using c(1,2) room by (rule f32_add_between)
qed

lemma smooth_in_range:
  assumes "in_range s" and "i = F45 \<or> i = F95"
  shows "in_range (smooth i s)"
proof (rule f32_between_trans)
  show "f32_between (smooth i F45) (smooth i F100) (smooth i s)"
    using assms by (intro smooth_between) auto
  show "in_range (smooth i F45)" and "in_range (smooth i F100)"
    using assms(2) by (auto simp: smooth_ends f32_between_def f32_pos_def) (simp_all add: float_literals f32_eval)
qed

section \<open>Whole streams\<close>

definition pool_in_range :: "fsm_pool \<Rightarrow> bool" where
  "pool_in_range pool \<longleftrightarrow> (\<forall>i. in_range (ss_smoothed_precision (pool i)))"

definition reading_ok :: "precision_event \<Rightarrow> bool" where
  "reading_ok p \<longleftrightarrow> f32_le F45 (pe_precision p) \<and> f32_le (pe_precision p) F100 \<and> f32_gt (pe_speed p) F0"

lemma instant_cases: "instant_precision d = F45 \<or> instant_precision d = F95"
  by (simp add: instant_precision_def)

lemma fsm_step_in_range [step_inv]:
  "in_range (ss_smoothed_precision s) \<Longrightarrow> in_range (ss_smoothed_precision (snd (fsm_step hypot e s)))"
  using smooth_in_range [OF _ instant_cases]
  by (simp add: fsm_step_def stroke_down_def stroke_move_def Let_def)

lemma fsm_step_reading:
  "in_range (ss_smoothed_precision s) \<Longrightarrow> fst (fsm_step hypot e s) = Some p \<Longrightarrow> reading_ok p"
  using f32_between_le [OF smooth_in_range [OF _ instant_cases]]
  by (auto simp: fsm_step_def stroke_move_def reading_ok_def Let_def split: if_splits)

lemma initial_pool_in_range: "pool_in_range initial_pool"
  by (simp add: pool_in_range_def initial_pool_def initial_session_def)

lemma process_strokes_reading:
  "pool_in_range pool \<Longrightarrow>
   \<exists>outs pool'. process_strokes hypot es pool = Inr (outs, pool') \<and> pool_in_range pool' \<and> list_all reading_ok outs"
proof (induction es arbitrary: pool)
  case Nil
  then show ?case by simp
next
  case (Cons e es)
  let ?i = "session_slot (ev_session_id e)"
  let ?step = "fsm_step hypot e (pool ?i)"
  have range: "in_range (ss_smoothed_precision (pool ?i))"
    using Cons.prems by (simp add: pool_in_range_def)
  have "pool_in_range (pool(?i := snd ?step))"
    using Cons.prems range by (simp add: pool_in_range_def fsm_step_in_range)
  from Cons.IH [OF this] fsm_step_reading [OF range, of hypot e] show ?case
    by (auto simp: process_stroke_eq simp del: fun_upd_apply split: option.split)
qed

text \<open>
  C16: whatever events arrive, in whatever order and for whatever sessions, and whatever
  \<^verbatim>\<open>hypot\<close> returns, the engine never panics on the pool and every reading it broadcasts has a
  precision between 45.0 and 100.0 in IEEE arithmetic, rounding included (so never a NaN), and
  a positive speed.
\<close>

theorem readings_in_range:
  "\<exists>outs pool'. process_strokes hypot es initial_pool = Inr (outs, pool') \<and> list_all reading_ok outs"
  using process_strokes_reading [OF initial_pool_in_range] by blast

section \<open>Sessions do not interfere, unless they share a slot\<close>

definition on_slot :: "nat \<Rightarrow> stroke_event \<Rightarrow> bool" where
  "on_slot k e \<longleftrightarrow> session_slot (ev_session_id e) = k"

lemma fsm_step_session:
  "fst (fsm_step hypot e s) = Some p \<Longrightarrow> pe_session_id p = ev_session_id e"
  by (auto simp: fsm_step_def stroke_move_def Let_def split: if_splits)

lemma slot_isolation:
  assumes "pool k = pool2 k"
  shows "\<exists>outs pool' outs2 pool2'.
      process_strokes hypot es pool = Inr (outs, pool') \<and>
      process_strokes hypot (filter (on_slot k) es) pool2 = Inr (outs2, pool2') \<and>
      outs2 = filter (\<lambda>p. session_slot (pe_session_id p) = k) outs \<and> pool2' k = pool' k"
  using assms
proof (induction es arbitrary: pool pool2)
  case Nil
  then show ?case by simp
next
  case (Cons e es)
  let ?i = "session_slot (ev_session_id e)"
  let ?step = "fsm_step hypot e (pool ?i)"
  have id: "pe_session_id p = ev_session_id e" if "fst ?step = Some p" for p
    using that by (rule fsm_step_session)
  show ?case
  proof (cases "?i = k")
    case True
    then have step2: "fsm_step hypot e (pool2 k) = ?step"
      using Cons.prems by simp
    have upd: "(pool(k := snd ?step)) k = (pool2(k := snd ?step)) k"
      by simp
    obtain outs pool' outs2 pool2' where
      "process_strokes hypot es (pool(k := snd ?step)) = Inr (outs, pool')"
      "process_strokes hypot (filter (on_slot k) es) (pool2(k := snd ?step)) = Inr (outs2, pool2')"
      "outs2 = filter (\<lambda>p. session_slot (pe_session_id p) = k) outs" "pool2' k = pool' k"
      using Cons.IH [of "pool(k := snd ?step)" "pool2(k := snd ?step)", OF upd] by blast
    moreover have "on_slot k e"
      using True by (simp add: on_slot_def)
    ultimately show ?thesis
      using True step2 by (auto simp: process_stroke_eq id simp del: fun_upd_apply split: option.split)
  next
    case False
    then have upd: "(pool(?i := snd ?step)) k = pool2 k"
      using Cons.prems by simp
    obtain outs pool' outs2 pool2' where
      "process_strokes hypot es (pool(?i := snd ?step)) = Inr (outs, pool')"
      "process_strokes hypot (filter (on_slot k) es) pool2 = Inr (outs2, pool2')"
      "outs2 = filter (\<lambda>p. session_slot (pe_session_id p) = k) outs" "pool2' k = pool' k"
      using Cons.IH [of "pool(?i := snd ?step)" pool2, OF upd] by blast
    moreover have "\<not> on_slot k e"
      using False by (simp add: on_slot_def)
    ultimately show ?thesis
      using False by (auto simp: process_stroke_eq id simp del: fun_upd_apply split: option.split)
  qed
qed

text \<open>
  A session's readings and final state depend on its own slot's events only: dropping every
  event of the other slots leaves them exactly as they were. Two sessions share a slot exactly
  when their ids agree modulo 65536, which the second part states: ids 65536 apart do share it.
\<close>

lemma sessions_isolated:
  "(\<exists>outs pool' outs2 pool2'.
      process_strokes hypot es initial_pool = Inr (outs, pool') \<and>
      process_strokes hypot (filter (on_slot k) es) initial_pool = Inr (outs2, pool2') \<and>
      outs2 = filter (\<lambda>p. session_slot (pe_session_id p) = k) outs \<and> pool2' k = pool' k)
   \<and> (session_slot a = session_slot b \<longleftrightarrow> unat a mod 65536 = unat b mod 65536)
   \<and> session_slot (a + 65536) = session_slot a"
proof -
  have "unat (a + 65536) mod 65536 = unat a mod 65536"
    by (simp add: unat_word_ariths mod_mod_cancel)
  then show ?thesis
    using slot_isolation [of initial_pool k initial_pool hypot es] by (simp add: session_slot_mod)
qed

section \<open>Pen up, and coordinates that are not numbers\<close>

lemma inactive_step:
  "\<not> ss_active s \<Longrightarrow> ev_action e \<noteq> ACTION_DOWN \<Longrightarrow> fsm_step hypot e s = (None, s)"
  by (simp add: fsm_step_def stroke_move_def)

text \<open>
  With no pen down nothing is measured. From a pool with no active stroke, any stream of
  events without a pen-down (moves, pen-ups, unknown actions) broadcasts nothing and leaves
  every session state as it was.
\<close>

lemma no_reading_without_pen_down:
  assumes "\<forall>k. \<not> ss_active (pool k)" and "list_all (\<lambda>e. ev_action e \<noteq> ACTION_DOWN) es"
  shows "process_strokes hypot es pool = Inr ([], pool)"
  using assms(2) by (induction es) (simp_all add: process_stroke_eq inactive_step assms(1))

lemma no_reading_example:
  "process_strokes (\<lambda>a b. a) [\<lparr>ev_session_id = 3, ev_timestamp = 9, ev_x = F1, ev_y = F1, ev_pressure = F1,
      ev_action = ACTION_MOVE, ev_trace_id = [], ev_parent_span_id = []\<rparr>] initial_pool
   = Inr ([], initial_pool)"
  by (rule no_reading_without_pen_down) (simp_all add: initial_pool_def initial_session_def action_defs)

text \<open>
  What the documentation of \<^verbatim>\<open>hypot\<close> and C99 fix about NaN arguments: the result is a NaN, unless
  the other argument is infinite.
\<close>

definition hypot_propagates_nan :: "hypot_fun \<Rightarrow> bool" where
  "hypot_propagates_nan hypot \<longleftrightarrow>
     (\<forall>a b. (f32_is_nan a \<or> f32_is_nan b) \<and> \<not> f32_is_inf a \<and> \<not> f32_is_inf b \<longrightarrow> f32_is_nan (hypot a b))"

lemma f32_nan_is_nan [simp]: "f32_is_nan f32_nan"
  by (simp add: f32_nan_def f32_is_nan_def f32_fields_bits)

lemma f32_add_nan [simp]:
  "f32_is_nan a \<or> f32_is_nan b \<Longrightarrow> f32_is_nan (f32_add a b)"
  by (auto simp: f32_add_def)

lemma f32_neg_exp_frac: "f32_exp (f32_neg w) = f32_exp w \<and> f32_frac (f32_neg w) = f32_frac w"
proof -
  have low: "unat (take_bit 31 (f32_neg w)) = unat (take_bit 31 w)"
    by (rule arg_cong [where f = unat], rule bit_word_eqI) (auto simp: f32_neg_def bit_simps)
  have exp: "unat v div 2 ^ 23 mod 2 ^ 8 = unat (take_bit 31 v) div 2 ^ 23" for v :: f32
  proof -
    have "unat v mod 2 ^ 31 = unat v mod 2 ^ 23 + 2 ^ 23 * (unat v div 2 ^ 23 mod 2 ^ 8)"
      using mod_mult2_eq [of "unat v" "2 ^ 23" "2 ^ 8"] by simp
    then show ?thesis by (simp add: unat_take_bit_mod)
  qed
  have frac: "unat v mod 2 ^ 23 = unat (take_bit 31 v) mod 2 ^ 23" for v :: f32
    by (simp add: unat_take_bit_mod mod_mod_cancel)
  show ?thesis
    using exp [of w] exp [of "f32_neg w"] frac [of w] frac [of "f32_neg w"] low
    by (simp add: f32_exp_def f32_frac_def)
qed

lemma f32_sub_nan: "f32_is_nan a \<or> f32_is_nan b \<Longrightarrow> f32_is_nan (f32_sub a b)"
  using f32_neg_exp_frac [of b] by (auto simp: f32_sub_def f32_is_nan_def [of b] f32_is_nan_def [of "f32_neg b"])

text \<open>From a stored abscissa that is a NaN no move gets away, unless its ordinate is infinitely far.\<close>

lemma nan_step:
  assumes "hypot_propagates_nan hypot" and "f32_is_nan (ss_last_x s)" and "ev_action e \<noteq> ACTION_DOWN"
    and "\<not> f32_is_inf (f32_sub (ev_y e) (ss_last_y s))"
  shows "fst (fsm_step hypot e s) = None" and "ss_last_x (snd (fsm_step hypot e s)) = ss_last_x s"
    and "ss_last_y (snd (fsm_step hypot e s)) = ss_last_y s"
proof -
  let ?dx = "f32_sub (ev_x e) (ss_last_x s)" and ?dy = "f32_sub (ev_y e) (ss_last_y s)"
  have nan: "f32_is_nan ?dx"
    using assms(2) by (simp add: f32_sub_nan)
  then have "\<not> f32_is_inf ?dx"
    by (simp add: f32_class_defs)
  with nan assms(1,4) have "f32_is_nan (hypot ?dx ?dy)"
    unfolding hypot_propagates_nan_def by blast
  then have "stroke_move hypot e s = (None, s)"
    by (simp add: stroke_move_def Let_def f32_gt_def)
  with assms(3) show "fst (fsm_step hypot e s) = None" and "ss_last_x (snd (fsm_step hypot e s)) = ss_last_x s"
    and "ss_last_y (snd (fsm_step hypot e s)) = ss_last_y s"
    by (simp_all add: fsm_step_def)
qed

lemma nan_run:
  assumes hypot: "hypot_propagates_nan hypot" and nan: "f32_is_nan x"
  shows "ss_last_x (pool k) = x \<Longrightarrow> ss_last_y (pool k) = y \<Longrightarrow>
    \<forall>e \<in> set es. on_slot k e \<longrightarrow> ev_action e \<noteq> ACTION_DOWN \<and> \<not> f32_is_inf (f32_sub (ev_y e) y) \<Longrightarrow>
    \<exists>outs pool'. process_strokes hypot es pool = Inr (outs, pool') \<and>
      (\<forall>p \<in> set outs. session_slot (pe_session_id p) \<noteq> k) \<and> ss_last_x (pool' k) = x \<and> ss_last_y (pool' k) = y"
proof (induction es arbitrary: pool)
  case (Cons e es)
  let ?i = "session_slot (ev_session_id e)"
  let ?step = "fsm_step hypot e (pool ?i)"
  let ?pool1 = "pool(?i := snd ?step)"
  have stays: "ss_last_x (?pool1 k) = x \<and> ss_last_y (?pool1 k) = y \<and> (?i = k \<longrightarrow> fst ?step = None)"
    using Cons.prems nan_step [OF hypot, of "pool k" e] nan by (auto simp: on_slot_def)
  have later: "\<forall>e \<in> set es. on_slot k e \<longrightarrow> ev_action e \<noteq> ACTION_DOWN \<and> \<not> f32_is_inf (f32_sub (ev_y e) y)"
    using Cons.prems(3) by simp
  obtain outs pool' where rest: "process_strokes hypot es ?pool1 = Inr (outs, pool')"
    and silent: "\<forall>p \<in> set outs. session_slot (pe_session_id p) \<noteq> k" "ss_last_x (pool' k) = x" "ss_last_y (pool' k) = y"
    using Cons.IH [of ?pool1, OF stays [THEN conjunct1] stays [THEN conjunct2, THEN conjunct1] later] by blast
  have "session_slot (pe_session_id p) \<noteq> k" if "fst ?step = Some p" for p
    using stays that fsm_step_session [OF that] by auto
  with rest silent show ?case
    by (auto simp: process_stroke_eq simp del: fun_upd_apply split: option.split)
qed simp

text \<open>
  C37: a pen-down with a NaN abscissa silences its session. Process one in any state of the engine, and then
  any events: as long as none of those of its session (or of another one on its slot) is a pen-down
  or lies at an infinite distance in the ordinate, no reading is made for it, whatever coordinates
  the moves have, and the position stored stays that of the pen-down. Events of other sessions may come in
  between. (Of \<^verbatim>\<open>hypot\<close> only the NaN it documents is used.)
\<close>

theorem nan_pen_down_silences_stroke:
  assumes "hypot_propagates_nan hypot" and "ev_action d = ACTION_DOWN" and "f32_is_nan (ev_x d)"
    and "k = session_slot (ev_session_id d)"
    and "\<forall>e \<in> set es. on_slot k e \<longrightarrow> ev_action e \<noteq> ACTION_DOWN \<and> \<not> f32_is_inf (f32_sub (ev_y e) (ev_y d))"
  shows "\<exists>outs pool'. process_strokes hypot (d # es) pool = Inr (outs, pool') \<and>
    (\<forall>p \<in> set outs. session_slot (pe_session_id p) \<noteq> k) \<and>
    ss_last_x (pool' k) = ev_x d \<and> ss_last_y (pool' k) = ev_y d"
proof -
  have down: "fsm_step hypot d s = (None, stroke_down d s)" for s
    using assms(2) by (simp add: fsm_step_def)
  let ?pool1 = "pool(k := stroke_down d (pool k))"
  have x: "ss_last_x (?pool1 k) = ev_x d" and y: "ss_last_y (?pool1 k) = ev_y d"
    by (simp_all add: stroke_down_def)
  obtain outs pool' where rest: "process_strokes hypot es ?pool1 = Inr (outs, pool')"
    and silent: "\<forall>p \<in> set outs. session_slot (pe_session_id p) \<noteq> k"
      "ss_last_x (pool' k) = ev_x d" "ss_last_y (pool' k) = ev_y d"
    using nan_run [where pool = ?pool1 and k = k, OF assms(1,3) x y assms(5)] by blast
  have "process_strokes hypot (d # es) pool = Inr (outs, pool')"
    using rest assms(4) by (simp add: process_stroke_eq down)
  with silent show ?thesis by blast
qed

lemma f32_hypot_propagates_nan: "hypot_propagates_nan f32_hypot"
  by (auto simp: hypot_propagates_nan_def f32_hypot_def)

text \<open>A stroke that starts at a NaN: its move and its end, and the stroke of another session in between.\<close>

definition drawn_at :: "u32 \<Rightarrow> u8 \<Rightarrow> f32 \<Rightarrow> stroke_event" where
  "drawn_at sid a x = \<lparr>ev_session_id = sid, ev_timestamp = 9, ev_x = x, ev_y = F1, ev_pressure = F1,
     ev_action = a, ev_trace_id = [], ev_parent_span_id = []\<rparr>"

theorem nan_pen_down_silences_stroke_witness:
  "\<exists>outs pool'. process_strokes f32_hypot (drawn_at 3 ACTION_DOWN f32_nan #
       [drawn_at 4 ACTION_DOWN F1, drawn_at 3 ACTION_MOVE F5, drawn_at 4 ACTION_MOVE F5, drawn_at 3 ACTION_UP F5]) initial_pool
     = Inr (outs, pool') \<and>
     (\<forall>p \<in> set outs. session_slot (pe_session_id p) \<noteq> session_slot 3) \<and> ss_last_x (pool' (session_slot 3)) = f32_nan"
proof -
  have fields [simp]: "ev_session_id (drawn_at sid a x) = sid" "ev_action (drawn_at sid a x) = a"
    "ev_x (drawn_at sid a x) = x" "ev_y (drawn_at sid a x) = F1" for sid a x
    by (simp_all add: drawn_at_def)
  have near: "\<not> f32_is_inf (f32_sub F1 F1)"
    by (simp add: F1_def f32_eval)
  have apart: "session_slot 4 \<noteq> session_slot 3"
    by (simp add: session_slot_mod)
  have "\<forall>e \<in> set [drawn_at 4 ACTION_DOWN F1, drawn_at 3 ACTION_MOVE F5, drawn_at 4 ACTION_MOVE F5, drawn_at 3 ACTION_UP F5].
      on_slot (session_slot (ev_session_id (drawn_at 3 ACTION_DOWN f32_nan))) e \<longrightarrow>
      ev_action e \<noteq> ACTION_DOWN \<and> \<not> f32_is_inf (f32_sub (ev_y e) (ev_y (drawn_at 3 ACTION_DOWN f32_nan)))"
    using near apart by (simp add: on_slot_def action_defs)
  from nan_pen_down_silences_stroke [OF f32_hypot_propagates_nan _ _ refl this, of initial_pool] show ?thesis
    by (simp del: process_strokes.simps) blast
qed

end
