(* ===== verification/Celer_Engine.thy ===== *)
theory Celer_Engine
  imports Celer_Fsm Shared_Ring
begin

text \<open>
  The hot loop of \<^verbatim>\<open>celer/src/main.rs\<close> and what surrounds it: one poll of the ring with the
  event counter, the reconstruction of the trace parent and the step of the session's state
  machine; the loop that forwards readings to a browser; the rate of the terminal display.
\<close>

section \<open>The hot loop\<close>

datatype otel_parent =
    RemoteParent bytes bytes \<comment> \<open>trace id and span id, sampled, from another process\<close>
  | CurrentContext

definition parent_ctx :: "stroke_event \<Rightarrow> otel_parent" where
  "parent_ctx event =
     (if ev_trace_id event \<noteq> replicate 16 0 \<and> ev_parent_span_id event \<noteq> replicate 8 0
      then RemoteParent (ev_trace_id event) (ev_parent_span_id event) else CurrentContext)"

record celer =
  ce_consumer :: celer_consumer
  ce_pool :: fsm_pool
  ce_processed :: u64 \<comment> \<open>\<^verbatim>\<open>EVENTS_PROCESSED\<close>\<close>

definition celer_new :: celer where
  "celer_new = \<lparr>ce_consumer = CelerConsumer_new, ce_pool = initial_pool, ce_processed = 0\<rparr>"

datatype celer_fault = CelerRing ring_fault | CelerPool pool_panic

record poll_result =
  po_parent :: otel_parent
  po_reading :: "precision_event option"

text \<open>One turn of the loop: \<^term>\<open>None\<close> when the ring is empty and the thread spins.\<close>

definition celer_poll ::
    "hypot_fun \<Rightarrow> celer \<Rightarrow> shared_ring \<Rightarrow> celer_fault + poll_result option \<times> celer \<times> shared_ring" where
  "celer_poll hypot ce r =
     (case pop (ce_consumer ce) r of
        Inl f \<Rightarrow> Inl (CelerRing f)
      | Inr (None, c', r') \<Rightarrow> Inr (None, ce\<lparr>ce_consumer := c'\<rparr>, r')
      | Inr (Some event, c', r') \<Rightarrow>
          (case process_stroke hypot event (ce_pool ce) of
             Inl f \<Rightarrow> Inl (CelerPool f)
           | Inr (out, pool') \<Rightarrow>
               Inr (Some \<lparr>po_parent = parent_ctx event, po_reading = out\<rparr>,
                    \<lparr>ce_consumer = c', ce_pool = pool', ce_processed = ce_processed ce + 1\<rparr>, r')))"

fun celer_polls ::
    "hypot_fun \<Rightarrow> nat \<Rightarrow> celer \<Rightarrow> shared_ring \<Rightarrow> celer_fault + poll_result list \<times> celer \<times> shared_ring" where
  "celer_polls hypot 0 ce r = Inr ([], ce, r)"
| "celer_polls hypot (Suc n) ce r =
     (case celer_poll hypot ce r of
        Inl f \<Rightarrow> Inl f
      | Inr (res, ce1, r1) \<Rightarrow>
          (case celer_polls hypot n ce1 r1 of
             Inl f \<Rightarrow> Inl f
           | Inr (ress, ce2, r2) \<Rightarrow> Inr ((case res of None \<Rightarrow> ress | Some p \<Rightarrow> p # ress), ce2, r2)))"

definition readings_of :: "poll_result list \<Rightarrow> precision_event list" where
  "readings_of ress = concat (map (\<lambda>p. case po_reading p of None \<Rightarrow> [] | Some e \<Rightarrow> [e]) ress)"

lemma readings_of_simps [simp]:
  "readings_of [] = []"
  "readings_of (p # ps) = (case po_reading p of None \<Rightarrow> readings_of ps | Some e \<Rightarrow> e # readings_of ps)"
  by (simp_all add: readings_of_def split: option.split)

lemma celer_poll_idle:
  assumes "spsc_inv p (ce_consumer ce) r" and "queue_of r = []"
  obtains c' where "celer_poll hypot ce r = Inr (None, ce\<lparr>ce_consumer := c'\<rparr>, r)" and "spsc_inv p c' r"
  using ring.pop_idle [OF assms] by (auto simp: celer_poll_def)

lemma celer_poll_event:
  assumes "spsc_inv p (ce_consumer ce) r" and "queue_of r = e # es"
    and "process_stroke hypot e (ce_pool ce) = Inr (out, pool')"
  obtains c' r' where "celer_poll hypot ce r = Inr (Some \<lparr>po_parent = parent_ctx e, po_reading = out\<rparr>,
      \<lparr>ce_consumer = c', ce_pool = pool', ce_processed = ce_processed ce + 1\<rparr>, r')"
    and "queue_of r' = es" and "spsc_inv p c' r'"
  using ring.pop_takes [OF assms(1,2)] assms(3) by (auto simp: celer_poll_def)

lemma celer_polls_queue:
  assumes "spsc_inv p (ce_consumer ce) r"
  shows "\<exists>ress ce' r' outs. celer_polls hypot n ce r = Inr (ress, ce', r') \<and>
     process_strokes hypot (take n (queue_of r)) (ce_pool ce) = Inr (outs, ce_pool ce') \<and>
     readings_of ress = outs \<and> map po_parent ress = map parent_ctx (take n (queue_of r)) \<and>
     ce_processed ce' = ce_processed ce + of_nat (min n (length (queue_of r))) \<and>
     queue_of r' = drop n (queue_of r) \<and> spsc_inv p (ce_consumer ce') r'"
  using assms
proof (induction n arbitrary: ce r)
  case 0
  then show ?case by simp
next
  case (Suc n)
  show ?case
  proof (cases "queue_of r")
    case Nil
    obtain c' where "celer_poll hypot ce r = Inr (None, ce\<lparr>ce_consumer := c'\<rparr>, r)" and "spsc_inv p c' r"
      using Suc.prems Nil by (rule celer_poll_idle)
    with Suc.IH [of "ce\<lparr>ce_consumer := c'\<rparr>" r] Nil show ?thesis
      by auto
  next
    case (Cons e es)
    obtain out pool1 where ps: "process_stroke hypot e (ce_pool ce) = Inr (out, pool1)"
      by (simp add: process_stroke_eq)
    obtain c1 r1 where poll: "celer_poll hypot ce r = Inr (Some \<lparr>po_parent = parent_ctx e, po_reading = out\<rparr>,
        \<lparr>ce_consumer = c1, ce_pool = pool1, ce_processed = ce_processed ce + 1\<rparr>, r1)"
      and q1: "queue_of r1 = es" and "spsc_inv p c1 r1"
      using Suc.prems Cons ps by (rule celer_poll_event)
    then have "spsc_inv p (ce_consumer \<lparr>ce_consumer = c1, ce_pool = pool1, ce_processed = ce_processed ce + 1\<rparr>) r1"
      by simp
    from Suc.IH [OF this] poll q1 ps Cons show ?thesis
      by (auto simp: algebra_simps simp del: length_queue_of split: option.splits)
  qed
qed

text \<open>
  C17: draining the ring is running the state machines over the queue. \<open>n\<close> polls, on a ring with
  any contents, take its first \<open>n\<close> events in order, give their readings and their trace
  parents, count them, and leave the rest of the queue and the invariant as they should be.
\<close>

theorem celer_drains_queue:
  assumes "spsc_inv p (ce_consumer ce) r"
  shows "\<exists>ress ce' r' outs. celer_polls hypot n ce r = Inr (ress, ce', r') \<and>
     process_strokes hypot (take n (queue_of r)) (ce_pool ce) = Inr (outs, ce_pool ce') \<and>
     readings_of ress = outs \<and> map po_parent ress = map parent_ctx (take n (queue_of r)) \<and>
     ce_processed ce' = ce_processed ce + of_nat (min n (length (queue_of r))) \<and>
     queue_of r' = drop n (queue_of r) \<and> spsc_inv p (ce_consumer ce') r'"
  using assms by (rule celer_polls_queue)

definition stroke_at :: "u8 \<Rightarrow> f32 \<Rightarrow> stroke_event" where
  "stroke_at action x = (sample_event 7)\<lparr>ev_action := action, ev_x := x\<rparr>"

text \<open>A pen-down and a move, and five polls of a consumer with a fixed distance function.\<close>

theorem celer_drains_queue_witness:
  "\<exists>r ce ress ce' r'. celer_polls (\<lambda>_ _. F1) 5 ce r = Inr (ress, ce', r') \<and> queue_of r' = [] \<and>
     readings_of ress = [\<lparr>pe_session_id = 1, pe_precision = 0x42B78000, pe_speed = F1\<rparr>] \<and> ce_processed ce' = 2"
proof -
  let ?es = "[stroke_at ACTION_DOWN F0, stroke_at ACTION_MOVE F1]"
  obtain p c r where q: "queue_of r = ?es" and inv: "spsc_inv p c r"
    using ring.script_refines [OF spsc_inv_new, of "map Push ?es"] by auto
  let ?ce = "celer_new\<lparr>ce_consumer := c\<rparr>"
  have gt: "f32_gt F1 F0" "\<not> f32_gt F1 F5"
    by (simp_all add: F0_def F1_def F5_def f32_eval)
  have "process_strokes (\<lambda>_ _. F1) ?es initial_pool = Inr (outs, pool) \<Longrightarrow>
      outs = [\<lparr>pe_session_id = 1, pe_precision = 0x42B78000, pe_speed = F1\<rparr>]" for outs pool
    by (auto simp: process_stroke_eq fsm_step_def stroke_move_def stroke_down_def stroke_at_def sample_event_def
        action_defs instant_precision_def smooth_ends gt Let_def)
  moreover have "spsc_inv p (ce_consumer ?ce) r"
    using inv by simp
  from celer_drains_queue [OF this, of "\<lambda>_ _. F1" 5] obtain ress ce' r' outs where
    "celer_polls (\<lambda>_ _. F1) 5 ?ce r = Inr (ress, ce', r')" "readings_of ress = outs" "queue_of r' = []"
    "process_strokes (\<lambda>_ _. F1) ?es initial_pool = Inr (outs, ce_pool ce')" "ce_processed ce' = 2"
    by (auto simp: q celer_new_def simp del: length_queue_of)
  ultimately show ?thesis by blast
qed

section \<open>The browser side\<close>

datatype recv_result = RecvOk precision_event | RecvLagged nat | RecvClosed

text \<open>
  The forwarding loop. Serialisation is the \<^verbatim>\<open>serde_json\<close> crate's, the parameter \<open>to_json\<close>; the
  second component of an item says whether the browser is still there. The result is the
  messages sent and whether the loop has ended.
\<close>

fun ws_forward ::
    "(precision_event \<Rightarrow> string option) \<Rightarrow> (recv_result \<times> bool) list \<Rightarrow> string list \<times> bool" where
  "ws_forward to_json [] = ([], False)"
| "ws_forward to_json ((RecvOk event, up) # items) =
     (case to_json event of
        None \<Rightarrow> ws_forward to_json items
      | Some msg \<Rightarrow>
          if up then (case ws_forward to_json items of (msgs, ended) \<Rightarrow> (msg # msgs, ended)) else ([], True))"
| "ws_forward to_json ((RecvLagged n, up) # items) = ws_forward to_json items"
| "ws_forward to_json ((RecvClosed, up) # items) = ([], True)"

fun received :: "recv_result \<times> bool \<Rightarrow> precision_event list" where
  "received (RecvOk e, up) = [e]"
| "received _ = []"

fun ends_forward :: "(precision_event \<Rightarrow> string option) \<Rightarrow> recv_result \<times> bool \<Rightarrow> bool" where
  "ends_forward to_json (RecvOk e, up) \<longleftrightarrow> to_json e \<noteq> None \<and> \<not> up"
| "ends_forward to_json (RecvLagged n, up) \<longleftrightarrow> False"
| "ends_forward to_json (RecvClosed, up) \<longleftrightarrow> True"

text \<open>
  The browser gets the readings its receiver delivered, in order, each serialisable one
  once, until the browser or the channel closes. Falling behind skips readings and does not end
  the loop: it ends exactly at the first failed send or at the closed channel.
\<close>

lemma ws_forward_spec:
  "ws_forward to_json items =
     (let run = takeWhile (\<lambda>i. \<not> ends_forward to_json i) items in
      (concat (map (\<lambda>e. case to_json e of None \<Rightarrow> [] | Some m \<Rightarrow> [m]) (concat (map received run))),
       list_ex (ends_forward to_json) items))"
  by (induction to_json items rule: ws_forward.induct) (auto simp: Let_def split: option.splits)

section \<open>The terminal display\<close>

text \<open>\<^verbatim>\<open>current_count.saturating_sub(last_count)\<close>: the events of one display period.\<close>

definition hud_delta :: "u64 \<Rightarrow> u64 \<Rightarrow> u64" where
  "hud_delta current_count last_count = (if last_count \<le> current_count then current_count - last_count else 0)"

fun hud_loop :: "u64 list \<Rightarrow> u64 \<Rightarrow> u64 list" where
  "hud_loop [] last_count = []"
| "hud_loop (current_count # samples) last_count = hud_delta current_count last_count # hud_loop samples current_count"

lemma hud_loop_total:
  assumes "sorted (last_count # samples)"
  shows "sum_list (hud_loop samples last_count) = last (last_count # samples) - last_count"
  using assms
proof (induction samples arbitrary: last_count)
  case (Cons c samples)
  then show ?case by (auto simp: hud_delta_def)
qed simp

end
