(* ===== verification/Pipeline.thy ===== *)
theory Pipeline
  imports Aegis_Session Celer_Engine Aegis_Proxy Chronos_Server
begin

text \<open>
  The components put together: from the frames of a WebSocket session through the shared ring
  to the readings of CELER, and the numbering of the sessions against the slots of CELER's pool.
\<close>

section \<open>From frames to readings\<close>

text \<open>
  End to end. What CELER measures is a function of the frames alone: a session that sends
  any frames (at most a ring full of strokes), drained by any number of polls, gives exactly the
  readings and the trace parents of the state machines run over the valid strokes in the order
  they were sent; no stroke is dropped, no process faults, and every reading is in range.
\<close>

lemma pipeline_end_to_end:
  assumes "length (session_strokes sid msgs) \<le> capacity"
  shows "\<exists>outs p r ress ce r' readings pool.
     session_loop sid msgs AegisProducer_new zeroed_ring = Inr (outs, p, r) \<and> saturations outs = 0 \<and>
     celer_polls hypot n celer_new r = Inr (ress, ce, r') \<and>
     process_strokes hypot (take n (session_strokes sid msgs)) initial_pool = Inr (readings, pool) \<and>
     readings_of ress = readings \<and> list_all reading_ok readings \<and>
     map po_parent ress = map parent_ctx (take n (session_strokes sid msgs))"
proof -
  obtain outs p r where sent: "session_loop sid msgs AegisProducer_new zeroed_ring = Inr (outs, p, r)"
    and inv: "spsc_inv p CelerConsumer_new r" and q: "queue_of r = session_strokes sid msgs" and "saturations outs = 0"
    using session_injects [OF spsc_inv_new, of sid msgs] assms by auto
  have "spsc_inv p (ce_consumer celer_new) r"
    using inv by (simp add: celer_new_def)
  from celer_polls_queue [OF this, of hypot n] obtain ress ce r' readings where
    "celer_polls hypot n celer_new r = Inr (ress, ce, r')"
    "process_strokes hypot (take n (session_strokes sid msgs)) initial_pool = Inr (readings, ce_pool ce)"
    "readings_of ress = readings" "map po_parent ress = map parent_ctx (take n (session_strokes sid msgs))"
    by (auto simp: q celer_new_def simp del: length_queue_of)
  moreover from this(2) have "list_all reading_ok readings"
    using process_strokes_reading [OF initial_pool_in_range, of hypot "take n (session_strokes sid msgs)"] by auto
  ultimately show ?thesis
    using sent \<open>saturations outs = 0\<close> by blast
qed

lemma parse_action: "known_action a \<Longrightarrow> message_strokes sid (WsBinary (sendPoint x y a), env) =
   [build_event sid env \<lparr>ps_x = x, ps_y = y, ps_pressure = 0x3F800000, ps_action = a\<rparr>]"
  by (simp add: parse_known_sendPoint)

lemma message_goes_on: "known_action a \<Longrightarrow> \<not> message_ends (WsBinary (sendPoint x y a))"
  by (simp add: parse_known_sendPoint)

definition page_stroke :: "(ws_item \<times> recv_env) list" where
  "page_stroke = [(WsBinary (sendPoint F0 F0 ACTION_DOWN), sample_env), (WsBinary (sendPoint F5 F0 ACTION_MOVE), sample_env)]"

text \<open>The page draws a dot and moves five units: one reading, with the trace of the second frame.\<close>

lemma pipeline_end_to_end_example:
  "\<exists>outs p r ress ce r'. session_loop 7 page_stroke AegisProducer_new zeroed_ring = Inr (outs, p, r) \<and>
     celer_polls (\<lambda>a b. a) 2 celer_new r = Inr (ress, ce, r') \<and>
     map pe_session_id (readings_of ress) = [7] \<and> map pe_speed (readings_of ress) = [F5] \<and>
     map po_parent ress = replicate 2 (RemoteParent (replicate 16 1) (replicate 8 2))"
proof -
  let ?e = "\<lambda>x a. build_event 7 sample_env \<lparr>ps_x = x, ps_y = F0, ps_pressure = 0x3F800000, ps_action = a\<rparr>"
  have acts: "known_action ACTION_DOWN" "known_action ACTION_MOVE"
    by (simp_all add: known_action_def)
  have strokes: "session_strokes 7 page_stroke = [?e F0 ACTION_DOWN, ?e F5 ACTION_MOVE]"
    unfolding page_stroke_def session_strokes.simps parse_action [OF acts(1)] parse_action [OF acts(2)]
    using message_goes_on acts by simp
  have f5: "f32_sub F5 F0 = F5" "f32_gt F5 F0"
    by (simp_all add: F5_def F0_def f32_eval)
  have readings: "map pe_session_id rs = [7] \<and> map pe_speed rs = [F5]"
    if "process_strokes (\<lambda>a b. a) [?e F0 ACTION_DOWN, ?e F5 ACTION_MOVE] initial_pool = Inr (rs, pool)" for rs pool
    using that by (auto simp: process_stroke_eq fsm_step_def stroke_move_def stroke_down_def build_event_def
        action_defs f5 Let_def)
  have parents: "map parent_ctx [?e F0 ACTION_DOWN, ?e F5 ACTION_MOVE] =
      replicate 2 (RemoteParent (replicate 16 1) (replicate 8 2))"
    by (simp add: parent_ctx_def build_event_def sample_env_def numeral_2_eq_2)
  from pipeline_end_to_end [of 7 page_stroke "\<lambda>a b. a" 2] readings parents show ?thesis
    by (fastforce simp: strokes)
qed

section \<open>Session numbers and slots\<close>

lemma session_slot_of_nat: "session_slot (of_nat k) = k mod 65536"
proof -
  have "(65536 :: nat) dvd 2 ^ 32" by simp
  then show ?thesis
    by (simp add: session_slot_mod unat_of_nat take_bit_eq_mod mod_mod_cancel)
qed

text \<open>
  Which sessions share a state machine. Of all the sessions a run of AEGIS ever accepts,
  the \<open>i\<close>-th and the \<open>j\<close>-th are given the same slot of CELER's pool exactly when 65536 divides the
  distance between them; so the strokes of 65536 sessions in a row never mix.
\<close>

lemma sessions_sharing_slots:
  assumes "dojo_run es dojo_new = Inr (rs, d)" and "i < j" and "j < length (session_ids d)"
  shows "session_slot (session_ids d ! i) = session_slot (session_ids d ! j) \<longleftrightarrow> 65536 dvd j - i"
proof -
  have "session_ids d = map (\<lambda>k. of_nat (Suc k)) [0..<length (dj_tasks d)]"
    using numbered_run [OF numbered_new assms(1)] by (simp add: numbered_def)
  then have "session_slot (session_ids d ! k) = Suc k mod 65536" if "k < length (session_ids d)" for k
    using that session_slot_of_nat [of "Suc k"] by (simp add: session_ids_def)
  then have "session_slot (session_ids d ! i) = session_slot (session_ids d ! j) \<longleftrightarrow> Suc i mod 65536 = Suc j mod 65536"
    using assms(2,3) by simp
  also have "\<dots> \<longleftrightarrow> 65536 dvd Suc j - Suc i"
    using mod_eq_dvd_iff_nat [of "Suc i" "Suc j" 65536] assms(2) by (auto simp: eq_commute)
  finally show ?thesis by simp
qed

lemma sessions_sharing_slots_example:
  "\<exists>rs d. dojo_run [Accept, Accept] dojo_new = Inr (rs, d) \<and>
     session_slot (session_ids d ! 0) \<noteq> session_slot (session_ids d ! 1)"
proof -
  obtain d where run: "dojo_run [Accept, Accept] dojo_new = Inr ([], d)" and len: "length (session_ids d) = 2"
    by (simp add: dojo_new_def accept_session_def session_ids_def)
  from sessions_sharing_slots [OF run, of 0 1] len show ?thesis
    using run by (intro exI [of _ "[]"] exI [of _ d]) simp
qed

end
