(* ===== verification/Many_Sessions.thy ===== *)
theory Many_Sessions
  imports Pipeline
begin

text \<open>
  Many sessions at once, end to end: whatever the sessions do and however CELER's pops fall between
  their frames, the strokes of each session arrive in its own order, and what CELER measures of a
  session is what it would measure of that session alone.
\<close>

section \<open>What a session has to say\<close>

text \<open>
  The messages of session \<open>k\<close> in a run, read off the events alone: \<open>heard k n es\<close>, when \<open>n\<close> sessions
  have been accepted before; \<open>heard_in ph k es\<close>, once it is in phase \<open>ph\<close>.
\<close>

fun heard_in :: "session_phase \<Rightarrow> nat \<Rightarrow> dojo_event list \<Rightarrow> (ws_item \<times> recv_env) list" where
  "heard_in ph k [] = []"
| "heard_in Handshaking k (HandshakeDone j ok # es) =
     (if j = k then (if ok then heard_in Open k es else []) else heard_in Handshaking k es)"
| "heard_in Open k (Frame j item env # es) =
     (if j = k then (item, env) # heard_in Open k es else heard_in Open k es)"
| "heard_in Open k (EndOfStream j # es) = (if j = k then [] else heard_in Open k es)"
| "heard_in Ended k es = []"
| "heard_in ph k (e # es) = heard_in ph k es"

fun heard :: "nat \<Rightarrow> nat \<Rightarrow> dojo_event list \<Rightarrow> (ws_item \<times> recv_env) list" where
  "heard k n [] = []"
| "heard k n (Accept # es) = (if n = k then heard_in Handshaking k es else heard k (Suc n) es)"
| "heard k n (AcceptError # es) = []"
| "heard k n (e # es) = heard k n es"

text \<open>The strokes pushed by a run of the specification, each with its session and its fate.\<close>

record sent_stroke =
  sn_session :: nat
  sn_stroke :: stroke_event
  sn_taken :: bool

definition step_sent :: "dojo_event \<Rightarrow> dojo_spec \<Rightarrow> sent_stroke list" where
  "step_sent e s =
     (case e of
        Frame k item env \<Rightarrow>
          if spec_phase k Open s
          then map (\<lambda>st. \<lparr>sn_session = k, sn_stroke = st, sn_taken = length (sp_queue s) < capacity\<rparr>)
                 (message_strokes (fst (sp_sessions s ! k)) (item, env))
          else []
      | _ \<Rightarrow> [])"

fun run_sent :: "dojo_event list \<Rightarrow> dojo_spec \<Rightarrow> sent_stroke list" where
  "run_sent [] s = []"
| "run_sent (e # es) s = step_sent e s @ run_sent es (snd (spec_step e s))"

definition strokes_of :: "nat \<Rightarrow> sent_stroke list \<Rightarrow> stroke_event list" where
  "strokes_of k sent = map sn_stroke (filter (\<lambda>t. sn_session t = k) sent)"

lemma strokes_of_append [simp]: "strokes_of k (xs @ ys) = strokes_of k xs @ strokes_of k ys"
  and strokes_of_Nil [simp]: "strokes_of k [] = []"
  by (simp_all add: strokes_of_def)

lemma strokes_of_step:
  "strokes_of k (step_sent (Frame j item env) s) =
     (if j = k \<and> spec_phase k Open s then message_strokes (fst (sp_sessions s ! k)) (item, env) else [])"
  "(\<And>j item env. e \<noteq> Frame j item env) \<Longrightarrow> step_sent e s = []"
proof -
  show "strokes_of k (step_sent (Frame j item env) s) =
     (if j = k \<and> spec_phase k Open s then message_strokes (fst (sp_sessions s ! k)) (item, env) else [])"
    by (cases "j = k") (simp_all add: step_sent_def strokes_of_def comp_def filter_map)
  show "(\<And>j item env. e \<noteq> Frame j item env) \<Longrightarrow> step_sent e s = []"
    by (simp add: step_sent_def split: dojo_event.split)
qed

section \<open>Order\<close>

lemma delivered_append [simp]: "delivered (rs @ rs') = delivered rs @ delivered rs'"
  by (induction rs rule: delivered.induct) auto

lemma step_order:
  "sp_queue s @ map sn_stroke (filter sn_taken (step_sent e s)) =
     delivered (fst (spec_step e s)) @ sp_queue (snd (spec_step e s))"
proof (cases e)
  case (Frame k item env)
  then show ?thesis
    by (cases rule: message_strokes_cases [of "fst (sp_sessions s ! k)" "(item, env)"])
       (simp_all add: step_sent_def spec_set_phase_def)
next
  case ConsumerPop
  then show ?thesis by (cases "sp_queue s") (simp_all add: step_sent_def)
qed (simp_all add: step_sent_def spec_set_phase_def)

lemma run_order:
  "sp_queue s @ map sn_stroke (filter sn_taken (run_sent es s)) =
     delivered (fst (spec_run es s)) @ sp_queue (snd (spec_run es s))"
proof (induction es arbitrary: s)
  case (Cons e es)
  show ?case
    using step_order [of s e] Cons.IH [of "snd (spec_step e s)"]
    by (simp add: case_prod_beta) (metis append.assoc)
qed simp

lemma refused_stroke:
  "t \<in> set (run_sent es s) \<Longrightarrow> \<not> sn_taken t \<Longrightarrow> Pushed False \<in> set (fst (spec_run es s))"
proof (induction es arbitrary: s)
  case (Cons e es)
  have "Pushed False \<in> set (fst (spec_step e s))" if "t \<in> set (step_sent e s)"
  proof (cases e)
    case (Frame k item env)
    with that Cons.prems(2) show ?thesis
      by (cases rule: message_strokes_cases [of "fst (sp_sessions s ! k)" "(item, env)"])
         (auto simp: step_sent_def split: if_splits)
  qed (use that in \<open>simp_all add: step_sent_def\<close>)
  with Cons show ?case
    by (auto simp: case_prod_beta)
qed simp

section \<open>Each session's strokes\<close>

lemma fst_update_phase:
  "k < length xs \<Longrightarrow> fst (xs[j := (fst (xs ! j), ph)] ! k) = fst (xs ! k)"
  by (cases "j = k") simp_all

lemma step_keeps_session:
  "k < length (sp_sessions s) \<Longrightarrow> k < length (sp_sessions (snd (spec_step e s))) \<and>
     fst (sp_sessions (snd (spec_step e s)) ! k) = fst (sp_sessions s ! k)"
  by (cases e) (auto simp: spec_set_phase_def nth_append fst_update_phase case_prod_beta)

fun concerns :: "nat \<Rightarrow> dojo_event \<Rightarrow> bool" where
  "concerns k (HandshakeDone j ok) \<longleftrightarrow> j = k"
| "concerns k (Frame j item env) \<longleftrightarrow> j = k"
| "concerns k (EndOfStream j) \<longleftrightarrow> j = k"
| "concerns k _ \<longleftrightarrow> False"

lemma step_keeps_phase:
  "spec_phase k ph s \<Longrightarrow> \<not> concerns k e \<Longrightarrow> spec_phase k ph (snd (spec_step e s))"
  by (cases e) (auto simp: spec_phase_def spec_set_phase_def nth_append case_prod_beta)

lemma heard_in_other: "ph \<noteq> Ended \<Longrightarrow> \<not> concerns k e \<Longrightarrow> heard_in ph k (e # es) = heard_in ph k es"
  by (cases ph; cases e) auto

lemma heard_in_Ended [simp]: "heard_in Ended k es = []"
  by (cases es) simp_all

lemma strokes_other: "\<not> concerns k e \<Longrightarrow> strokes_of k (step_sent e s) = []"
  by (cases e) (auto simp: strokes_of_step)

lemma set_phase_phase: "spec_phase k ph' s \<Longrightarrow> spec_phase k ph (spec_set_phase k ph (s\<lparr>sp_queue := q\<rparr>))"
    "spec_phase k ph' s \<Longrightarrow> spec_phase k ph (spec_set_phase k ph s)"
  by (simp_all add: spec_phase_def spec_set_phase_def)

lemma phase_unique: "spec_phase k ph s \<Longrightarrow> spec_phase k ph' s \<longleftrightarrow> ph' = ph"
  by (auto simp: spec_phase_def)

lemma session_run:
  "spec_phase k ph s \<Longrightarrow> strokes_of k (run_sent es s) = session_strokes (fst (sp_sessions s ! k)) (heard_in ph k es)"
proof (induction es arbitrary: s ph)
  case (Cons e es)
  let ?s = "snd (spec_step e s)"
  have k: "k < length (sp_sessions s)"
    using Cons.prems by (simp add: spec_phase_def)
  note sid = step_keeps_session [OF k, of e, THEN conjunct2]
  note phase = phase_unique [OF Cons.prems]
  show ?case
  proof (cases "concerns k e")
    case False
    note IH = Cons.IH [OF step_keeps_phase [OF Cons.prems False]]
    show ?thesis
      using IH sid strokes_other [OF False] heard_in_other [OF _ False, of ph es] by (cases "ph = Ended") simp_all
  next
    case True
    then consider (shake) ok where "e = HandshakeDone k ok" | (frame) item env where "e = Frame k item env"
      | (eos) "e = EndOfStream k"
      by (cases e) auto
    then show ?thesis
    proof cases
      case (shake ok)
      then have "spec_phase k (if ph = Handshaking then if ok then Open else Ended else ph) ?s"
        using Cons.prems phase by (auto simp: set_phase_phase)
      from Cons.IH [OF this] sid shake show ?thesis
        by (cases ph) (auto simp: strokes_of_step(2))
    next
      case (frame item env)
      then have "spec_phase k (if ph = Open then if message_ends item then Ended else Open else ph) ?s"
        using Cons.prems phase by (auto simp: set_phase_phase case_prod_beta)
      from Cons.IH [OF this] sid frame phase show ?thesis
        by (cases ph) (auto simp: strokes_of_step(1))
    next
      case eos
      then have "spec_phase k (if ph = Open then Ended else ph) ?s"
        using Cons.prems phase by (auto simp: set_phase_phase)
      from Cons.IH [OF this] sid eos show ?thesis
        by (cases ph) (auto simp: strokes_of_step(2))
    qed
  qed
qed simp

lemma no_new_sessions:
  "\<not> sp_listening s \<Longrightarrow> length (sp_sessions s) \<le> k \<Longrightarrow> strokes_of k (run_sent es s) = []"
proof (induction es arbitrary: s)
  case (Cons e es)
  have "\<not> sp_listening (snd (spec_step e s))" and "length (sp_sessions (snd (spec_step e s))) \<le> k"
    using Cons.prems by (cases e; auto simp: spec_set_phase_def case_prod_beta)+
  moreover have "strokes_of k (step_sent e s) = []"
    using Cons.prems(2) by (cases e) (auto simp: strokes_of_step spec_phase_def)
  ultimately show ?case
    using Cons.IH by simp
qed simp

lemma all_sessions:
  "sp_listening s \<Longrightarrow> length (sp_sessions s) \<le> k \<Longrightarrow> sp_counter s = of_nat (Suc (length (sp_sessions s))) \<Longrightarrow>
   strokes_of k (run_sent es s) = session_strokes (of_nat (Suc k)) (heard k (length (sp_sessions s)) es)"
proof (induction es arbitrary: s)
  case (Cons e es)
  have none: "strokes_of k (step_sent e s) = []"
    using Cons.prems(2) by (cases e) (auto simp: strokes_of_step spec_phase_def)
  show ?case
  proof (cases e)
    case Accept
    show ?thesis
    proof (cases "length (sp_sessions s) = k")
      case True
      with Accept Cons.prems none session_run [of k Handshaking "snd (spec_step e s)" es] show ?thesis
        by (simp add: spec_phase_def nth_append)
    next
      case False
      with Accept Cons.prems none Cons.IH [of "snd (spec_step e s)"] show ?thesis by simp
    qed
  next
    case AcceptError
    with none Cons.prems no_new_sessions [of "snd (spec_step e s)" k es] show ?thesis by simp
  qed (use Cons.prems none Cons.IH [of "snd (spec_step e s)"] in
        \<open>auto simp: spec_set_phase_def spec_phase_def case_prod_beta\<close>)
qed simp

section \<open>The ids on the strokes\<close>

definition spec_numbered :: "dojo_spec \<Rightarrow> bool" where
  "spec_numbered s \<longleftrightarrow> (\<forall>j < length (sp_sessions s). fst (sp_sessions s ! j) = of_nat (Suc j)) \<and>
     sp_counter s = of_nat (Suc (length (sp_sessions s)))"

lemma spec_numbered_new: "spec_numbered spec_new"
  by (simp add: spec_numbered_def spec_new_def)

lemma spec_numbered_step: "spec_numbered s \<Longrightarrow> spec_numbered (snd (spec_step e s))"
  by (cases e) (auto simp: spec_numbered_def spec_set_phase_def nth_append less_Suc_eq fst_update_phase case_prod_beta)

lemma message_strokes_id: "st \<in> set (message_strokes sid msg) \<Longrightarrow> ev_session_id st = sid"
  by (cases "(sid, msg)" rule: message_strokes.cases) (auto simp: build_event_def split: parse_outcome.splits)

lemma run_length: "length (sp_sessions s) \<le> length (sp_sessions (snd (spec_run es s)))"
proof (induction es arbitrary: s)
  case (Cons e es)
  have "length (sp_sessions s) \<le> length (sp_sessions (snd (spec_step e s)))"
    by (cases e) (auto simp: spec_set_phase_def case_prod_beta)
  with Cons.IH [of "snd (spec_step e s)"] show ?case
    by (simp add: case_prod_beta)
qed simp

lemma run_sent_id:
  "spec_numbered s \<Longrightarrow> t \<in> set (run_sent es s) \<Longrightarrow>
   sn_session t < length (sp_sessions (snd (spec_run es s))) \<and> ev_session_id (sn_stroke t) = of_nat (Suc (sn_session t))"
proof (induction es arbitrary: s)
  case (Cons e es)
  let ?s = "snd (spec_step e s)"
  show ?case
  proof (cases "t \<in> set (step_sent e s)")
    case True
    then obtain j item env where e: "e = Frame j item env" and "spec_phase j Open s" and t: "sn_session t = j"
      and "sn_stroke t \<in> set (message_strokes (fst (sp_sessions s ! j)) (item, env))"
      by (auto simp: step_sent_def split: dojo_event.splits if_splits)
    moreover from this have j: "j < length (sp_sessions s)"
      by (simp add: spec_phase_def)
    ultimately have "ev_session_id (sn_stroke t) = of_nat (Suc j)"
      using Cons.prems(1) message_strokes_id by (metis spec_numbered_def)
    with j t run_length [of s "e # es"] show ?thesis by simp
  next
    case False
    with Cons.prems Cons.IH [of ?s] spec_numbered_step show ?thesis
      by (simp add: case_prod_beta)
  qed
qed simp

lemma readings_from:
  "process_strokes hypot es pool = Inr (outs, pool') \<Longrightarrow> p \<in> set outs \<Longrightarrow>
   \<exists>e \<in> set es. pe_session_id p = ev_session_id e"
proof (induction es arbitrary: pool outs)
  case (Cons e es)
  obtain pool1 outs1 where "process_strokes hypot es pool1 = Inr (outs1, pool')"
    and "p \<in> set outs1 \<or> fst (fsm_step hypot e (pool (session_slot (ev_session_id e)))) = Some p"
    using Cons.prems
    by (auto simp: process_stroke_eq simp del: fun_upd_apply split: sum.splits option.splits)
  then show ?case
    using Cons.IH fsm_step_session by fastforce
qed simp

section \<open>Each session is measured alone\<close>

lemma of_nat_session: "j < 65536 \<Longrightarrow> k < 65536 \<Longrightarrow> (of_nat (Suc j) :: u32) = of_nat (Suc k) \<longleftrightarrow> j = k"
  by (auto simp del: of_nat_Suc simp: word_of_nat_eq_iff take_bit_nat_eq_self)

lemma Suc_mod_session: "j < 65536 \<Longrightarrow> k < 65536 \<Longrightarrow> Suc j mod 65536 = Suc k mod 65536 \<longleftrightarrow> j = k"
  by (auto simp: mod_Suc)

lemma slot_of_session:
  "j < 65536 \<Longrightarrow> k < 65536 \<Longrightarrow> session_slot (of_nat (Suc j)) = Suc k mod 65536 \<longleftrightarrow> (of_nat (Suc j) :: u32) = of_nat (Suc k)"
  by (simp only: session_slot_of_nat of_nat_session Suc_mod_session)

lemma readings_of_session:
  assumes ids: "\<And>e. e \<in> set es \<Longrightarrow> \<exists>j < 65536. ev_session_id e = of_nat (Suc j)" and k: "k < 65536"
  shows "\<exists>readings pool pool2.
      process_strokes hypot es initial_pool = Inr (readings, pool) \<and>
      process_strokes hypot (filter (\<lambda>e. ev_session_id e = of_nat (Suc k)) es) initial_pool =
        Inr (filter (\<lambda>p. pe_session_id p = of_nat (Suc k)) readings, pool2)"
proof -
  let ?slot = "Suc k mod 65536"
  have events: "filter (on_slot ?slot) es = filter (\<lambda>e. ev_session_id e = of_nat (Suc k)) es"
  proof (rule filter_cong)
    fix e
    assume "e \<in> set es"
    then obtain j where "j < 65536" and "ev_session_id e = of_nat (Suc j)"
      using ids by blast
    then show "on_slot ?slot e \<longleftrightarrow> ev_session_id e = of_nat (Suc k)"
      using slot_of_session [OF _ k] by (simp only: on_slot_def)
  qed simp
  obtain readings pool pool2 where all: "process_strokes hypot es initial_pool = Inr (readings, pool)"
    and one: "process_strokes hypot (filter (on_slot ?slot) es) initial_pool =
      Inr (filter (\<lambda>p. session_slot (pe_session_id p) = ?slot) readings, pool2)"
    using slot_isolation [of initial_pool ?slot initial_pool hypot es] by blast
  have "filter (\<lambda>p. session_slot (pe_session_id p) = ?slot) readings =
      filter (\<lambda>p. pe_session_id p = of_nat (Suc k)) readings"
  proof (rule filter_cong)
    fix p
    assume "p \<in> set readings"
    then obtain j where "j < 65536" and "pe_session_id p = of_nat (Suc j)"
      using readings_from [OF all] ids by metis
    then show "session_slot (pe_session_id p) = ?slot \<longleftrightarrow> pe_session_id p = of_nat (Suc k)"
      using slot_of_session [OF _ k] by (simp only:)
  qed simp
  with all one events show ?thesis by metis
qed

lemma delivered_of_session:
  assumes "Pushed False \<notin> set (fst (spec_run es spec_new))"
    and "length (sp_sessions (snd (spec_run es spec_new))) \<le> 65536" and k: "k < 65536"
  shows "filter (\<lambda>e. ev_session_id e = of_nat (Suc k))
      (delivered (fst (spec_run es spec_new)) @ sp_queue (snd (spec_run es spec_new))) =
    session_strokes (of_nat (Suc k)) (heard k 0 es)"
    and "e \<in> set (delivered (fst (spec_run es spec_new))) \<Longrightarrow> \<exists>j < 65536. ev_session_id e = of_nat (Suc j)"
proof -
  let ?sent = "run_sent es spec_new"
  have id: "sn_session t < 65536 \<and> ev_session_id (sn_stroke t) = of_nat (Suc (sn_session t))" if "t \<in> set ?sent" for t
    using run_sent_id [OF spec_numbered_new that] assms(2) by simp
  have "filter sn_taken ?sent = ?sent"
    using refused_stroke assms(1) by (metis filter_True)
  then have order: "delivered (fst (spec_run es spec_new)) @ sp_queue (snd (spec_run es spec_new)) = map sn_stroke ?sent"
    using run_order [of spec_new es] by (simp add: spec_new_def)
  have "filter (\<lambda>t. ev_session_id (sn_stroke t) = of_nat (Suc k)) ?sent = filter (\<lambda>t. sn_session t = k) ?sent"
  proof (rule filter_cong)
    fix t
    assume "t \<in> set ?sent"
    with id of_nat_session [OF _ k] show "ev_session_id (sn_stroke t) = of_nat (Suc k) \<longleftrightarrow> sn_session t = k"
      by metis
  qed simp
  then have "filter (\<lambda>e. ev_session_id e = of_nat (Suc k)) (map sn_stroke ?sent) = strokes_of k ?sent"
    by (simp add: strokes_of_def filter_map comp_def)
  also have "\<dots> = session_strokes (of_nat (Suc k)) (heard k 0 es)"
    using all_sessions [of spec_new k es] by (simp add: spec_new_def)
  finally show "filter (\<lambda>e. ev_session_id e = of_nat (Suc k))
      (delivered (fst (spec_run es spec_new)) @ sp_queue (snd (spec_run es spec_new))) =
    session_strokes (of_nat (Suc k)) (heard k 0 es)"
    by (simp only: order)
  assume "e \<in> set (delivered (fst (spec_run es spec_new)))"
  then have "e \<in> set (map sn_stroke ?sent)"
    unfolding order [symmetric] by simp
  with id show "\<exists>j < 65536. ev_session_id e = of_nat (Suc j)" by auto
qed

definition strokes_from :: "u32 \<Rightarrow> stroke_event list \<Rightarrow> stroke_event list" where
  "strokes_from sid es = filter (\<lambda>e. ev_session_id e = sid) es"

definition readings_for :: "u32 \<Rightarrow> precision_event list \<Rightarrow> precision_event list" where
  "readings_for sid ps = filter (\<lambda>p. pe_session_id p = sid) ps"

lemma session_measured_alone:
  assumes "length es \<le> 2 ^ 64" and "dojo_run es dojo_new = Inr (rs, d)"
    and "Pushed False \<notin> set rs" and "length (dj_tasks d) \<le> 65536" and "k < length (dj_tasks d)"
  shows "\<exists>readings pool pool2.
      strokes_from (of_nat (Suc k)) (delivered rs @ queue_of (dj_ring d)) =
        session_strokes (of_nat (Suc k)) (heard k 0 es) \<and>
      process_strokes hypot (delivered rs) initial_pool = Inr (readings, pool) \<and>
      process_strokes hypot (strokes_from (of_nat (Suc k)) (delivered rs)) initial_pool =
        Inr (readings_for (of_nat (Suc k)) readings, pool2)"
proof -
  have rs: "rs = fst (spec_run es spec_new)" and d: "dojo_abs d = snd (spec_run es spec_new)"
    using dojo_run_refines [OF dojo_inv_new, of es] assms(1,2) by (auto simp: dojo_abs_new)
  have q: "queue_of (dj_ring d) = sp_queue (snd (spec_run es spec_new))"
    using sp_queue_abs [of d] by (simp add: d)
  have sessions: "length (sp_sessions (snd (spec_run es spec_new))) \<le> 65536"
    using assms(4) by (simp add: d [symmetric] dojo_abs_def)
  have k: "k < 65536" using assms(4,5) by simp
  note run = delivered_of_session [OF assms(3) [unfolded rs] sessions k]
  show ?thesis
    using readings_of_session [OF run(2) k, of "delivered rs" hypot] run(1)
    unfolding strokes_from_def readings_for_def q rs by blast
qed

text \<open>
  C4: many sessions on one ring, end to end. In any run of the dojo with at most 65536 sessions
  and no refused stroke, however the sessions' frames, endings and CELER's pops interleave, the
  strokes CELER receives from the \<open>k\<close>-th session are the first of those its own frames announce, in
  their order (all of them once the ring is drained), and the readings it broadcasts for that session are
  those it would broadcast if no other session existed.
\<close>

theorem each_session_measured_alone:
  assumes "length es \<le> 2 ^ 64" and "dojo_run es dojo_new = Inr (rs, d)"
    and "Pushed False \<notin> set rs" and "length (dj_tasks d) \<le> 65536" and "k < length (dj_tasks d)"
  shows "\<exists>readings pool pool2.
      strokes_from (of_nat (Suc k)) (delivered rs @ queue_of (dj_ring d)) =
        session_strokes (of_nat (Suc k)) (heard k 0 es) \<and>
      process_strokes hypot (delivered rs) initial_pool = Inr (readings, pool) \<and>
      process_strokes hypot (strokes_from (of_nat (Suc k)) (delivered rs)) initial_pool =
        Inr (readings_for (of_nat (Suc k)) readings, pool2)"
  using assms by (rule session_measured_alone)

text \<open>Two pages draw at once, their frames interleaved with each other and with CELER's pops.\<close>

definition two_pages :: "dojo_event list" where
  "two_pages = [Accept, Accept, HandshakeDone 0 True, HandshakeDone 1 True,
     Frame 0 (WsBinary (sendPoint F0 F0 ACTION_DOWN)) sample_env, ConsumerPop,
     Frame 1 (WsBinary (sendPoint F0 F0 ACTION_DOWN)) sample_env,
     Frame 1 (WsBinary (sendPoint F1 F0 ACTION_MOVE)) sample_env,
     Frame 0 (WsBinary (sendPoint F5 F0 ACTION_MOVE)) sample_env, ConsumerPop, ConsumerPop, ConsumerPop]"

theorem each_session_measured_alone_witness:
  "\<exists>rs d readings pool. dojo_run two_pages dojo_new = Inr (rs, d) \<and>
     map ev_session_id (delivered rs) = [1, 2, 2, 1] \<and>
     process_strokes (\<lambda>a b. a) (delivered rs) initial_pool = Inr (readings, pool) \<and>
     map pe_speed (readings_for 1 readings) = [F5]"
proof -
  have parsed: "parse_stroke_payload (sendPoint x y ACTION_DOWN) =
      Valid \<lparr>ps_x = x, ps_y = y, ps_pressure = 0x3F800000, ps_action = ACTION_DOWN\<rparr>"
    "parse_stroke_payload (sendPoint x y ACTION_MOVE) =
      Valid \<lparr>ps_x = x, ps_y = y, ps_pressure = 0x3F800000, ps_action = ACTION_MOVE\<rparr>" for x y
    by (rule parse_known_sendPoint, simp add: known_action_def)+
  let ?e = "\<lambda>sid x a. build_event sid sample_env \<lparr>ps_x = x, ps_y = F0, ps_pressure = 0x3F800000, ps_action = a\<rparr>"
  let ?rs = "fst (spec_run two_pages spec_new)" and ?s = "snd (spec_run two_pages spec_new)"
  have "length two_pages \<le> 2 ^ 64"
    by (simp add: two_pages_def)
  then obtain d where run: "dojo_run two_pages dojo_new = Inr (?rs, d)" and abs: "dojo_abs d = ?s"
    using dojo_run_refines [OF dojo_inv_new, of two_pages] by (auto simp: dojo_abs_new)
  have spec: "?rs = [Pushed True, Popped (Some (?e 1 F0 ACTION_DOWN)), Pushed True, Pushed True, Pushed True,
      Popped (Some (?e 2 F0 ACTION_DOWN)), Popped (Some (?e 2 F1 ACTION_MOVE)), Popped (Some (?e 1 F5 ACTION_MOVE))]"
    "length (sp_sessions ?s) = 2"
    by (simp_all add: two_pages_def spec_new_def spec_phase_def spec_set_phase_def parsed)
  have two: "length (dj_tasks d) = 2"
    using spec(2) by (simp add: abs [symmetric] dojo_abs_def)
  have one: "(of_nat (Suc 0) :: u32) = 1" by simp
  have mine: "strokes_from 1 (delivered ?rs) = [?e 1 F0 ACTION_DOWN, ?e 1 F5 ACTION_MOVE]"
    by (simp add: spec(1) strokes_from_def build_event_def)
  obtain readings pool pool2 where readings: "process_strokes (\<lambda>a b. a) (delivered ?rs) initial_pool = Inr (readings, pool)"
    and alone: "process_strokes (\<lambda>a b. a) [?e 1 F0 ACTION_DOWN, ?e 1 F5 ACTION_MOVE] initial_pool = Inr (readings_for 1 readings, pool2)"
    using each_session_measured_alone [OF _ run, of 0 "\<lambda>a b. a"] \<open>length two_pages \<le> 2 ^ 64\<close> two
    unfolding one mine [symmetric] by (auto simp: spec(1))
  have f5: "f32_sub F5 F0 = F5" "f32_gt F5 F0"
    by (simp_all add: F5_def F0_def f32_eval)
  have "map pe_speed ps = [F5]"
    if "process_strokes (\<lambda>a b. a) [?e 1 F0 ACTION_DOWN, ?e 1 F5 ACTION_MOVE] initial_pool = Inr (ps, pool2)" for ps
    using that by (auto simp: process_stroke_eq fsm_step_def stroke_move_def stroke_down_def build_event_def
        action_defs f5 Let_def)
  from this [OF alone] have "map pe_speed (readings_for 1 readings) = [F5]" .
  moreover have "map ev_session_id (delivered ?rs) = [1, 2, 2, 1]"
    by (simp add: spec(1) build_event_def)
  ultimately show ?thesis
    using run readings by (intro exI [of _ ?rs] exI [of _ d] exI [of _ readings] exI [of _ pool]) simp
qed

end
