(* ===== verification/Unit_Tests.thy ===== *)
theory Unit_Tests
  imports Stroke_Payload Shared_Ring
begin

text \<open>
  The unit tests that the repository keeps beside its code, as executable definitions over the
  model, and the proof that each of them passes: what the authors expect of the code, the model does.
  Floats are compared by their bits, which for the values here (neither zero nor NaN) is their equality.
\<close>

section \<open>shared-ipc/src/lib.rs\<close>

definition abi_contract_truth_serum :: bool where
  "abi_contract_truth_serum \<longleftrightarrow>
     (let offsets = repr_c_offsets 0 stroke_event_fields in
      stroke_event_size = 64 \<and> stroke_event_align = 64 \<and>
      offsets ! 0 = 0 \<and> offsets ! 1 = 8 \<and> offsets ! 2 = 16 \<and> offsets ! 3 = 20 \<and>
      offsets ! 4 = 24 \<and> offsets ! 5 = 28 \<and> offsets ! 6 = 29 \<and> offsets ! 7 = 45)"

definition shared_ring_head_tail_separated :: bool where
  "shared_ring_head_tail_separated \<longleftrightarrow>
     (let head_off = repr_c_offsets 0 shared_ring_fields ! 0;
          tail_off = repr_c_offsets 0 shared_ring_fields ! 1 in
      head_off \<le> tail_off \<and> tail_off - head_off \<ge> 64)"

text \<open>The floats 100.5, 200.25 and 0.7.\<close>

definition test_event :: stroke_event where
  "test_event = \<lparr>ev_session_id = 42, ev_timestamp = 1700000000000000000, ev_x = 0x42C90000,
     ev_y = 0x43484000, ev_pressure = 0x3F333333, ev_action = 1, ev_trace_id = replicate 16 0xAB,
     ev_parent_span_id = replicate 8 0xCD\<rparr>"

definition spsc_roundtrip_single_process :: bool where
  "spsc_roundtrip_single_process \<longleftrightarrow>
     (case push test_event AegisProducer_new zeroed_ring of
        Inl f \<Rightarrow> False
      | Inr (Inl e, producer, r) \<Rightarrow> False
      | Inr (Inr _, producer, r) \<Rightarrow>
          (case pop CelerConsumer_new r of
             Inr (Some read, consumer, r') \<Rightarrow>
               ev_session_id read = 42 \<and> ev_x read = 0x42C90000 \<and> ev_y read = 0x43484000 \<and>
               ev_pressure read = 0x3F333333 \<and> ev_action read = 1 \<and>
               ev_trace_id read = replicate 16 0xAB \<and> ev_parent_span_id read = replicate 8 0xCD \<and>
               (case pop consumer r' of Inr (None, _, _) \<Rightarrow> True | _ \<Rightarrow> False)
           | _ \<Rightarrow> False))"

definition action_constants_form_dense_lifecycle :: bool where
  "action_constants_form_dense_lifecycle \<longleftrightarrow> ACTION_DOWN = 0 \<and> ACTION_MOVE = 1 \<and> ACTION_UP = 2"

lemma ring_tests_pass:
  "abi_contract_truth_serum" "shared_ring_head_tail_separated" "action_constants_form_dense_lifecycle"
  by (simp_all add: abi_contract_truth_serum_def shared_ring_head_tail_separated_def stroke_event_offsets
      action_constants_form_dense_lifecycle_def action_defs layout_defs Let_def)

lemma roundtrip_test_passes: "spsc_roundtrip_single_process"
proof -
  have empty: "queue_of zeroed_ring = []" "length (queue_of zeroed_ring) < capacity"
    by (simp_all add: queue_of_zeroed)
  obtain p r where pushed: "push test_event AegisProducer_new zeroed_ring = Inr (Inr (), p, r)"
    and q: "queue_of r = [test_event]" "spsc_inv p CelerConsumer_new r"
    using ring_push_accepts [OF spsc_inv_new empty(2), of test_event] empty(1) by auto
  obtain c r' where popped: "pop CelerConsumer_new r = Inr (Some test_event, c, r')"
    and q': "queue_of r' = []" "spsc_inv p c r'"
    using ring_pop_takes [OF q(2,1)] by blast
  obtain c' where "pop c r' = Inr (None, c', r')"
    using ring.pop_idle [OF q'(2,1)] by blast
  with pushed popped show ?thesis
    by (simp add: spsc_roundtrip_single_process_def test_event_def)
qed

section \<open>aegis/src/main.rs\<close>

text \<open>The floats 1.5 and 2.5.\<close>

definition build_valid_payload :: "u8 \<Rightarrow> bytes" where
  "build_valid_payload action =
     (let buf = replicate STROKE_PAYLOAD_LEN 0;
          buf1 = put_bytes 0 (le_bytes 4 (0x3FC00000 :: f32)) buf;
          buf2 = put_bytes 4 (le_bytes 4 (0x40200000 :: f32)) buf1 in
      buf2[12 := action])"

definition rejects_empty_payload :: bool where
  "rejects_empty_payload \<longleftrightarrow> parse_stroke_payload [] = WrongLength"

definition rejects_payload_too_short :: bool where
  "rejects_payload_too_short \<longleftrightarrow> parse_stroke_payload (replicate 12 0) = WrongLength"

definition rejects_payload_just_over :: bool where
  "rejects_payload_just_over \<longleftrightarrow> parse_stroke_payload (replicate 14 0) = WrongLength"

definition rejects_legacy_17_byte_payload :: bool where
  "rejects_legacy_17_byte_payload \<longleftrightarrow> parse_stroke_payload ((replicate 17 0)[16 := ACTION_DOWN]) = WrongLength"

definition rejects_invalid_action_flag :: bool where
  "rejects_invalid_action_flag \<longleftrightarrow> parse_stroke_payload (build_valid_payload 99) = InvalidFlag 99"

definition accepts_valid_down_payload :: bool where
  "accepts_valid_down_payload \<longleftrightarrow> parse_stroke_payload (build_valid_payload ACTION_DOWN) =
     Valid \<lparr>ps_x = 0x3FC00000, ps_y = 0x40200000, ps_pressure = 0x3F800000, ps_action = ACTION_DOWN\<rparr>"

definition accepts_move_action :: bool where
  "accepts_move_action \<longleftrightarrow>
     (case parse_stroke_payload (build_valid_payload ACTION_MOVE) of Valid p \<Rightarrow> ps_action p = ACTION_MOVE | _ \<Rightarrow> False)"

definition accepts_up_action :: bool where
  "accepts_up_action \<longleftrightarrow>
     (case parse_stroke_payload (build_valid_payload ACTION_UP) of Valid p \<Rightarrow> ps_action p = ACTION_UP | _ \<Rightarrow> False)"

lemma payload_chunks:
  assumes "length a = 4" and "length b = 4"
  shows "(put_bytes 4 b (put_bytes 0 a (replicate 13 0)))[12 := f] = a @ b @ [0, 0, 0, 0] @ [f]"
proof -
  have "put_bytes 4 b (put_bytes 0 a (replicate 13 0)) = a @ b @ replicate 5 0"
    using assms by (simp add: put_bytes_def)
  moreover have "(replicate 5 0)[4 := f] = [0, 0, 0, 0] @ [f]"
    by (simp add: numeral_eq_Suc)
  ultimately show ?thesis
    using assms by (simp add: list_update_append)
qed

lemma parse_valid_payload:
  "parse_stroke_payload (build_valid_payload action) =
     (if known_action action
      then Valid \<lparr>ps_x = 0x3FC00000, ps_y = 0x40200000, ps_pressure = 0x3F800000, ps_action = action\<rparr>
      else InvalidFlag action)"
proof -
  have "build_valid_payload action = le_bytes 4 (0x3FC00000 :: f32) @ le_bytes 4 (0x40200000 :: f32) @ [0, 0, 0, 0] @ [action]"
    unfolding build_valid_payload_def STROKE_PAYLOAD_LEN_def Let_def by (rule payload_chunks) simp_all
  then show ?thesis
    by (simp only: parse_chunks length_le_bytes list.size of_le_bytes_le_bytes_32)
qed

lemma length_tests_pass:
  "rejects_empty_payload" "rejects_payload_too_short" "rejects_payload_just_over" "rejects_legacy_17_byte_payload"
  by (simp_all add: rejects_empty_payload_def rejects_payload_too_short_def rejects_payload_just_over_def
      rejects_legacy_17_byte_payload_def parse_stroke_payload_def STROKE_PAYLOAD_LEN_def)

lemma flag_tests_pass:
  "rejects_invalid_action_flag" "accepts_valid_down_payload" "accepts_move_action" "accepts_up_action"
  by (simp_all add: rejects_invalid_action_flag_def accepts_valid_down_payload_def accepts_move_action_def
      accepts_up_action_def parse_valid_payload known_action_def action_defs)

end
