(* ===== verification/Aegis_Main.thy ===== *)
theory Aegis_Main
  imports Aegis_Ops Aegis_Session
begin

text \<open>
  The process of AEGIS as a whole: \<^verbatim>\<open>main\<close> of \<^verbatim>\<open>aegis/src/main.rs\<close>. One thread per core sets up its
  socket and serves the proxy; the main thread runs the dojo, the metrics endpoint and the ticker
  on one single-threaded runtime until the interrupt, then tells the cores to stop and joins them.
\<close>

section \<open>State\<close>

text \<open>The system calls that set up the listening socket of a core, each of them unwrapped.\<close>

datatype setup_call = NewSocket | SetReusePort | SetReuseAddress | SetNonblocking | BindCall | ListenCall

definition setup_calls :: "setup_call list" where
  "setup_calls = [NewSocket, SetReusePort, SetReuseAddress, SetNonblocking, BindCall, ListenCall]"

definition core_setup :: "(setup_call \<Rightarrow> bool) \<Rightarrow> setup_call option" where
  "core_setup works = find (\<lambda>c. \<not> works c) setup_calls"

datatype core_thread =
    Starting
  | Serving
  | Returned
  | Failed setup_call \<comment> \<open>the \<^verbatim>\<open>unwrap\<close> it panicked at\<close>

datatype service = NotStarted | Bound | NotBound

text \<open>
  The main thread loads the counters one by one while the other threads go on. Nothing else of its
  runtime runs in between, since there is no await between the loads.
\<close>

datatype loading = NoLoad | ScrapedConns usize | ScrapedBytes usize usize | TickedConns usize

datatype main_phase =
    Looping
  | Joining nat
  | Exited
  | MainPanicked

record aegis =
  ag_main :: main_phase
  ag_threads :: "core_thread list"
  ag_proxy :: proxy
  ag_dojo_up :: service
  ag_dojo :: dojo
  ag_metrics :: service
  ag_loading :: loading

definition aegis_new :: "nat \<Rightarrow> aegis" where
  "aegis_new cores = \<lparr>ag_main = Looping, ag_threads = replicate cores Starting, ag_proxy = proxy_new cores,
     ag_dojo_up = NotStarted, ag_dojo = dojo_new, ag_metrics = NotStarted, ag_loading = NoLoad\<rparr>"

datatype aegis_event =
    CoreStart nat "setup_call \<Rightarrow> bool"
  | CoreEvent nat core_event
  | DojoBind bool
  | DojoEvent dojo_event
  | MetricsBind bool
  | ScrapeLoad \<comment> \<open>the next load of a scrape\<close>
  | TickLoad \<comment> \<open>the next load of a tick\<close>
  | Interrupt
  | JoinNext

datatype aegis_output =
    Proxied nat core_output
  | Ring "stroke_event channel_result"
  | MetricsServed usize usize usize
  | HudLine usize usize

section \<open>Steps\<close>

definition running :: "aegis \<Rightarrow> bool" where
  "running s \<longleftrightarrow> (case ag_main s of Looping \<Rightarrow> True | Joining _ \<Rightarrow> True | _ \<Rightarrow> False)"

text \<open>Whether the main thread is at an await of its loop, where it runs the tasks of its runtime.\<close>

definition awaiting :: "aegis \<Rightarrow> bool" where
  "awaiting s \<longleftrightarrow> ag_main s = Looping \<and> ag_loading s = NoLoad"

definition thread_at :: "nat \<Rightarrow> aegis \<Rightarrow> core_thread option" where
  "thread_at i s = (if i < length (ag_threads s) then Some (ag_threads s ! i) else None)"

definition set_thread :: "nat \<Rightarrow> core_thread \<Rightarrow> aegis \<Rightarrow> aegis" where
  "set_thread i th s = s\<lparr>ag_threads := (ag_threads s)[i := th]\<rparr>"

definition core_start :: "nat \<Rightarrow> (setup_call \<Rightarrow> bool) \<Rightarrow> aegis \<Rightarrow> aegis" where
  "core_start i works s =
     (if thread_at i s = Some Starting
      then set_thread i (case core_setup works of None \<Rightarrow> Serving | Some c \<Rightarrow> Failed c) s else s)"

text \<open>
  A core that serves takes any event of its own; the signal to stop reaches it once \<^verbatim>\<open>main\<close> has sent
  it, and ends its thread.
\<close>

definition core_event ::
    "(bytes \<Rightarrow> bytes \<Rightarrow> bytes) \<Rightarrow> nat \<Rightarrow> core_event \<Rightarrow> aegis \<Rightarrow> aegis_output list \<times> aegis" where
  "core_event read_into i ev s =
     (if thread_at i s = Some Serving \<and> (ev = ShutdownSignal \<longrightarrow> ag_main s \<noteq> Looping)
      then (case proxy_step read_into (i, ev) (ag_proxy s) of
              (outs, px) \<Rightarrow> (map (\<lambda>(j, out). Proxied j out) outs,
                 (if ev = ShutdownSignal then set_thread i Returned s else s)\<lparr>ag_proxy := px\<rparr>))
      else ([], s))"

text \<open>\<^verbatim>\<open>handle.join().unwrap()\<close>, on one handle after the other.\<close>

definition join_next :: "aegis \<Rightarrow> aegis" where
  "join_next s =
     (case ag_main s of
        Joining i \<Rightarrow>
          (case thread_at i s of
             None \<Rightarrow> s\<lparr>ag_main := Exited\<rparr>
           | Some Returned \<Rightarrow> s\<lparr>ag_main := Joining (i + 1)\<rparr>
           | Some (Failed c) \<Rightarrow> s\<lparr>ag_main := MainPanicked\<rparr>
           | Some _ \<Rightarrow> s)
      | _ \<Rightarrow> s)"

definition scrape_load :: "aegis \<Rightarrow> aegis_output list \<times> aegis" where
  "scrape_load s =
     (let tele = px_tele (ag_proxy s) in
      case ag_loading s of
        NoLoad \<Rightarrow> ([], if ag_metrics s = Bound then s\<lparr>ag_loading := ScrapedConns (active_connections tele)\<rparr> else s)
      | ScrapedConns conns \<Rightarrow> ([], s\<lparr>ag_loading := ScrapedBytes conns (total_bytes tele)\<rparr>)
      | ScrapedBytes conns sent \<Rightarrow>
          ([MetricsServed conns sent (total_requests tele)], s\<lparr>ag_loading := NoLoad\<rparr>)
      | TickedConns conns \<Rightarrow> ([], s))"

definition tick_load :: "aegis \<Rightarrow> aegis_output list \<times> aegis" where
  "tick_load s =
     (let tele = px_tele (ag_proxy s) in
      case ag_loading s of
        NoLoad \<Rightarrow> ([], s\<lparr>ag_loading := TickedConns (active_connections tele)\<rparr>)
      | TickedConns conns \<Rightarrow>
          (if 0 < conns \<or> 0 < total_bytes tele then [HudLine conns (total_bytes tele)] else [], s\<lparr>ag_loading := NoLoad\<rparr>)
      | _ \<Rightarrow> ([], s))"

text \<open>
  An event the state does not allow leaves it alone. CELER pops from the ring whatever AEGIS does.
\<close>

fun aegis_step ::
    "(bytes \<Rightarrow> bytes \<Rightarrow> bytes) \<Rightarrow> aegis_event \<Rightarrow> aegis \<Rightarrow> ring_fault + aegis_output list \<times> aegis" where
  "aegis_step read_into (CoreStart i works) s = Inr ([], if running s then core_start i works s else s)"
| "aegis_step read_into (CoreEvent i ev) s = Inr (if running s then core_event read_into i ev s else ([], s))"
| "aegis_step read_into (DojoBind ok) s =
     Inr ([], if awaiting s \<and> ag_dojo_up s = NotStarted then s\<lparr>ag_dojo_up := if ok then Bound else NotBound\<rparr> else s)"
| "aegis_step read_into (DojoEvent ev) s =
     (if ev = ConsumerPop \<or> awaiting s \<and> ag_dojo_up s = Bound
      then (case dojo_step ev (ag_dojo s) of
              Inl f \<Rightarrow> Inl f
            | Inr (rs, d) \<Rightarrow> Inr (map Ring rs, s\<lparr>ag_dojo := d\<rparr>))
      else Inr ([], s))"
| "aegis_step read_into (MetricsBind ok) s =
     Inr ([], if awaiting s \<and> ag_metrics s = NotStarted then s\<lparr>ag_metrics := if ok then Bound else NotBound\<rparr> else s)"
| "aegis_step read_into ScrapeLoad s = Inr (if ag_main s = Looping then scrape_load s else ([], s))"
| "aegis_step read_into TickLoad s = Inr (if ag_main s = Looping then tick_load s else ([], s))"
| "aegis_step read_into Interrupt s = Inr ([], if awaiting s then s\<lparr>ag_main := Joining 0\<rparr> else s)"
| "aegis_step read_into JoinNext s = Inr ([], join_next s)"

fun aegis_run ::
    "(bytes \<Rightarrow> bytes \<Rightarrow> bytes) \<Rightarrow> aegis_event list \<Rightarrow> aegis \<Rightarrow> ring_fault + aegis_output list \<times> aegis" where
  "aegis_run read_into [] s = Inr ([], s)"
| "aegis_run read_into (e # es) s =
     (case aegis_step read_into e s of
        Inl f \<Rightarrow> Inl f
      | Inr (outs, s1) \<Rightarrow>
          (case aegis_run read_into es s1 of Inl f \<Rightarrow> Inl f | Inr (outs', s2) \<Rightarrow> Inr (outs @ outs', s2)))"

lemmas aegis_defs [handle_defs] = core_start_def core_event_def join_next_def scrape_load_def tick_load_def
  set_thread_def thread_at_def

lemma aegis_run_append:
  "aegis_run read_into (es @ fs) s = (case aegis_run read_into es s of
     Inl f \<Rightarrow> Inl f
   | Inr (outs, s1) \<Rightarrow> (case aegis_run read_into fs s1 of Inl f \<Rightarrow> Inl f | Inr (outs', s2) \<Rightarrow> Inr (outs @ outs', s2)))"
  by (induction es arbitrary: s) (auto split: sum.splits prod.splits)

section \<open>Its parts\<close>

text \<open>What the run does to the proxy and to the dojo are runs of the two on their own.\<close>

fun proxied :: "aegis_output list \<Rightarrow> (nat \<times> core_output) list" where
  "proxied [] = []"
| "proxied (Proxied i out # outs) = (i, out) # proxied outs"
| "proxied (_ # outs) = proxied outs"

fun ring_results :: "aegis_output list \<Rightarrow> stroke_event channel_result list" where
  "ring_results [] = []"
| "ring_results (Ring r # outs) = r # ring_results outs"
| "ring_results (_ # outs) = ring_results outs"

lemma part_append [simp]:
  "proxied (xs @ ys) = proxied xs @ proxied ys" "ring_results (xs @ ys) = ring_results xs @ ring_results ys"
proof -
  show "proxied (xs @ ys) = proxied xs @ proxied ys"
    by (induction xs rule: proxied.induct) simp_all
  show "ring_results (xs @ ys) = ring_results xs @ ring_results ys"
    by (induction xs rule: ring_results.induct) simp_all
qed

lemma part_map [simp]:
  "proxied (map (\<lambda>(j, out). Proxied j out) os) = os" "ring_results (map (\<lambda>(j, out). Proxied j out) os) = []"
  by (induction os) auto

lemma part_ring [simp]: "proxied (map Ring rs) = []" "ring_results (map Ring rs) = rs"
  by (induction rs) auto

lemma aegis_step_proxy:
  assumes "aegis_step read_into e s = Inr (outs, s')"
  obtains (none) "proxied outs = []" and "ag_proxy s' = ag_proxy s"
    | (one) i ev where "e = CoreEvent i ev" and "thread_at i s = Some Serving"
        and "proxy_step read_into (i, ev) (ag_proxy s) = (proxied outs, ag_proxy s')"
proof (cases e)
  case (CoreEvent i ev)
  with assms show thesis
    by (cases "proxy_step read_into (i, ev) (ag_proxy s)")
       (auto simp: core_event_def set_thread_def split: if_splits intro: none one)
qed (use assms in \<open>auto simp: core_start_def set_thread_def scrape_load_def tick_load_def join_next_def Let_def
      split: if_splits loading.splits main_phase.splits option.splits core_thread.splits sum.splits intro!: none\<close>)

lemma aegis_proxy_run:
  "aegis_run read_into es s = Inr (outs, s') \<Longrightarrow>
   \<exists>pes. proxy_run read_into pes (ag_proxy s) = (proxied outs, ag_proxy s')"
proof (induction es arbitrary: s outs)
  case Nil
  then show ?case by (intro exI [of _ "[]"]) auto
next
  case (Cons e es)
  obtain os s1 where step: "aegis_step read_into e s = Inr (os, s1)"
    using Cons.prems by (auto split: sum.splits)
  then obtain os' where run: "aegis_run read_into es s1 = Inr (os', s')" and outs: "outs = os @ os'"
    using Cons.prems by (auto split: sum.splits)
  from Cons.IH [OF run] obtain pes where pes: "proxy_run read_into pes (ag_proxy s1) = (proxied os', ag_proxy s')"
    by blast
  from step show ?case
  proof (cases rule: aegis_step_proxy)
    case none
    with pes outs show ?thesis by auto
  next
    case (one i ev)
    with pes outs show ?thesis
      by (intro exI [of _ "(i, ev) # pes"]) simp
  qed
qed

lemma aegis_step_dojo:
  assumes "aegis_step read_into e s = Inr (outs, s')"
  obtains (none) "ring_results outs = []" and "ag_dojo s' = ag_dojo s"
    | (one) ev where "dojo_step ev (ag_dojo s) = Inr (ring_results outs, ag_dojo s')"
proof (cases e)
  case (CoreEvent i ev)
  with assms show thesis
    by (cases "proxy_step read_into (i, ev) (ag_proxy s)")
       (auto simp: core_event_def set_thread_def split: if_splits intro: none)
next
  case (DojoEvent ev)
  with assms show thesis
    by (cases "dojo_step ev (ag_dojo s)")
       (auto simp del: dojo_step.simps split: if_splits intro: none one)
qed (use assms in \<open>auto simp: core_start_def set_thread_def scrape_load_def tick_load_def join_next_def Let_def
      split: if_splits loading.splits main_phase.splits option.splits core_thread.splits intro!: none\<close>)

lemma aegis_dojo_run:
  "aegis_run read_into es s = Inr (outs, s') \<Longrightarrow>
   \<exists>des. dojo_run des (ag_dojo s) = Inr (ring_results outs, ag_dojo s') \<and> length des \<le> length es"
proof (induction es arbitrary: s outs)
  case Nil
  then show ?case by (intro exI [of _ "[]"]) auto
next
  case (Cons e es)
  obtain os s1 where step: "aegis_step read_into e s = Inr (os, s1)"
    using Cons.prems by (auto split: sum.splits)
  then obtain os' where run: "aegis_run read_into es s1 = Inr (os', s')" and outs: "outs = os @ os'"
    using Cons.prems by (auto split: sum.splits)
  from Cons.IH [OF run] obtain des where des: "length des \<le> length es"
      "dojo_run des (ag_dojo s1) = Inr (ring_results os', ag_dojo s')"
    by blast
  from step show ?case
  proof (cases rule: aegis_step_dojo)
    case none
    with des outs show ?thesis by (intro exI [of _ des]) simp
  next
    case (one ev)
    with des outs show ?thesis
      by (intro exI [of _ "ev # des"]) simp
  qed
qed

section \<open>Invariant\<close>

definition core_done :: "core \<Rightarrow> bool" where
  "core_done c \<longleftrightarrow> \<not> co_running c \<and> set (co_tasks c) \<subseteq> {Finished} \<and> co_conn_pool c = [] \<and> \<not> co_borrowed c"

definition main_inv :: "aegis \<Rightarrow> bool" where
  "main_inv s \<longleftrightarrow> (case ag_main s of
     Looping \<Rightarrow> Returned \<notin> set (ag_threads s)
   | Joining k \<Rightarrow> ag_loading s = NoLoad \<and> (\<forall>i < k. thread_at i s = Some Returned)
   | Exited \<Rightarrow> set (ag_threads s) \<subseteq> {Returned}
   | MainPanicked \<Rightarrow> \<exists>i c. thread_at i s = Some (Failed c))"

definition threads_inv :: "aegis \<Rightarrow> bool" where
  "threads_inv s \<longleftrightarrow> length (px_cores (ag_proxy s)) = length (ag_threads s) \<and>
     (\<forall>i < length (ag_threads s).
        (ag_threads s ! i \<in> {Starting, Serving} \<longrightarrow> co_running (px_cores (ag_proxy s) ! i)) \<and>
        (ag_threads s ! i = Returned \<longrightarrow> core_done (px_cores (ag_proxy s) ! i)))"

lemma core_step_running:
  "core_step read_into ev c tele = (outs, c', tele') \<Longrightarrow> co_running c \<Longrightarrow>
   co_running c' \<longleftrightarrow> ev \<noteq> ShutdownSignal"
  by (cases ev) (auto simp: task_defs set_task_def Let_def split: task_phase.splits if_splits list.splits option.splits)

lemma core_shutdown_done: "co_running c \<Longrightarrow> core_step read_into ShutdownSignal c tele = (outs, c', tele') \<Longrightarrow> core_done c'"
  by (auto simp: core_shutdown_def core_done_def)

lemma threads_inv_new: "threads_inv (aegis_new n)" and main_inv_new: "main_inv (aegis_new n)"
  by (auto simp: threads_inv_def main_inv_def aegis_new_def proxy_new_def core_new_def)

lemma threads_inv_frame:
  "threads_inv s \<Longrightarrow> ag_threads s' = ag_threads s \<Longrightarrow> ag_proxy s' = ag_proxy s \<Longrightarrow> threads_inv s'"
  by (simp add: threads_inv_def)

lemma core_event_threads:
  assumes inv: "threads_inv s" and step: "core_event read_into i ev s = (outs, s')"
  shows "threads_inv s'"
proof (cases "thread_at i s = Some Serving \<and> (ev = ShutdownSignal \<longrightarrow> ag_main s \<noteq> Looping)")
  case True
  let ?px = "ag_proxy s"
  have i: "i < length (ag_threads s)" "ag_threads s ! i = Serving"
    using True by (auto simp: thread_at_def split: if_splits)
  then have ipx: "i < length (px_cores ?px)" and up: "co_running (px_cores ?px ! i)"
    using inv by (simp_all add: threads_inv_def)
  obtain os c tele where c: "core_step read_into ev (px_cores ?px ! i) (px_tele ?px) = (os, c, tele)"
    by (metis prod_cases3)
  have s': "s' = (if ev = ShutdownSignal then set_thread i Returned s else s)\<lparr>ag_proxy :=
      \<lparr>px_cores = (px_cores ?px)[i := c], px_tele = tele\<rparr>\<rparr>"
    using step True ipx c by (auto simp: core_event_def proxy_step_def)
  show ?thesis
  proof (cases "ev = ShutdownSignal")
    case True
    with c up core_shutdown_done [of "px_cores ?px ! i"] have "core_done c" by simp
    with inv i True show ?thesis
      by (auto simp: s' threads_inv_def set_thread_def nth_list_update)
  next
    case False
    with c up core_step_running have "co_running c" by blast
    with inv i False show ?thesis
      by (auto simp: s' threads_inv_def set_thread_def nth_list_update)
  qed
qed (use assms in \<open>auto simp: core_event_def\<close>)

lemma aegis_step_threads [step_inv]:
  assumes "threads_inv s" and "aegis_step read_into e s = Inr (outs, s')"
  shows "threads_inv s'"
proof (cases e)
  case (CoreStart i works)
  with assms show ?thesis
    by (auto simp: core_start_def set_thread_def thread_at_def threads_inv_def nth_list_update split: if_splits option.splits)
next
  case (CoreEvent i ev)
  with assms show ?thesis
    by (auto intro: core_event_threads split: if_splits)
qed (use assms in \<open>auto simp: scrape_load_def tick_load_def join_next_def Let_def elim!: threads_inv_frame
      split: if_splits loading.splits main_phase.splits option.splits core_thread.splits sum.splits\<close>)

lemma thread_at_cong: "ag_threads s' = ag_threads s \<Longrightarrow> thread_at i s' = thread_at i s"
  by (simp add: thread_at_def)

lemma main_inv_frame:
  "main_inv s \<Longrightarrow> ag_main s' = ag_main s \<Longrightarrow> ag_threads s' = ag_threads s \<Longrightarrow> ag_loading s' = ag_loading s \<Longrightarrow> main_inv s'"
  using thread_at_cong [of s' s] by (cases "ag_main s") (simp_all add: main_inv_def)

lemma aegis_step_main [step_inv]:
  assumes "main_inv s" and "aegis_step read_into e s = Inr (outs, s')"
  shows "main_inv s'"
proof (cases e)
  case (DojoEvent ev)
  with assms(2) have "ag_main s' = ag_main s" "ag_threads s' = ag_threads s" "ag_loading s' = ag_loading s"
    by (auto simp del: dojo_step.simps split: if_splits sum.splits)
  then show ?thesis
    by (rule main_inv_frame [OF assms(1)])
next
  case (CoreStart i works)
  have "thread_at j s' = Some Returned" if "thread_at j s = Some Returned" for j
    using that CoreStart assms(2) by (auto simp: core_start_def set_thread_def thread_at_def nth_list_update split: if_splits)
  moreover have "Returned \<notin> set (ag_threads s')" if "Returned \<notin> set (ag_threads s)"
    using that CoreStart assms(2)
    by (auto simp: core_start_def set_thread_def split: if_splits option.splits dest!: set_update_subset_insert [THEN subsetD])
  moreover have "ag_main s' = ag_main s" "ag_loading s' = ag_loading s" "\<not> running s \<longrightarrow> s' = s"
    using CoreStart assms(2) by (auto simp: core_start_def set_thread_def)
  ultimately show ?thesis
    using assms(1) by (auto simp: main_inv_def running_def split: main_phase.splits)
next
  case (CoreEvent i ev)
  have "thread_at j s' = Some Returned" if "thread_at j s = Some Returned" for j
    using that CoreEvent assms(2)
    by (auto simp: core_event_def set_thread_def thread_at_def nth_list_update split: if_splits prod.splits)
  moreover have "ag_threads s' = ag_threads s" if "ag_main s = Looping"
    using that CoreEvent assms(2) by (auto simp: core_event_def split: if_splits prod.splits)
  moreover have "ag_main s' = ag_main s" "ag_loading s' = ag_loading s" "\<not> running s \<longrightarrow> s' = s"
    using CoreEvent assms(2) by (auto simp: core_event_def set_thread_def split: if_splits prod.splits)
  ultimately show ?thesis
    using assms(1) by (auto simp: main_inv_def running_def split: main_phase.splits)
next
  case JoinNext
  show ?thesis
  proof (cases "ag_main s")
    case (Joining k)
    with assms(1) have joined: "\<forall>i < k. thread_at i s = Some Returned"
      by (simp add: main_inv_def)
    have "set (ag_threads s) \<subseteq> {Returned}" if "thread_at k s = None"
      using that joined by (force simp: thread_at_def in_set_conv_nth split: if_splits)
    moreover have frame: "thread_at i (s\<lparr>ag_main := ph\<rparr>) = thread_at i s" for i ph
      by (simp add: thread_at_def)
    moreover have "s' = join_next s"
      using JoinNext assms(2) by simp
    ultimately show ?thesis
      using Joining joined assms(1)
      by (cases "thread_at k s") (auto simp: join_next_def main_inv_def less_Suc_eq split: core_thread.splits)
  qed (use assms JoinNext in \<open>auto simp: join_next_def\<close>)
qed (use assms in \<open>auto simp: scrape_load_def tick_load_def Let_def main_inv_def thread_at_def awaiting_def
      split: if_splits loading.splits main_phase.splits sum.splits\<close>)

lemma aegis_run_inv:
  "threads_inv s \<Longrightarrow> main_inv s \<Longrightarrow> aegis_run read_into es s = Inr (outs, s') \<Longrightarrow> threads_inv s' \<and> main_inv s'"
proof (induction es arbitrary: s outs)
  case (Cons e es)
  obtain os s1 where step: "aegis_step read_into e s = Inr (os, s1)"
    using Cons.prems(3) by (auto split: sum.splits)
  then obtain os' where "aegis_run read_into es s1 = Inr (os', s')"
    using Cons.prems(3) by (auto split: sum.splits)
  with Cons.IH [of s1] aegis_step_threads [OF Cons.prems(1) step] aegis_step_main [OF Cons.prems(2) step]
  show ?case by blast
qed simp

section \<open>The exit\<close>

text \<open>
  C11: the exit is clean. When \<^verbatim>\<open>main\<close> returns, after any run of any number of cores, every core
  thread has been set up, has returned and been joined; no connection, pipe or task is left, the count
  of active connections is zero, and the byte counter is what was relayed.
\<close>

theorem exit_is_clean:
  assumes "\<And>d. read_into [] d = d" and "aegis_run read_into es (aegis_new n) = Inr (outs, s)" and "ag_main s = Exited"
  shows "set (ag_threads s) \<subseteq> {Returned} \<and> list_all core_done (px_cores (ag_proxy s)) \<and>
     active_connections (px_tele (ag_proxy s)) = 0 \<and>
     total_bytes (px_tele (ag_proxy s)) = of_nat (relayed (map snd (proxied outs)))"
proof -
  have inv: "threads_inv s" "main_inv s"
    using aegis_run_inv [OF threads_inv_new main_inv_new assms(2)] by simp_all
  then have threads: "set (ag_threads s) \<subseteq> {Returned}"
    using assms(3) by (simp add: main_inv_def)
  with inv(1) have cores: "list_all core_done (px_cores (ag_proxy s))"
    unfolding threads_inv_def by (metis list_all_length nth_mem singletonD subsetD)
  have "live_guards c = 0" if "core_done c" for c
    using that by (auto simp: core_done_def live_guards_def)
  with cores have "total_of live_guards (ag_proxy s) = 0"
    by (auto simp: total_of_def list_all_iff)
  moreover obtain pes where "proxy_run read_into pes (proxy_new n) = (proxied outs, ag_proxy s)"
    using aegis_proxy_run [OF assms(2)] by (auto simp: aegis_new_def)
  from accounted_run [OF proxy_inv_new accounted_new _ this, of False] assms(1)
  have "accounted False (map snd (proxied outs)) (ag_proxy s)" by auto
  ultimately show ?thesis
    using threads cores by (simp add: accounted_def)
qed

text \<open>One round of the shutdown: a core that still starts is up, hears the signal, and is joined.\<close>

definition shutdown_round :: "nat \<Rightarrow> aegis_event list" where
  "shutdown_round i = [CoreStart i (\<lambda>_. True), CoreEvent i ShutdownSignal, JoinNext]"

definition shutdown_schedule :: "nat \<Rightarrow> aegis_event list" where
  "shutdown_schedule n = Interrupt # concat (map shutdown_round [0..<n]) @ [JoinNext]"

definition core_failed :: "nat \<Rightarrow> aegis \<Rightarrow> bool" where
  "core_failed i s \<longleftrightarrow> (\<exists>c. thread_at i s = Some (Failed c))"

lemma core_setup_ok [simp]: "core_setup (\<lambda>_. True) = None"
  by (simp add: core_setup_def setup_calls_def)

lemma shutdown_round_joins:
  assumes "ag_main s = Joining k" and "k < length (ag_threads s)"
  shows "\<exists>outs s'. aegis_run read_into (shutdown_round k) s = Inr (outs, s') \<and>
    ag_main s' = (if core_failed k s then MainPanicked else Joining (Suc k)) \<and>
    length (ag_threads s') = length (ag_threads s) \<and> (\<forall>i. i \<noteq> k \<longrightarrow> thread_at i s' = thread_at i s)"
proof -
  obtain os px where px: "proxy_step read_into (k, ShutdownSignal) (ag_proxy s) = (os, px)" by fastforce
  have "running s" and up: "running (set_thread k th s)" for th
    using assms(1) by (simp_all add: running_def set_thread_def)
  then show ?thesis
    using assms px
    by (cases "ag_threads s ! k")
       (simp_all add: shutdown_round_def core_failed_def core_start_def core_event_def join_next_def thread_at_def set_thread_def
         running_def)
qed

lemma main_panicked_stays:
  "ag_main s = MainPanicked \<Longrightarrow> aegis_run read_into (concat (map shutdown_round is) @ [JoinNext]) s = Inr ([], s)"
  by (induction "is") (simp_all add: shutdown_round_def running_def join_next_def)

lemma rounds_join:
  "ag_main s = Joining k \<Longrightarrow> k + m = length (ag_threads s) \<Longrightarrow>
   \<exists>outs s'. aegis_run read_into (concat (map shutdown_round [k..<k + m]) @ [JoinNext]) s = Inr (outs, s') \<and>
     ag_main s' = (if \<exists>i \<ge> k. core_failed i s then MainPanicked else Exited)"
proof (induction m arbitrary: k s)
  case 0
  have "\<not> core_failed i s" if "k \<le> i" for i
    using 0 that by (simp add: core_failed_def thread_at_def)
  with 0 show ?case
    by (simp add: join_next_def thread_at_def)
next
  case (Suc m)
  then have k: "k < length (ag_threads s)" by simp
  obtain outs s1 where round: "aegis_run read_into (shutdown_round k) s = Inr (outs, s1)"
    and main: "ag_main s1 = (if core_failed k s then MainPanicked else Joining (Suc k))"
    and len: "length (ag_threads s1) = length (ag_threads s)"
    and others: "\<And>i. i \<noteq> k \<Longrightarrow> thread_at i s1 = thread_at i s"
    using shutdown_round_joins [OF Suc.prems(1) k, of read_into] by blast
  have rounds: "concat (map shutdown_round [k..<k + Suc m]) @ [JoinNext] =
      shutdown_round k @ (concat (map shutdown_round [Suc k..<Suc k + m]) @ [JoinNext])"
  proof -
    have "[k..<k + Suc m] = k # [Suc k..<Suc k + m]"
      by (simp add: upt_conv_Cons del: upt_Suc)
    then show ?thesis by simp
  qed
  show ?case
  proof (cases "core_failed k s")
    case True
    then have "\<exists>i \<ge> k. core_failed i s" by blast
    with True main main_panicked_stays [of s1 read_into "[Suc k..<Suc k + m]"] round show ?thesis
      unfolding rounds aegis_run_append by simp
  next
    case False
    have same: "(\<exists>i \<ge> Suc k. core_failed i s1) \<longleftrightarrow> (\<exists>i \<ge> k. core_failed i s)"
      using False others unfolding core_failed_def by (metis Suc_leD Suc_leI le_neq_implies_less not_less_eq_eq order_refl)
    from Suc.IH [of s1 "Suc k"] main False len Suc.prems(2) obtain outs' s' where
      "aegis_run read_into (concat (map shutdown_round [Suc k..<Suc k + m]) @ [JoinNext]) s1 = Inr (outs', s')"
      "ag_main s' = (if \<exists>i \<ge> Suc k. core_failed i s1 then MainPanicked else Exited)"
      by auto
    with round same show ?thesis
      unfolding rounds aegis_run_append by simp
  qed
qed

lemma aegis_step_cores:
  assumes "aegis_step read_into e s = Inr (outs, s')"
  shows "length (ag_threads s') = length (ag_threads s)"
proof (cases e)
  case (CoreEvent i ev)
  with assms show ?thesis
    by (auto simp: core_event_def set_thread_def split: if_splits prod.splits)
next
  case (DojoEvent ev)
  with assms show ?thesis
    by (auto simp del: dojo_step.simps split: if_splits sum.splits)
qed (use assms in \<open>auto simp: core_start_def set_thread_def scrape_load_def tick_load_def join_next_def Let_def
      split: if_splits loading.splits main_phase.splits option.splits core_thread.splits\<close>)

lemma aegis_run_cores: "aegis_run read_into es s = Inr (outs, s') \<Longrightarrow> length (ag_threads s') = length (ag_threads s)"
proof (induction es arbitrary: s outs)
  case (Cons e es)
  obtain os s1 where step: "aegis_step read_into e s = Inr (os, s1)"
    using Cons.prems by (auto split: sum.splits)
  then obtain os' where "aegis_run read_into es s1 = Inr (os', s')"
    using Cons.prems by (auto split: sum.splits)
  from Cons.IH [OF this] aegis_step_cores [OF step] show ?case by simp
qed simp

text \<open>
  C23: the interrupt stops the process. Whatever has happened before, once the main thread is at
  its select the interrupt followed by \<open>3 n + 1\<close> steps of the \<open>n\<close> cores and of the joins ends it. It
  returns if every core could set up its socket; if one could not (which nobody notices until then: the
  main thread only looks at its threads here) it panics at that core's handle.
\<close>

theorem interrupt_stops_aegis:
  assumes "aegis_run read_into es (aegis_new n) = Inr (outs, s)" and "awaiting s"
  shows "\<exists>outs' s'. aegis_run read_into (shutdown_schedule n) s = Inr (outs', s') \<and>
     ag_main s' = (if \<exists>i. core_failed i s then MainPanicked else Exited)"
proof -
  let ?s = "s\<lparr>ag_main := Joining 0\<rparr>"
  have "length (ag_threads s) = n"
    using aegis_run_cores [OF assms(1)] by (simp add: aegis_new_def)
  then obtain outs' s' where "aegis_run read_into (concat (map shutdown_round [0..<n]) @ [JoinNext]) ?s = Inr (outs', s')"
    and "ag_main s' = (if \<exists>i. core_failed i ?s then MainPanicked else Exited)"
    using rounds_join [of ?s 0 n read_into] by auto
  moreover have "core_failed i ?s \<longleftrightarrow> core_failed i s" for i
    by (simp add: core_failed_def thread_at_def)
  ultimately show ?thesis
    using assms(2) by (simp add: shutdown_schedule_def)
qed

section \<open>The metrics\<close>

fun scrapes :: "aegis_output list \<Rightarrow> (usize \<times> usize \<times> usize) list" where
  "scrapes [] = []"
| "scrapes (MetricsServed conns sent reqs # outs) = (conns, sent, reqs) # scrapes outs"
| "scrapes (_ # outs) = scrapes outs"

lemma scrapes_simps [simp]:
  "scrapes (xs @ ys) = scrapes xs @ scrapes ys" "scrapes (map (\<lambda>(j, out). Proxied j out) os) = []" "scrapes (map Ring rs) = []"
proof -
  show "scrapes (xs @ ys) = scrapes xs @ scrapes ys"
    by (induction xs rule: scrapes.induct) simp_all
  show "scrapes (map (\<lambda>(j, out). Proxied j out) os) = []"
    by (induction os) auto
  show "scrapes (map Ring rs) = []"
    by (induction rs) auto
qed

abbreviation counters :: "aegis \<Rightarrow> telemetry" where
  "counters s \<equiv> px_tele (ag_proxy s)"

lemma core_step_requests:
  "core_step read_into ev c tele = (outs, c', tele') \<Longrightarrow>
   total_requests tele' = total_requests tele \<or> total_requests tele' = total_requests tele + 1"
  by (cases ev) (auto simp: task_defs set_task_def guard_new_def guard_drop_def count_bytes_def guard_drop_funpow Let_def
      split: task_phase.splits if_splits list.splits option.splits)

lemma aegis_step_counters:
  assumes "proxy_inv (ag_proxy s)" and read: "\<And>d. read_into [] d = d" and step: "aegis_step read_into e s = Inr (outs, s')"
  shows "proxy_inv (ag_proxy s')"
    and "total_bytes (counters s') = total_bytes (counters s) + of_nat (relayed (map snd (proxied outs)))"
    and "total_requests (counters s') = total_requests (counters s) \<or>
      total_requests (counters s') = total_requests (counters s) + 1"
proof -
  have "proxy_inv (ag_proxy s') \<and>
    total_bytes (counters s') = total_bytes (counters s) + of_nat (relayed (map snd (proxied outs))) \<and>
    (total_requests (counters s') = total_requests (counters s) \<or> total_requests (counters s') = total_requests (counters s) + 1)"
    using step
  proof (cases rule: aegis_step_proxy)
    case none
    with assms(1) show ?thesis by (simp add: relayed_def)
  next
    case (one i ev)
    note inv = proxy_step_inv [OF assms(1) one(3)]
    from one(3) show ?thesis
    proof (cases rule: proxy_step_cases)
      case idle
      with assms(1) show ?thesis by (simp add: relayed_def)
    next
      case (core j ev' os c tele)
      have "core_inv (px_cores (ag_proxy s) ! j)"
        using assms(1) core(2) by (simp add: proxy_inv_def)
      then have "step_accounted ev' (px_cores (ag_proxy s) ! j) (counters s) (os, c, tele)"
        using core_step_accounted [where read_into = read_into] core(3) read by metis
      with inv core core_step_requests [OF core(3)] show ?thesis
        by (simp add: step_accounted_def comp_def)
    qed
  qed
  then show "proxy_inv (ag_proxy s')"
    and "total_bytes (counters s') = total_bytes (counters s) + of_nat (relayed (map snd (proxied outs)))"
    and "total_requests (counters s') = total_requests (counters s) \<or> total_requests (counters s') = total_requests (counters s) + 1"
    by simp_all
qed

lemma aegis_step_no_load:
  assumes "aegis_step read_into e s = Inr (outs, s')" and "e \<noteq> ScrapeLoad" and "e \<noteq> TickLoad"
  shows "scrapes outs = [] \<and> ag_loading s' = ag_loading s"
proof (cases e)
  case (CoreEvent i ev)
  with assms show ?thesis
    by (auto simp: core_event_def set_thread_def split: if_splits prod.splits)
next
  case (DojoEvent ev)
  with assms show ?thesis
    by (auto simp del: dojo_step.simps split: if_splits sum.splits)
next
  case JoinNext
  with assms show ?thesis
    by (auto simp: join_next_def split: main_phase.splits option.splits core_thread.splits)
qed (use assms in \<open>auto simp: core_start_def set_thread_def\<close>)

lemma aegis_step_scrape:
  assumes "aegis_step read_into e s = Inr (outs, s')"
  obtains (served) conns sent where "ag_loading s = ScrapedBytes conns sent" and "ag_loading s' = NoLoad"
        and "scrapes outs = [(conns, sent, total_requests (counters s))]" and "counters s' = counters s"
    | (loaded) conns where "scrapes outs = []" and "ag_loading s' = ScrapedBytes conns (total_bytes (counters s))"
        and "counters s' = counters s"
    | (same) "scrapes outs = []" and "ag_loading s' = ag_loading s"
    | (none) "scrapes outs = []" and "\<And>conns sent. ag_loading s' \<noteq> ScrapedBytes conns sent"
proof -
  consider "e = ScrapeLoad" | "e = TickLoad" | "e \<noteq> ScrapeLoad" "e \<noteq> TickLoad" by blast
  then show thesis
  proof cases
    case 1
    with assms show thesis
      by (cases "ag_loading s") (auto simp: scrape_load_def Let_def split: if_splits intro: served loaded same none)
  next
    case 2
    with assms show thesis
      by (cases "ag_loading s") (auto simp: tick_load_def Let_def split: if_splits intro: same none)
  next
    case 3
    with aegis_step_no_load [OF assms] same show thesis by blast
  qed
qed

definition scrapes_inv :: "nat \<Rightarrow> aegis_output list \<Rightarrow> aegis \<Rightarrow> bool" where
  "scrapes_inv n outs s \<longleftrightarrow> proxy_inv (ag_proxy s) \<and>
     (\<exists>r \<le> n. total_requests (counters s) = of_nat r) \<and>
     total_bytes (counters s) = of_nat (relayed (map snd (proxied outs))) \<and>
     sorted (map (\<lambda>(c, b, r). b) (scrapes outs)) \<and> sorted (map (\<lambda>(c, b, r). r) (scrapes outs)) \<and>
     (\<forall>(c, b, r) \<in> set (scrapes outs). b \<le> total_bytes (counters s) \<and> r \<le> total_requests (counters s)) \<and>
     (\<forall>c b. ag_loading s = ScrapedBytes c b \<longrightarrow>
        b \<le> total_bytes (counters s) \<and> (\<forall>(c', b', r') \<in> set (scrapes outs). b' \<le> b))"

lemma word_grows:
  assumes "a + b < 2 ^ 64"
  shows "(of_nat a :: usize) \<le> of_nat (a + b)"
  using assms by (simp add: word_le_nat_alt unat_eq_of_nat del: of_nat_add)

lemma scrapes_step:
  assumes inv: "scrapes_inv n log s" and read: "\<And>d. read_into [] d = d" and step: "aegis_step read_into e s = Inr (outs, s')"
    and n: "Suc n < 2 ^ 64" and bytes: "relayed (map snd (proxied (log @ outs))) < 2 ^ 64"
  shows "scrapes_inv (Suc n) (log @ outs) s'"
proof -
  have px: "proxy_inv (ag_proxy s)"
    using inv by (simp add: scrapes_inv_def)
  note step_counters = aegis_step_counters [OF px read step]
  obtain r where r: "r \<le> n" "total_requests (counters s) = of_nat r"
    using inv by (auto simp: scrapes_inv_def)
  have more: "total_bytes (counters s) \<le> total_bytes (counters s')"
    using inv step_counters(2) bytes word_grows [of "relayed (map snd (proxied log))" "relayed (map snd (proxied outs))"]
    by (simp add: scrapes_inv_def relayed_def)
  obtain r' where r': "r' \<le> Suc n" "total_requests (counters s') = of_nat r'" "r \<le> r'"
    using step_counters(3) r by (metis Suc_le_mono le_SucI le_refl of_nat_Suc add.commute lessI less_imp_le)
  have more_r: "total_requests (counters s) \<le> total_requests (counters s')"
    using word_grows [of r "r' - r"] r r' n by simp
  have now: "total_bytes (counters s') = of_nat (relayed (map snd (proxied (log @ outs))))"
    using inv step_counters(2) by (simp add: scrapes_inv_def relayed_def)
  have old: "b \<le> total_bytes (counters s') \<and> r \<le> total_requests (counters s')" if "(c, b, r) \<in> set (scrapes log)" for c b r
    using inv that more more_r by (fastforce simp: scrapes_inv_def)
  from step show ?thesis
  proof (cases rule: aegis_step_scrape)
    case (served conns sent)
    with inv have "\<forall>(c, b, r) \<in> set (scrapes log). b \<le> sent \<and> r \<le> total_requests (counters s)"
      and "sent \<le> total_bytes (counters s)"
      by (auto simp: scrapes_inv_def)
    with served inv r' now step_counters(1) old show ?thesis
      by (auto simp: scrapes_inv_def sorted_append)
  next
    case (loaded conns)
    with inv r' now step_counters(1) old show ?thesis
      by (auto simp: scrapes_inv_def)
  next
    case same
    have "b \<le> total_bytes (counters s') \<and> (\<forall>(c', b', r') \<in> set (scrapes log). b' \<le> b)"
      if "ag_loading s = ScrapedBytes c b" for c b
      using inv that more by (auto simp: scrapes_inv_def intro: order_trans)
    with same inv r' now step_counters(1) old show ?thesis
      by (simp only: scrapes_inv_def) auto
  next
    case none
    with inv r' now step_counters(1) old show ?thesis
      by (auto simp: scrapes_inv_def)
  qed
qed

lemma scrapes_run:
  assumes read: "\<And>d. read_into [] d = d"
  shows "scrapes_inv n log s \<Longrightarrow> aegis_run read_into es s = Inr (outs, s') \<Longrightarrow> n + length es < 2 ^ 64 \<Longrightarrow>
    relayed (map snd (proxied (log @ outs))) < 2 ^ 64 \<Longrightarrow> scrapes_inv (n + length es) (log @ outs) s'"
proof (induction es arbitrary: n log s outs)
  case (Cons e es)
  obtain os s1 where step: "aegis_step read_into e s = Inr (os, s1)"
    using Cons.prems(2) by (auto split: sum.splits)
  then obtain os' where run: "aegis_run read_into es s1 = Inr (os', s')" and outs: "outs = os @ os'"
    using Cons.prems(2) by (auto split: sum.splits)
  have "relayed (map snd (proxied (log @ os))) < 2 ^ 64"
    using Cons.prems(4) by (simp add: outs relayed_def)
  with scrapes_step [OF Cons.prems(1) read step] Cons.prems(3) have "scrapes_inv (Suc n) (log @ os) s1" by simp
  from Cons.IH [OF this run] Cons.prems(3,4) show ?case by (simp add: outs)
qed simp

lemma scrapes_inv_new: "scrapes_inv 0 [] (aegis_new n)"
  by (simp add: scrapes_inv_def aegis_new_def proxy_inv_new) (simp add: proxy_new_def telemetry_new_def relayed_def)

text \<open>
  C24: the metrics are monotone, as their type \<^verbatim>\<open>counter\<close> promises. Over any run the byte and request
  counts served never decrease from one scrape to the next and are never ahead of the counters, although a
  scrape loads the counters one by one while the cores go on counting. (As long as they do not wrap.)
\<close>

theorem metrics_never_decrease:
  assumes "\<And>d. read_into [] d = d" and "aegis_run read_into es (aegis_new n) = Inr (outs, s)"
    and "length es < 2 ^ 64" and "relayed (map snd (proxied outs)) < 2 ^ 64"
  shows "sorted (map (\<lambda>(conns, sent, reqs). sent) (scrapes outs)) \<and> sorted (map (\<lambda>(conns, sent, reqs). reqs) (scrapes outs)) \<and>
    (\<forall>(conns, sent, reqs) \<in> set (scrapes outs). sent \<le> total_bytes (counters s) \<and> reqs \<le> total_requests (counters s))"
proof -
  have "scrapes_inv (length es) outs s"
    using scrapes_run [OF assms(1) scrapes_inv_new assms(2)] assms(3,4) by simp
  then show ?thesis
    unfolding scrapes_inv_def by blast
qed

section \<open>Examples\<close>

text \<open>A core starts, a client connects, and the interrupt comes before it has sent anything.\<close>

lemmas aegis_eval = aegis_defs aegis_new_def proxy_new_def proxy_step_def core_new_def task_at_def task_defs set_task_def
  running_def awaiting_def clear_def Let_def

theorem exit_is_clean_witness:
  "\<exists>outs s. aegis_run (\<lambda>_ d. d) [CoreStart 0 (\<lambda>_. True), CoreEvent 0 AcceptOk, CoreEvent 0 (FirstPoll 0), Interrupt,
       CoreEvent 0 ShutdownSignal, JoinNext, JoinNext] (aegis_new 1) = Inr (outs, s) \<and>
     ag_main s = Exited \<and> active_connections (px_tele (ag_proxy s)) = 0 \<and> list_all core_done (px_cores (ag_proxy s))"
proof -
  let ?es = "[CoreStart 0 (\<lambda>_. True), CoreEvent 0 AcceptOk, CoreEvent 0 (FirstPoll 0), Interrupt,
       CoreEvent 0 ShutdownSignal, JoinNext, JoinNext]"
  obtain outs s where run: "aegis_run (\<lambda>_ d. d) ?es (aegis_new 1) = Inr (outs, s)" and "ag_main s = Exited"
    by (simp add: aegis_eval)
  with exit_is_clean [OF _ run] show ?thesis by blast
qed

text \<open>Two cores, one of which cannot bind its port.\<close>

theorem interrupt_stops_aegis_witness:
  "\<exists>outs s outs' s'. aegis_run (\<lambda>_ d. d) [CoreStart 0 (\<lambda>_. True), CoreStart 1 (\<lambda>c. c \<noteq> BindCall)] (aegis_new 2) = Inr (outs, s) \<and>
     ag_threads s = [Serving, Failed BindCall] \<and> aegis_run (\<lambda>_ d. d) (shutdown_schedule 2) s = Inr (outs', s') \<and>
     ag_main s' = MainPanicked"
proof -
  let ?es = "[CoreStart 0 (\<lambda>_. True), CoreStart 1 (\<lambda>c. c \<noteq> BindCall)]"
  obtain outs s where run: "aegis_run (\<lambda>_ d. d) ?es (aegis_new 2) = Inr (outs, s)"
    and threads: "ag_threads s = [Serving, Failed BindCall]" and "awaiting s"
    by (simp add: aegis_eval core_setup_def setup_calls_def numeral_2_eq_2)
  moreover have "core_failed 1 s"
    by (simp add: core_failed_def thread_at_def threads)
  ultimately show ?thesis
    using interrupt_stops_aegis [OF run] by metis
qed

text \<open>Two scrapes, the second with the cores at work between its loads.\<close>

definition two_scrapes :: "aegis_event list" where
  "two_scrapes = [CoreStart 0 (\<lambda>_. True), MetricsBind True, ScrapeLoad, ScrapeLoad, ScrapeLoad,
     CoreEvent 0 AcceptOk, CoreEvent 0 (FirstPoll 0), CoreEvent 0 (ConnectDone 0 True), ScrapeLoad,
     CoreEvent 0 (ClientRead 0 (Some [71, 69, 84])), CoreEvent 0 (BackendWritten 0 True),
     CoreEvent 0 (BackendRead 0 (Some [79, 75])), ScrapeLoad, CoreEvent 0 (ClientWritten 0 True), ScrapeLoad]"

theorem metrics_never_decrease_witness:
  "\<exists>outs s. aegis_run (\<lambda>_ d. d) two_scrapes (aegis_new 1) = Inr (outs, s) \<and> scrapes outs = [(0, 0, 0), (1, 5, 1)] \<and>
     sorted (map (\<lambda>(conns, sent, reqs). sent) (scrapes outs))"
proof -
  obtain outs s where run: "aegis_run (\<lambda>_ d. d) two_scrapes (aegis_new 1) = Inr (outs, s)"
    and outs: "outs = [MetricsServed 0 0 0, Proxied 0 (ToBackend 0 0 [71, 69, 84]), Proxied 0 (ToClient 0 0 [79, 75]), MetricsServed 1 5 1]"
    by (simp add: two_scrapes_def aegis_eval telemetry_new_def guard_new_def guard_drop_def count_bytes_def
        BUFFER_SIZE_def MAX_HOT_PIPES_def POOL_CAPACITY_def)
  have "length two_scrapes < 2 ^ 64" and "relayed (map snd (proxied outs)) < 2 ^ 64"
    by (simp_all add: two_scrapes_def outs relayed_def)
  with metrics_never_decrease [OF _ run] run show ?thesis
    by (intro exI [of _ outs] exI [of _ s]) (auto simp: outs)
qed

end
