(* ===== verification/Celer_Browser.thy ===== *)
theory Celer_Browser
  imports Pipeline "HOL-Library.Sublist"
begin

text \<open>
  The last stage of the pipeline: from the readings CELER broadcasts to the messages a browser gets.
  The broadcast channel is \<^verbatim>\<open>tokio::sync::broadcast\<close>; what its documentation promises of the
  results of \<^verbatim>\<open>recv\<close> is the predicate \<open>recv_trace\<close>.
\<close>

section \<open>The channel, as documented\<close>

text \<open>
  A receiver gets the values sent after it subscribed, in their order. One that has fallen behind by more
  than the capacity is told how many of the oldest it has missed, and goes on with the next; the
  channel is closed for it once no value is left and no sender.
\<close>

fun recv_trace :: "precision_event list \<Rightarrow> recv_result list \<Rightarrow> bool" where
  "recv_trace sent [] \<longleftrightarrow> True"
| "recv_trace sent (RecvOk e # rs) \<longleftrightarrow> sent \<noteq> [] \<and> e = hd sent \<and> recv_trace (tl sent) rs"
| "recv_trace sent (RecvLagged k # rs) \<longleftrightarrow> k \<le> length sent \<and> recv_trace (drop k sent) rs"
| "recv_trace sent (RecvClosed # rs) \<longleftrightarrow> sent = [] \<and> rs = []"

fun missed :: "recv_result list \<Rightarrow> nat" where
  "missed [] = 0"
| "missed (RecvLagged k # rs) = k + missed rs"
| "missed (_ # rs) = missed rs"

fun got :: "recv_result list \<Rightarrow> precision_event list" where
  "got [] = []"
| "got (RecvOk e # rs) = e # got rs"
| "got (_ # rs) = got rs"

lemma recv_trace_got:
  "recv_trace sent rs \<Longrightarrow> subseq (got rs) sent \<and> length (got rs) + missed rs \<le> length sent \<and>
     (missed rs = 0 \<longrightarrow> prefix (got rs) sent)"
proof (induction sent rs rule: recv_trace.induct)
  case (2 sent e rs)
  then show ?case by (cases sent) auto
next
  case (3 sent k rs)
  then have "subseq (got rs) (drop k sent)" by simp
  moreover have "subseq (drop k sent) sent"
    by (metis append_take_drop_id list_emb_append2 subseq_order.order_refl)
  ultimately have "subseq (got rs) sent"
    by (rule subseq_order.order_trans)
  with 3 show ?case by auto
qed auto

section \<open>The forwarding loop on it\<close>

lemma forward_while_up:
  "recv_trace sent (map fst items) \<Longrightarrow> list_all snd items \<Longrightarrow>
   fst (ws_forward to_json items) = List.map_filter to_json (got (map fst items))"
proof (induction items arbitrary: sent)
  case (Cons i items)
  obtain r where i: "i = (r, True)"
    using Cons.prems(2) by (cases i) simp
  show ?case
  proof (cases r)
    case (RecvOk e)
    with Cons i show ?thesis
      by (auto simp: List.map_filter_simps split: option.split prod.split)
  next
    case (RecvLagged k)
    with Cons i show ?thesis by auto
  next
    case RecvClosed
    with Cons i show ?thesis by (auto simp: List.map_filter_simps)
  qed
qed (simp add: List.map_filter_simps)

text \<open>A message per reading and none else, and the loop goes on, however far it falls behind.\<close>

lemma forward_goes_on: "list_all snd items \<Longrightarrow> RecvClosed \<notin> fst ` set items \<Longrightarrow> \<not> snd (ws_forward to_json items)"
proof (induction items)
  case (Cons i items)
  then show ?case
    by (cases i; cases "fst i") (auto split: option.split prod.split)
qed simp

section \<open>From the pen to the browser\<close>

text \<open>What the state machines measure of a list of strokes, from a fresh pool.\<close>

definition measured :: "hypot_fun \<Rightarrow> stroke_event list \<Rightarrow> precision_event list" where
  "measured hypot es = (case process_strokes hypot es initial_pool of Inr (readings, _) \<Rightarrow> readings | Inl _ \<Rightarrow> [])"

text \<open>
  From the pen to one browser. A page sends any frames (at most a ring full of strokes), CELER polls
  the ring any number of times, and another page listens since the \<open>j\<close>-th reading: it gets, each as one
  message and in order, readings measured of the strokes sent, leaving out as many as the channel says
  it missed at most; and all of them, from the \<open>j\<close>-th on, if it missed none and has read to the end.
\<close>

lemma page_to_browser:
  assumes "readings = measured hypot (take n (session_strokes sid msgs))"
    and "length (session_strokes sid msgs) \<le> capacity"
    and "recv_trace (drop j readings) (map fst items)" and "list_all snd items"
  shows "\<exists>outs p r ress ce r' seen.
     session_loop sid msgs AegisProducer_new zeroed_ring = Inr (outs, p, r) \<and>
     celer_polls hypot n celer_new r = Inr (ress, ce, r') \<and> readings_of ress = readings \<and>
     fst (ws_forward to_json items) = List.map_filter to_json seen \<and> subseq seen (drop j readings) \<and>
     length seen + missed (map fst items) \<le> length (drop j readings) \<and>
     (missed (map fst items) = 0 \<and> length (got (map fst items)) = length (drop j readings) \<longrightarrow> seen = drop j readings)"
proof -
  obtain outs p r where sent: "session_loop sid msgs AegisProducer_new zeroed_ring = Inr (outs, p, r)"
    and inv: "spsc_inv p CelerConsumer_new r" and q: "queue_of r = session_strokes sid msgs"
    using session_injects [OF spsc_inv_new, of sid msgs] assms(2) by auto
  have "spsc_inv p (ce_consumer celer_new) r"
    using inv by (simp add: celer_new_def)
  from celer_polls_queue [OF this, of hypot n] obtain ress ce r' where
    polls: "celer_polls hypot n celer_new r = Inr (ress, ce, r')"
    and "process_strokes hypot (take n (session_strokes sid msgs)) initial_pool = Inr (readings_of ress, ce_pool ce)"
    by (auto simp: q celer_new_def simp del: length_queue_of)
  then have "readings_of ress = readings"
    by (simp add: assms(1) measured_def)
  moreover have all: "got (map fst items) = drop j readings"
    if "missed (map fst items) = 0" and len: "length (got (map fst items)) = length (drop j readings)"
  proof -
    obtain zs where zs: "drop j readings = got (map fst items) @ zs"
      using recv_trace_got [OF assms(3)] \<open>missed (map fst items) = 0\<close> by (auto simp: prefix_def)
    have "length zs = 0"
      using len unfolding zs by simp
    with zs show ?thesis by simp
  qed
  ultimately show ?thesis
    using sent polls forward_while_up [OF assms(3,4), of to_json] recv_trace_got [OF assms(3)]
    by (intro exI [of _ outs] exI [of _ p] exI [of _ r] exI [of _ ress] exI [of _ ce] exI [of _ r']
        exI [of _ "got (map fst items)"] conjI impI) simp_all
qed

text \<open>The dot and the move of the page's stroke give one reading, and one message.\<close>

lemma page_to_browser_example:
  "\<exists>outs p r ress ce r' e. session_loop 7 page_stroke AegisProducer_new zeroed_ring = Inr (outs, p, r) \<and>
     celer_polls (\<lambda>a b. a) 2 celer_new r = Inr (ress, ce, r') \<and> readings_of ress = [e] \<and> pe_speed e = F5 \<and>
     fst (ws_forward (\<lambda>_. Some ''reading'') [(RecvOk e, True), (RecvClosed, True)]) = [''reading'']"
proof -
  let ?e = "\<lambda>x a. build_event 7 sample_env \<lparr>ps_x = x, ps_y = F0, ps_pressure = 0x3F800000, ps_action = a\<rparr>"
  let ?p = "\<lparr>pe_session_id = 7, pe_precision = smooth (instant_precision F5) F100, pe_speed = F5\<rparr>"
  have acts: "known_action ACTION_DOWN" "known_action ACTION_MOVE"
    by (simp_all add: known_action_def)
  have strokes: "session_strokes 7 page_stroke = [?e F0 ACTION_DOWN, ?e F5 ACTION_MOVE]"
    unfolding page_stroke_def session_strokes.simps parse_action [OF acts(1)] parse_action [OF acts(2)]
    using message_goes_on acts by simp
  have f5: "f32_sub F5 F0 = F5" "f32_gt F5 F0"
    by (simp_all add: F5_def F0_def f32_eval)
  have readings: "measured (\<lambda>a b. a) (take 2 (session_strokes 7 page_stroke)) = [?p]"
    by (simp add: strokes measured_def process_stroke_eq fsm_step_def stroke_move_def stroke_down_def build_event_def
        action_defs f5 Let_def)
  have "recv_trace (drop 0 [?p]) (map fst [(RecvOk ?p, True), (RecvClosed, True)])"
    by simp
  from page_to_browser [OF readings [symmetric] _ this, of "\<lambda>_. Some ''reading''"]
  obtain outs p r ress ce r' where "session_loop 7 page_stroke AegisProducer_new zeroed_ring = Inr (outs, p, r)"
    "celer_polls (\<lambda>a b. a) 2 celer_new r = Inr (ress, ce, r')" "readings_of ress = [?p]"
    by (auto simp: strokes)
  then show ?thesis
    by (intro exI [of _ outs] exI [of _ p] exI [of _ r] exI [of _ ress] exI [of _ ce] exI [of _ r'] exI [of _ ?p]) simp
qed

end
