(* ===== verification/Celer_Main.thy ===== *)
theory Celer_Main
  imports Celer_Browser Ipc_Bridge
begin

text \<open>
  The process of CELER as a whole: \<^verbatim>\<open>main\<close> of \<^verbatim>\<open>celer/src/main.rs\<close>. The display thread, the thread
  that takes the ring over from AEGIS and drains it, and the server with a forwarding loop per
  browser, in any interleaving with each other and with the pushes of AEGIS.
\<close>

section \<open>State\<close>

text \<open>
  The broadcast channel is \<^verbatim>\<open>tokio\<close>'s, a parameter: what a receiver is given next, from whether a sender
  is left, the values sent so far and how many of them the receiver is past. Its documentation
  promises the next value while it is among the last \<open>cap\<close>, a count of values skipped otherwise, and
  the end only when no sender is left. \<^const>\<open>None\<close> is to wait.
\<close>

type_synonym recv_fun = "bool \<Rightarrow> precision_event list \<Rightarrow> nat \<Rightarrow> recv_result option"

definition broadcast_recv :: "nat \<Rightarrow> recv_fun \<Rightarrow> bool" where
  "broadcast_recv cap recv \<longleftrightarrow> (\<forall>senders sent cursor. case recv senders sent cursor of
     None \<Rightarrow> length sent \<le> cursor \<and> senders
   | Some (RecvOk e) \<Rightarrow> cursor < length sent \<and> e = sent ! cursor
   | Some (RecvLagged k) \<Rightarrow> cursor + cap < length sent \<and> cursor + k \<le> length sent
   | Some RecvClosed \<Rightarrow> length sent \<le> cursor \<and> \<not> senders)"

lemma broadcast_recvD:
  "broadcast_recv cap recv \<Longrightarrow> recv senders sent cursor = None \<Longrightarrow> length sent \<le> cursor \<and> senders"
  "broadcast_recv cap recv \<Longrightarrow> recv senders sent cursor = Some (RecvOk e) \<Longrightarrow> cursor < length sent \<and> e = sent ! cursor"
  "broadcast_recv cap recv \<Longrightarrow> recv senders sent cursor = Some (RecvLagged k) \<Longrightarrow>
     cursor + cap < length sent \<and> cursor + k \<le> length sent"
  "broadcast_recv cap recv \<Longrightarrow> recv senders sent cursor = Some RecvClosed \<Longrightarrow> length sent \<le> cursor \<and> \<not> senders"
  unfolding broadcast_recv_def
  by (drule spec [of _ senders], drule spec [of _ sent], drule spec [of _ cursor], simp)+

definition TX_CAPACITY :: nat where "TX_CAPACITY = 2048"

text \<open>\<open>br_from\<close> is how much had been sent when the browser's receiver subscribed.\<close>

record browser =
  br_from :: nat
  br_cursor :: nat
  br_open :: bool

datatype ipc_thread =
    IpcStarting
  | Draining celer
  | IpcPanicked u64 \<comment> \<open>the events it had processed\<close>

datatype hud_thread = HudUp u64 | HudPanicked
datatype server = ServerStarting | Serving_ws | ServerFailed

text \<open>The ring and the handle of its producer belong to AEGIS; \<open>cp_sent\<close> is everything sent on the channel.\<close>

record celer_process =
  cp_server :: server
  cp_hud :: hud_thread
  cp_ipc :: ipc_thread
  cp_sent :: "precision_event list"
  cp_browsers :: "browser list"
  cp_producer :: aegis_producer
  cp_ring :: shared_ring

definition celer_process_new :: celer_process where
  "celer_process_new = \<lparr>cp_server = ServerStarting, cp_hud = HudUp 0, cp_ipc = IpcStarting, cp_sent = [],
     cp_browsers = [], cp_producer = AegisProducer_new, cp_ring = zeroed_ring\<rparr>"

datatype celer_event =
    AegisPush stroke_event
  | IpcStart bool bool "control_message list option" "int \<Rightarrow> mapping option"
  | IpcPoll
  | ServerBind bool
  | BrowserConnect
  | BrowserTurn nat bool \<comment> \<open>whether a message can still be sent to it\<close>
  | HudTick bool bool \<comment> \<open>whether the clock has moved, and the terminal can be written\<close>

datatype celer_output =
    Taken stroke_event \<comment> \<open>by the ring, from AEGIS\<close>
  | Forwarded nat "recv_result \<times> bool" "string list"
  | HudShows u64

section \<open>Steps\<close>

text \<open>A push of AEGIS; a fault in it would be one of that process, and \<open>engine_push\<close> shows there is none.\<close>

definition aegis_push :: "stroke_event \<Rightarrow> celer_process \<Rightarrow> celer_output list \<times> celer_process" where
  "aegis_push e s =
     (case push e (cp_producer s) (cp_ring s) of
        Inl f \<Rightarrow> ([], s)
      | Inr (res, p, r) \<Rightarrow>
          (case res of Inl m \<Rightarrow> [] | Inr _ \<Rightarrow> [Taken e], s\<lparr>cp_producer := p, cp_ring := r\<rparr>))"

definition ipc_start ::
    "bool \<Rightarrow> bool \<Rightarrow> control_message list option \<Rightarrow> (int \<Rightarrow> mapping option) \<Rightarrow> celer_process \<Rightarrow> celer_process" where
  "ipc_start bind_ok accept_ok msg map_fd s =
     (if cp_ipc s = IpcStarting
      then s\<lparr>cp_ipc := (case celer_ipc_start bind_ok accept_ok msg map_fd of
               Inl panic \<Rightarrow> IpcPanicked 0 | Inr mmap \<Rightarrow> Draining celer_new)\<rparr>
      else s)"

text \<open>One turn of the hot loop; the send to the channel is ignored when nobody listens.\<close>

definition ipc_poll :: "hypot_fun \<Rightarrow> celer_process \<Rightarrow> celer_process" where
  "ipc_poll hypot s =
     (case cp_ipc s of
        Draining ce \<Rightarrow>
          (case celer_poll hypot ce (cp_ring s) of
             Inl f \<Rightarrow> s\<lparr>cp_ipc := IpcPanicked (ce_processed ce)\<rparr>
           | Inr (res, ce', r) \<Rightarrow>
               s\<lparr>cp_ipc := Draining ce', cp_ring := r,
                 cp_sent := cp_sent s @ readings_of (case res of None \<Rightarrow> [] | Some p \<Rightarrow> [p])\<rparr>)
      | _ \<Rightarrow> s)"

definition processed :: "celer_process \<Rightarrow> u64" where
  "processed s = (case cp_ipc s of IpcStarting \<Rightarrow> 0 | Draining ce \<Rightarrow> ce_processed ce | IpcPanicked n \<Rightarrow> n)"

definition server_bind :: "bool \<Rightarrow> celer_process \<Rightarrow> celer_process" where
  "server_bind ok s =
     (if cp_server s = ServerStarting then s\<lparr>cp_server := if ok then Serving_ws else ServerFailed\<rparr> else s)"

definition browser_connect :: "celer_process \<Rightarrow> celer_process" where
  "browser_connect s =
     (if cp_server s = Serving_ws
      then s\<lparr>cp_browsers := cp_browsers s @ [\<lparr>br_from = length (cp_sent s), br_cursor = length (cp_sent s), br_open = True\<rparr>]\<rparr>
      else s)"

text \<open>The server holds a sender for the browsers to come, the thread of the hot loop another.\<close>

definition senders_left :: "celer_process \<Rightarrow> bool" where
  "senders_left s \<longleftrightarrow> cp_server s \<noteq> ServerFailed \<or> (case cp_ipc s of IpcPanicked n \<Rightarrow> False | _ \<Rightarrow> True)"

definition past_result :: "recv_result \<Rightarrow> nat" where
  "past_result r = (case r of RecvOk e \<Rightarrow> 1 | RecvLagged k \<Rightarrow> k | RecvClosed \<Rightarrow> 0)"

definition browser_turn ::
    "(precision_event \<Rightarrow> string option) \<Rightarrow> recv_fun \<Rightarrow> nat \<Rightarrow> bool \<Rightarrow> celer_process \<Rightarrow> celer_output list \<times> celer_process" where
  "browser_turn to_json recv b up s =
     (if b < length (cp_browsers s) \<and> br_open (cp_browsers s ! b) \<and> cp_server s = Serving_ws
      then (let br = cp_browsers s ! b in
        case recv (senders_left s) (cp_sent s) (br_cursor br) of
          None \<Rightarrow> ([], s)
        | Some res \<Rightarrow>
            (let (msgs, ended) = ws_forward to_json [(res, up)] in
             ([Forwarded b (res, up) msgs],
              s\<lparr>cp_browsers := (cp_browsers s)[b := br\<lparr>br_cursor := br_cursor br + past_result res, br_open := \<not> ended\<rparr>]\<rparr>)))
      else ([], s))"

definition hud_tick_celer :: "bool \<Rightarrow> bool \<Rightarrow> celer_process \<Rightarrow> celer_output list \<times> celer_process" where
  "hud_tick_celer moved ok s =
     (case cp_hud s of
        HudPanicked \<Rightarrow> ([], s)
      | HudUp last_count \<Rightarrow>
          (if \<not> moved then ([], s\<lparr>cp_hud := HudUp (processed s)\<rparr>)
           else if ok then ([HudShows (hud_delta (processed s) last_count)], s\<lparr>cp_hud := HudUp (processed s)\<rparr>)
           else ([], s\<lparr>cp_hud := HudPanicked\<rparr>)))"

text \<open>A server that cannot have its port panics on the main thread, and the process ends.\<close>

fun celer_main_step ::
    "hypot_fun \<Rightarrow> (precision_event \<Rightarrow> string option) \<Rightarrow> recv_fun \<Rightarrow> celer_event \<Rightarrow> celer_process \<Rightarrow>
     celer_output list \<times> celer_process" where
  "celer_main_step hypot to_json recv (AegisPush e) s = aegis_push e s"
| "celer_main_step hypot to_json recv ev s =
     (if cp_server s = ServerFailed then ([], s)
      else case ev of
        IpcStart bind_ok accept_ok msg map_fd \<Rightarrow> ([], ipc_start bind_ok accept_ok msg map_fd s)
      | IpcPoll \<Rightarrow> ([], ipc_poll hypot s)
      | ServerBind ok \<Rightarrow> ([], server_bind ok s)
      | BrowserConnect \<Rightarrow> ([], browser_connect s)
      | BrowserTurn b up \<Rightarrow> browser_turn to_json recv b up s
      | HudTick moved ok \<Rightarrow> hud_tick_celer moved ok s
      | AegisPush e \<Rightarrow> ([], s))"

fun celer_main_run ::
    "hypot_fun \<Rightarrow> (precision_event \<Rightarrow> string option) \<Rightarrow> recv_fun \<Rightarrow> celer_event list \<Rightarrow> celer_process \<Rightarrow>
     celer_output list \<times> celer_process" where
  "celer_main_run hypot to_json recv [] s = ([], s)"
| "celer_main_run hypot to_json recv (ev # evs) s =
     (case celer_main_step hypot to_json recv ev s of
        (outs, s1) \<Rightarrow> (case celer_main_run hypot to_json recv evs s1 of (outs', s2) \<Rightarrow> (outs @ outs', s2)))"

lemmas celer_main_defs [handle_defs] = aegis_push_def ipc_start_def ipc_poll_def server_bind_def browser_connect_def
  browser_turn_def hud_tick_celer_def

section \<open>The log of a run\<close>

fun accepted_events :: "celer_output list \<Rightarrow> stroke_event list" where
  "accepted_events [] = []"
| "accepted_events (Taken e # outs) = e # accepted_events outs"
| "accepted_events (_ # outs) = accepted_events outs"

fun items_of :: "nat \<Rightarrow> celer_output list \<Rightarrow> (recv_result \<times> bool) list" where
  "items_of b [] = []"
| "items_of b (Forwarded b' item msgs # outs) = (if b' = b then item # items_of b outs else items_of b outs)"
| "items_of b (_ # outs) = items_of b outs"

fun messages_of :: "nat \<Rightarrow> celer_output list \<Rightarrow> string list" where
  "messages_of b [] = []"
| "messages_of b (Forwarded b' item msgs # outs) = (if b' = b then msgs @ messages_of b outs else messages_of b outs)"
| "messages_of b (_ # outs) = messages_of b outs"

lemma log_append [simp]:
  "accepted_events (xs @ ys) = accepted_events xs @ accepted_events ys"
  "items_of b (xs @ ys) = items_of b xs @ items_of b ys"
  "messages_of b (xs @ ys) = messages_of b xs @ messages_of b ys"
proof -
  show "accepted_events (xs @ ys) = accepted_events xs @ accepted_events ys"
    by (induction xs rule: accepted_events.induct) simp_all
  show "items_of b (xs @ ys) = items_of b xs @ items_of b ys"
    by (induction b xs rule: items_of.induct) simp_all
  show "messages_of b (xs @ ys) = messages_of b xs @ messages_of b ys"
    by (induction b xs rule: messages_of.induct) simp_all
qed

section \<open>The hot loop and its ring\<close>

definition celer_of :: "celer_process \<Rightarrow> celer" where
  "celer_of s = (case cp_ipc s of Draining ce \<Rightarrow> ce | _ \<Rightarrow> celer_new)"

text \<open>The events taken by the ring are those measured and those still in it.\<close>

definition engine_inv :: "hypot_fun \<Rightarrow> celer_output list \<Rightarrow> celer_process \<Rightarrow> bool" where
  "engine_inv hypot outs s \<longleftrightarrow> (\<exists>drained.
     accepted_events outs = drained @ queue_of (cp_ring s) \<and>
     process_strokes hypot drained initial_pool = Inr (cp_sent s, ce_pool (celer_of s)) \<and>
     spsc_inv (cp_producer s) (ce_consumer (celer_of s)) (cp_ring s) \<and>
     processed s = of_nat (length drained) \<and> ((\<forall>ce. cp_ipc s \<noteq> Draining ce) \<longrightarrow> drained = []))"

lemma process_strokes_snoc:
  "process_strokes hypot es pool = Inr (outs, pool1) \<Longrightarrow> process_stroke hypot e pool1 = Inr (out, pool2) \<Longrightarrow>
   process_strokes hypot (es @ [e]) pool = Inr (outs @ (case out of None \<Rightarrow> [] | Some p \<Rightarrow> [p]), pool2)"
  by (induction es arbitrary: pool outs) (auto split: sum.splits option.splits)

lemma engine_inv_frame:
  assumes "engine_inv hypot outs s" and "cp_ring s' = cp_ring s" and "cp_sent s' = cp_sent s"
    and "cp_producer s' = cp_producer s" and "cp_ipc s' = cp_ipc s" and "accepted_events new = []"
  shows "engine_inv hypot (outs @ new) s'"
  using assms by (simp add: engine_inv_def celer_of_def processed_def)

lemma engine_push:
  assumes inv: "engine_inv hypot outs s" and step: "aegis_push e s = (new, s')"
  shows "engine_inv hypot (outs @ new) s'"
proof -
  obtain drained where drained: "accepted_events outs = drained @ queue_of (cp_ring s)"
    and spsc: "spsc_inv (cp_producer s) (ce_consumer (celer_of s)) (cp_ring s)"
    and rest: "process_strokes hypot drained initial_pool = Inr (cp_sent s, ce_pool (celer_of s))"
      "processed s = of_nat (length drained)" "(\<forall>ce. cp_ipc s \<noteq> Draining ce) \<longrightarrow> drained = []"
    using inv by (auto simp: engine_inv_def)
  obtain p r where "push e (cp_producer s) (cp_ring s) =
      Inr (if length (queue_of (cp_ring s)) < capacity then Inr () else Inl queue_full, p, r)"
    and "queue_of r = queue_of (cp_ring s) @ (if length (queue_of (cp_ring s)) < capacity then [e] else [])"
    and "spsc_inv p (ce_consumer (celer_of s)) r"
    using spsc by (rule push_on_queue)
  with step drained rest show ?thesis
    unfolding engine_inv_def
    by (intro exI [of _ drained])
       (auto simp: aegis_push_def celer_of_def processed_def simp del: length_queue_of split: if_splits)
qed

lemma engine_start:
  assumes "engine_inv hypot outs s"
  shows "engine_inv hypot outs (ipc_start bind_ok accept_ok msg map_fd s)"
proof (cases "cp_ipc s = IpcStarting")
  case True
  with assms show ?thesis
    by (cases "celer_ipc_start bind_ok accept_ok msg map_fd")
       (auto simp: engine_inv_def ipc_start_def celer_of_def processed_def celer_new_def)
qed (use assms in \<open>simp add: ipc_start_def\<close>)

lemma engine_poll:
  assumes inv: "engine_inv hypot outs s"
  shows "engine_inv hypot outs (ipc_poll hypot s)"
proof (cases "cp_ipc s")
  case (Draining ce)
  obtain drained where drained: "accepted_events outs = drained @ queue_of (cp_ring s)"
    and spsc: "spsc_inv (cp_producer s) (ce_consumer ce) (cp_ring s)"
    and strokes: "process_strokes hypot drained initial_pool = Inr (cp_sent s, ce_pool ce)"
    and count: "ce_processed ce = of_nat (length drained)"
    using inv Draining by (auto simp: engine_inv_def celer_of_def processed_def)
  show ?thesis
  proof (cases "queue_of (cp_ring s)")
    case Nil
    obtain c where "celer_poll hypot ce (cp_ring s) = Inr (None, ce\<lparr>ce_consumer := c\<rparr>, cp_ring s)"
      and "spsc_inv (cp_producer s) c (cp_ring s)"
      using spsc Nil by (rule celer_poll_idle)
    with Draining drained strokes count show ?thesis
      unfolding engine_inv_def
      by (intro exI [of _ drained]) (simp add: ipc_poll_def celer_of_def processed_def)
  next
    case (Cons e es)
    obtain out pool1 where ps: "process_stroke hypot e (ce_pool ce) = Inr (out, pool1)"
      by (simp add: process_stroke_eq)
    obtain c r where "celer_poll hypot ce (cp_ring s) = Inr (Some \<lparr>po_parent = parent_ctx e, po_reading = out\<rparr>,
        \<lparr>ce_consumer = c, ce_pool = pool1, ce_processed = ce_processed ce + 1\<rparr>, r)"
      and "queue_of r = es" and "spsc_inv (cp_producer s) c r"
      using spsc Cons ps by (rule celer_poll_event)
    with Draining drained count Cons process_strokes_snoc [OF strokes ps] show ?thesis
      unfolding engine_inv_def
      by (intro exI [of _ "drained @ [e]"])
         (simp add: ipc_poll_def celer_of_def processed_def split: option.split)
  qed
qed (use inv in \<open>simp_all add: ipc_poll_def\<close>)

text \<open>
  The hot loop never panics, so the thread has panicked only if the hand-over did, before any event.
\<close>

fun failed_start :: "celer_event \<Rightarrow> bool" where
  "failed_start (IpcStart bind_ok accept_ok msg map_fd) \<longleftrightarrow> isl (celer_ipc_start bind_ok accept_ok msg map_fd)"
| "failed_start _ \<longleftrightarrow> False"

definition start_inv :: "bool \<Rightarrow> celer_process \<Rightarrow> bool" where
  "start_inv failed s \<longleftrightarrow>
     ((\<forall>ce. cp_ipc s \<noteq> Draining ce) \<longrightarrow> cp_sent s = []) \<and> (\<forall>n. cp_ipc s = IpcPanicked n \<longrightarrow> n = 0 \<and> failed)"

lemma engine_never_faults:
  assumes "engine_inv hypot outs s" and "cp_ipc s = Draining ce"
  shows "\<not> isl (celer_poll hypot ce (cp_ring s))"
proof -
  have spsc: "spsc_inv (cp_producer s) (ce_consumer ce) (cp_ring s)"
    using assms by (auto simp: engine_inv_def celer_of_def)
  show ?thesis
  proof (cases "queue_of (cp_ring s)")
    case Nil
    from celer_poll_idle [OF spsc this] show ?thesis by (metis sum.disc(2))
  next
    case (Cons e es)
    obtain out pool1 where "process_stroke hypot e (ce_pool ce) = Inr (out, pool1)"
      by (simp add: process_stroke_eq)
    from celer_poll_event [OF spsc Cons this] show ?thesis by (metis sum.disc(2))
  qed
qed

section \<open>The browsers\<close>

definition passed :: "recv_result list \<Rightarrow> nat" where
  "passed rs = length (got rs) + missed rs"

lemma passed_simps [simp]: "passed [] = 0" "passed (r # rs) = past_result r + passed rs" "passed (rs @ qs) = passed rs + passed qs"
proof -
  show cons: "passed (r # rs) = past_result r + passed rs" for r rs
    by (cases r) (simp_all add: passed_def past_result_def)
  show "passed [] = 0"
    by (simp add: passed_def)
  then show "passed (rs @ qs) = passed rs + passed qs"
    by (induction rs) (simp_all add: cons)
qed

lemma recv_trace_snoc:
  "RecvClosed \<notin> set rs \<Longrightarrow> recv_trace sent (rs @ [r]) \<longleftrightarrow> recv_trace sent rs \<and> recv_trace (drop (passed rs) sent) [r]"
  by (induction sent rs rule: recv_trace.induct) (auto simp: past_result_def drop_Suc add.commute)

lemma recv_trace_more: "RecvClosed \<notin> set rs \<Longrightarrow> recv_trace sent rs \<Longrightarrow> recv_trace (sent @ added) rs"
  by (induction sent rs rule: recv_trace.induct) auto

lemma missed_append [simp]: "missed (rs @ qs) = missed rs + missed qs"
  by (induction rs rule: missed.induct) simp_all

lemma ws_forward_snoc:
  "\<not> snd (ws_forward to_json items) \<Longrightarrow> ws_forward to_json (items @ [i]) =
     (fst (ws_forward to_json items) @ fst (ws_forward to_json [i]), snd (ws_forward to_json [i]))"
  by (induction to_json items rule: ws_forward.induct) (auto split: option.splits prod.splits if_splits)

lemma forward_ends: "snd (ws_forward to_json items) \<Longrightarrow> RecvClosed \<notin> fst ` set items \<Longrightarrow> \<exists>i \<in> set items. \<not> snd i"
  using forward_goes_on [of items to_json] by (auto simp: list_all_iff)

definition browser_ok ::
    "(precision_event \<Rightarrow> string option) \<Rightarrow> precision_event list \<Rightarrow> (recv_result \<times> bool) list \<Rightarrow> string list \<Rightarrow> browser \<Rightarrow> bool" where
  "browser_ok to_json sent items msgs br \<longleftrightarrow>
     recv_trace (drop (br_from br) sent) (map fst items) \<and> RecvClosed \<notin> fst ` set items \<and>
     br_cursor br = br_from br + passed (map fst items) \<and> br_cursor br \<le> length sent \<and>
     ws_forward to_json items = (msgs, \<not> br_open br) \<and>
     (0 < missed (map fst items) \<longrightarrow> TX_CAPACITY < length sent)"

definition browsers_inv :: "(precision_event \<Rightarrow> string option) \<Rightarrow> celer_output list \<Rightarrow> celer_process \<Rightarrow> bool" where
  "browsers_inv to_json outs s \<longleftrightarrow>
     (\<forall>b < length (cp_browsers s). browser_ok to_json (cp_sent s) (items_of b outs) (messages_of b outs) (cp_browsers s ! b)) \<and>
     (\<forall>b \<ge> length (cp_browsers s). items_of b outs = [] \<and> messages_of b outs = [])"

lemma browser_ok_more: "browser_ok to_json sent items msgs br \<Longrightarrow> browser_ok to_json (sent @ added) items msgs br"
  by (auto simp: browser_ok_def intro!: recv_trace_more)

lemma browsers_inv_frame:
  assumes "browsers_inv to_json outs s" and "cp_browsers s' = cp_browsers s" and "cp_sent s' = cp_sent s @ added"
    and "\<And>b. items_of b new = []" and "\<And>b. messages_of b new = []"
  shows "browsers_inv to_json (outs @ new) s'"
  using assms by (simp add: browsers_inv_def browser_ok_more)

lemma browsers_connect: "browsers_inv to_json outs s \<Longrightarrow> browsers_inv to_json outs (browser_connect s)"
  by (auto simp: browsers_inv_def browser_connect_def browser_ok_def nth_append less_Suc_eq)

lemma browsers_turn:
  assumes inv: "browsers_inv to_json outs s" and recv: "broadcast_recv TX_CAPACITY recv"
    and step: "browser_turn to_json recv b up s = (new, s')"
  shows "browsers_inv to_json (outs @ new) s'"
proof (cases "b < length (cp_browsers s) \<and> br_open (cp_browsers s ! b) \<and> cp_server s = Serving_ws")
  case True
  let ?br = "cp_browsers s ! b"
  show ?thesis
  proof (cases "recv (senders_left s) (cp_sent s) (br_cursor ?br)")
    case None
    with True step inv show ?thesis by (simp add: browser_turn_def Let_def)
  next
    case (Some res)
    have ok: "browser_ok to_json (cp_sent s) (items_of b outs) (messages_of b outs) ?br"
      using inv True by (simp add: browsers_inv_def)
    have "senders_left s"
      using True by (simp add: senders_left_def)
    with recv Some have allowed: "case res of RecvOk e \<Rightarrow> br_cursor ?br < length (cp_sent s) \<and> e = cp_sent s ! br_cursor ?br
       | RecvLagged k \<Rightarrow> br_cursor ?br + TX_CAPACITY < length (cp_sent s) \<and> br_cursor ?br + k \<le> length (cp_sent s)
       | RecvClosed \<Rightarrow> False"
      by (cases res) (auto dest: broadcast_recvD)
    obtain msgs ended where msgs: "ws_forward to_json [(res, up)] = (msgs, ended)" by fastforce
    let ?br' = "?br\<lparr>br_cursor := br_cursor ?br + past_result res, br_open := \<not> ended\<rparr>"
    have new: "new = [Forwarded b (res, up) msgs]" and s': "s' = s\<lparr>cp_browsers := (cp_browsers s)[b := ?br']\<rparr>"
      using step True Some msgs by (simp_all add: browser_turn_def Let_def)
    have "browser_ok to_json (cp_sent s) (items_of b outs @ [(res, up)]) (messages_of b outs @ msgs) ?br'"
      using ok allowed True msgs ws_forward_snoc [of to_json "items_of b outs" "(res, up)"]
      by (cases res)
         (auto simp: browser_ok_def recv_trace_snoc past_result_def image_iff hd_drop_conv_nth ac_simps simp del: ws_forward.simps)
    with inv True show ?thesis
      by (auto simp: browsers_inv_def new s' nth_list_update)
  qed
next
  case False
  have "new = [] \<and> s' = s"
    using step unfolding browser_turn_def if_not_P [OF False] by simp
  with inv show ?thesis by simp
qed

section \<open>From the pen to every browser\<close>

lemma poll_sends: "\<exists>added. cp_browsers (ipc_poll hypot s) = cp_browsers s \<and> cp_sent (ipc_poll hypot s) = cp_sent s @ added"
proof (cases "cp_ipc s")
  case (Draining ce)
  then show ?thesis
    by (cases "celer_poll hypot ce (cp_ring s)") (auto simp: ipc_poll_def)
qed (simp_all add: ipc_poll_def)

lemma hud_frame:
  assumes "hud_tick_celer moved ok s = (new, s')"
  shows "cp_ring s' = cp_ring s" "cp_sent s' = cp_sent s" "cp_producer s' = cp_producer s" "cp_ipc s' = cp_ipc s"
    "cp_browsers s' = cp_browsers s" "accepted_events new = []" "items_of b new = []" "messages_of b new = []"
  using assms by (auto simp: hud_tick_celer_def split: if_splits hud_thread.splits)

lemma turn_frame:
  assumes "browser_turn to_json recv b up s = (new, s')"
  shows "cp_ring s' = cp_ring s" "cp_sent s' = cp_sent s" "cp_producer s' = cp_producer s" "cp_ipc s' = cp_ipc s"
    "accepted_events new = []"
  using assms by (auto simp: browser_turn_def Let_def split: if_splits option.splits prod.splits)

text \<open>A process that has ended takes no step of its own.\<close>

lemma celer_main_step_cases:
  assumes "celer_main_step hypot to_json recv ev s = (new, s')"
  obtains (push) e where "ev = AegisPush e" and "aegis_push e s = (new, s')"
    | (idle) "\<And>e. ev \<noteq> AegisPush e" and "new = []" and "s' = s"
    | (start) bind_ok accept_ok msg map_fd where "ev = IpcStart bind_ok accept_ok msg map_fd" and "new = []"
        and "s' = ipc_start bind_ok accept_ok msg map_fd s"
    | (poll) "ev = IpcPoll" and "new = []" and "s' = ipc_poll hypot s"
    | (bind) ok where "ev = ServerBind ok" and "new = []" and "s' = server_bind ok s"
    | (connect) "ev = BrowserConnect" and "new = []" and "s' = browser_connect s"
    | (turn) b up where "ev = BrowserTurn b up" and "browser_turn to_json recv b up s = (new, s')"
    | (hud) moved ok where "ev = HudTick moved ok" and "hud_tick_celer moved ok s = (new, s')"
proof (cases "cp_server s = ServerFailed")
  case True
  with assms push idle show thesis by (cases ev) auto
next
  case False
  with assms show thesis
    by (cases ev) (auto intro: push start poll bind connect turn hud)
qed

lemma engine_step [step_inv]:
  assumes inv: "engine_inv hypot outs s" and step: "celer_main_step hypot to_json recv ev s = (new, s')"
  shows "engine_inv hypot (outs @ new) s'"
  using step
proof (cases rule: celer_main_step_cases)
  case (push e)
  with inv show ?thesis by (blast intro: engine_push)
next
  case (start bind_ok accept_ok msg map_fd)
  with engine_start [OF inv] show ?thesis by simp
next
  case poll
  with engine_poll [OF inv] show ?thesis by simp
next
  case (bind ok)
  then show ?thesis
    by (intro engine_inv_frame [OF inv]) (simp_all add: server_bind_def)
next
  case connect
  then show ?thesis
    by (intro engine_inv_frame [OF inv]) (simp_all add: browser_connect_def)
next
  case (turn b up)
  from turn_frame [OF this(2)] show ?thesis
    by (intro engine_inv_frame [OF inv])
next
  case (hud moved ok)
  from hud_frame [OF this(2)] show ?thesis
    by (intro engine_inv_frame [OF inv])
qed (use inv in simp)

lemma browsers_step [step_inv]:
  assumes inv: "browsers_inv to_json outs s" and recv: "broadcast_recv TX_CAPACITY recv"
    and step: "celer_main_step hypot to_json recv ev s = (new, s')"
  shows "browsers_inv to_json (outs @ new) s'"
  using step
proof (cases rule: celer_main_step_cases)
  case (push e)
  then have "cp_browsers s' = cp_browsers s \<and> cp_sent s' = cp_sent s @ [] \<and> (\<forall>b. items_of b new = [] \<and> messages_of b new = [])"
    by (auto simp: aegis_push_def split: sum.splits)
  with browsers_inv_frame [OF inv] show ?thesis by blast
next
  case (start bind_ok accept_ok msg map_fd)
  then show ?thesis
    by (intro browsers_inv_frame [OF inv, where added = "[]"]) (simp_all add: ipc_start_def)
next
  case poll
  obtain added where "cp_browsers (ipc_poll hypot s) = cp_browsers s" "cp_sent (ipc_poll hypot s) = cp_sent s @ added"
    using poll_sends by blast
  with poll show ?thesis
    by (intro browsers_inv_frame [OF inv, where added = added]) simp_all
next
  case (bind ok)
  then show ?thesis
    by (intro browsers_inv_frame [OF inv, where added = "[]"]) (simp_all add: server_bind_def)
next
  case connect
  with browsers_connect [OF inv] show ?thesis by simp
next
  case (turn b up)
  with browsers_turn [OF inv recv] show ?thesis by blast
next
  case (hud moved ok)
  from hud_frame [OF this(2)] show ?thesis
    by (intro browsers_inv_frame [OF inv, where added = "[]"]) simp_all
qed (use inv in simp)

lemma start_step [step_inv]:
  assumes inv: "start_inv failed s" and step: "celer_main_step hypot to_json recv ev s = (new, s')"
    and ok: "\<And>ce. cp_ipc s = Draining ce \<Longrightarrow> \<not> isl (celer_poll hypot ce (cp_ring s))"
  shows "start_inv (failed \<or> failed_start ev) s'"
  using step
proof (cases rule: celer_main_step_cases)
  case (push e)
  with inv show ?thesis
    by (auto simp: start_inv_def aegis_push_def split: sum.splits)
next
  case (start bind_ok accept_ok msg map_fd)
  with inv show ?thesis
    by (auto simp: start_inv_def ipc_start_def split: sum.splits)
next
  case poll
  with inv ok show ?thesis
    by (cases "cp_ipc s") (auto simp: start_inv_def ipc_poll_def split: sum.splits)
next
  case (turn b up)
  from turn_frame [OF this(2)] inv show ?thesis
    by (simp add: start_inv_def)
next
  case (hud moved ok)
  from hud_frame [OF this(2)] inv show ?thesis
    by (simp add: start_inv_def)
qed (use inv in \<open>auto simp: start_inv_def server_bind_def browser_connect_def\<close>)

lemma start_inv_new: "start_inv False celer_process_new"
  by (simp add: start_inv_def celer_process_new_def)

lemma celer_main_run_starts:
  "engine_inv hypot hist s \<Longrightarrow> start_inv failed s \<Longrightarrow> celer_main_run hypot to_json recv evs s = (outs, s') \<Longrightarrow>
    start_inv (failed \<or> (\<exists>ev \<in> set evs. failed_start ev)) s'"
proof (induction evs arbitrary: hist s outs failed)
  case (Cons ev evs)
  obtain new s1 where step: "celer_main_step hypot to_json recv ev s = (new, s1)" by fastforce
  obtain outs' where run: "celer_main_run hypot to_json recv evs s1 = (outs', s')"
    using Cons.prems(3) step by (auto split: prod.splits)
  have "start_inv (failed \<or> failed_start ev) s1"
    using start_step [OF Cons.prems(2) step] engine_never_faults [OF Cons.prems(1)] by blast
  from Cons.IH [OF engine_step [OF Cons.prems(1) step] this run] show ?case
    by (simp add: disj_assoc)
qed simp

lemma celer_main_run_inv:
  assumes recv: "broadcast_recv TX_CAPACITY recv"
  shows "engine_inv hypot hist s \<Longrightarrow> browsers_inv to_json hist s \<Longrightarrow> celer_main_run hypot to_json recv evs s = (outs, s') \<Longrightarrow>
    engine_inv hypot (hist @ outs) s' \<and> browsers_inv to_json (hist @ outs) s'"
proof (induction evs arbitrary: hist s outs)
  case (Cons ev evs)
  obtain new s1 where step: "celer_main_step hypot to_json recv ev s = (new, s1)" by fastforce
  obtain outs' where run: "celer_main_run hypot to_json recv evs s1 = (outs', s')" and outs: "outs = new @ outs'"
    using Cons.prems(3) step by (auto split: prod.splits)
  from Cons.IH [OF engine_step [OF Cons.prems(1) step] browsers_step [OF Cons.prems(2) recv step] run] show ?case
    by (simp add: outs)
qed simp

lemma celer_main_inv_new: "engine_inv hypot [] celer_process_new" "browsers_inv to_json [] celer_process_new"
  by (simp_all add: engine_inv_def browsers_inv_def celer_process_new_def celer_of_def processed_def celer_new_def spsc_inv_new)

text \<open>What a browser has got of the values sent.\<close>

lemma browser_sees:
  assumes ok: "browser_ok to_json sent items msgs br" and recv: "broadcast_recv TX_CAPACITY recv"
  shows "subseq (got (map fst items)) (drop (br_from br) sent)"
    and "length (got (map fst items)) + missed (map fst items) \<le> length (drop (br_from br) sent)"
    and "length sent \<le> TX_CAPACITY \<Longrightarrow> missed (map fst items) = 0 \<and> prefix (got (map fst items)) (drop (br_from br) sent)"
    and "list_all snd items \<Longrightarrow> msgs = List.map_filter to_json (got (map fst items))"
    and "br_open br \<or> \<not> list_all snd items"
    and "recv True sent (br_cursor br) = None \<Longrightarrow>
      length (got (map fst items)) + missed (map fst items) = length (drop (br_from br) sent)"
    and "length (got (map fst items)) + missed (map fst items) + (length sent - br_cursor br) = length (drop (br_from br) sent)"
proof -
  have trace: "recv_trace (drop (br_from br) sent) (map fst items)" and not_closed: "RecvClosed \<notin> fst ` set items"
    and cursor: "br_cursor br = br_from br + passed (map fst items)"
    and msgs: "ws_forward to_json items = (msgs, \<not> br_open br)"
    and skipped: "0 < missed (map fst items) \<longrightarrow> TX_CAPACITY < length sent" and within: "br_cursor br \<le> length sent"
    using ok by (simp_all add: browser_ok_def)
  show "subseq (got (map fst items)) (drop (br_from br) sent)"
    and len: "length (got (map fst items)) + missed (map fst items) \<le> length (drop (br_from br) sent)"
    using recv_trace_got [OF trace] by simp_all
  show "missed (map fst items) = 0 \<and> prefix (got (map fst items)) (drop (br_from br) sent)" if "length sent \<le> TX_CAPACITY"
    using recv_trace_got [OF trace] skipped that by simp
  show "msgs = List.map_filter to_json (got (map fst items))" if "list_all snd items"
    using forward_while_up [OF trace that, of to_json] msgs by simp
  show "br_open br \<or> \<not> list_all snd items"
    using forward_ends [of to_json items] msgs not_closed by (auto simp: list_all_iff)
  show "length (got (map fst items)) + missed (map fst items) = length (drop (br_from br) sent)"
    if "recv True sent (br_cursor br) = None"
    using broadcast_recvD(1) [OF recv that] len by (simp add: cursor passed_def)
  show "length (got (map fst items)) + missed (map fst items) + (length sent - br_cursor br) = length (drop (br_from br) sent)"
    using within by (simp add: cursor passed_def)
qed

text \<open>
  C12: from the pen to every browser. However AEGIS pushes, CELER polls and browsers connect and read
  in between, on a channel that keeps what it documents, what is sent on the channel is what the state machines measure of the strokes the ring
  took, in their order, but for those still in the ring; CELER's hot loop never panics, its thread
  only if the hand-over of the ring failed, and then nothing is measured. A browser gets of the
  readings sent since it connected a subsequence, one message for each that serialises as long as messages
  can be sent, and the readings it has not got
  are in number exactly those the channel said it skipped (none as long as no more than 2048 have been
  sent) and those after its position in the channel, still to be read: none once it has to wait.
  Its loop ends only if a message cannot be sent.
\<close>

theorem browsers_follow_the_pen:
  assumes "broadcast_recv TX_CAPACITY recv" and "celer_main_run hypot to_json recv evs celer_process_new = (outs, s)"
    and "b < length (cp_browsers s)"
  shows "\<exists>n sent readings seen skipped unread. n \<le> length (accepted_events outs) \<and>
    drop n (accepted_events outs) = queue_of (cp_ring s) \<and> processed s = of_nat n \<and>
    (\<forall>m. cp_ipc s = IpcPanicked m \<longrightarrow> n = 0 \<and> (\<exists>ev \<in> set evs. failed_start ev)) \<and>
    sent = cp_sent s \<and> sent = measured hypot (take n (accepted_events outs)) \<and> readings = drop (br_from (cp_browsers s ! b)) sent \<and>
    seen = got (map fst (items_of b outs)) \<and> skipped = missed (map fst (items_of b outs)) \<and>
    unread = length sent - br_cursor (cp_browsers s ! b) \<and>
    (list_all snd (items_of b outs) \<longrightarrow> messages_of b outs = List.map_filter to_json seen) \<and>
    subseq seen readings \<and> length seen + skipped + unread = length readings \<and>
    (length sent \<le> TX_CAPACITY \<longrightarrow> skipped = 0 \<and> prefix seen readings) \<and>
    (br_open (cp_browsers s ! b) \<or> \<not> list_all snd (items_of b outs)) \<and>
    (recv True (cp_sent s) (br_cursor (cp_browsers s ! b)) = None \<longrightarrow> length seen + skipped = length readings)"
proof -
  have inv: "engine_inv hypot outs s" "browsers_inv to_json outs s"
    using celer_main_run_inv [OF assms(1) celer_main_inv_new assms(2)] by simp_all
  have started: "start_inv (\<exists>ev \<in> set evs. failed_start ev) s"
    using celer_main_run_starts [OF celer_main_inv_new(1) start_inv_new assms(2)] by simp
  obtain drained where drained: "accepted_events outs = drained @ queue_of (cp_ring s)"
    and strokes: "process_strokes hypot drained initial_pool = Inr (cp_sent s, ce_pool (celer_of s))"
    and count: "processed s = of_nat (length drained)" and none: "(\<forall>ce. cp_ipc s \<noteq> Draining ce) \<longrightarrow> drained = []"
    using inv(1) by (auto simp: engine_inv_def)
  have "cp_sent s = measured hypot (take (length drained) (accepted_events outs))"
    using drained strokes by (simp add: measured_def)
  moreover have "\<forall>m. cp_ipc s = IpcPanicked m \<longrightarrow> length drained = 0 \<and> (\<exists>ev \<in> set evs. failed_start ev)"
    using started none by (auto simp: start_inv_def)
  moreover have "browser_ok to_json (cp_sent s) (items_of b outs) (messages_of b outs) (cp_browsers s ! b)"
    using inv(2) assms(3) by (simp add: browsers_inv_def)
  note browser_sees [OF this assms(1)]
  ultimately show ?thesis
    using drained count
    by (intro exI [of _ "length drained"] exI [of _ "cp_sent s"] exI [of _ "drop (br_from (cp_browsers s ! b)) (cp_sent s)"]
        exI [of _ "got (map fst (items_of b outs))"] exI [of _ "missed (map fst (items_of b outs))"]
        exI [of _ "length (cp_sent s) - br_cursor (cp_browsers s ! b)"]) simp
qed

section \<open>A failed hand-over\<close>

text \<open>
  Once the thread that takes over the ring has panicked nothing is ever measured; the server goes on,
  and every browser waits on an open connection.
\<close>

lemma silent_step:
  assumes "cp_ipc s = IpcPanicked n" and "cp_sent s = []" and "list_all (\<lambda>br. br_open br \<and> br_cursor br = 0) (cp_browsers s)"
    and recv: "broadcast_recv TX_CAPACITY recv" and step: "celer_main_step hypot to_json recv ev s = (new, s')"
  shows "cp_ipc s' = IpcPanicked n \<and> cp_sent s' = [] \<and> list_all (\<lambda>br. br_open br \<and> br_cursor br = 0) (cp_browsers s') \<and>
    (\<forall>b. items_of b new = [])"
proof (cases ev)
  case (BrowserTurn b up)
  have "recv True [] 0 = None"
    using broadcast_recvD(2-4) [OF recv, of True "[]" 0]
    by (cases "recv True [] 0"; cases "the (recv True [] 0)") auto
  moreover have "senders_left s" if "cp_server s = Serving_ws"
    using that by (simp add: senders_left_def)
  ultimately show ?thesis
    using assms(1-3) step BrowserTurn
    by (auto simp: browser_turn_def Let_def list_all_length split: if_splits)
qed (use assms in \<open>auto simp: aegis_push_def ipc_start_def ipc_poll_def server_bind_def browser_connect_def hud_tick_celer_def
      split: if_splits sum.splits hud_thread.splits\<close>)

lemma silent_run:
  assumes recv: "broadcast_recv TX_CAPACITY recv"
  shows "cp_ipc s = IpcPanicked n \<Longrightarrow> cp_sent s = [] \<Longrightarrow> list_all (\<lambda>br. br_open br \<and> br_cursor br = 0) (cp_browsers s) \<Longrightarrow>
    celer_main_run hypot to_json recv evs s = (outs, s') \<Longrightarrow>
    cp_sent s' = [] \<and> list_all br_open (cp_browsers s') \<and> items_of b outs = []"
proof (induction evs arbitrary: s outs)
  case (Cons ev evs)
  obtain new s1 where step: "celer_main_step hypot to_json recv ev s = (new, s1)" by fastforce
  obtain outs' where run: "celer_main_run hypot to_json recv evs s1 = (outs', s')" and outs: "outs = new @ outs'"
    using Cons.prems(4) step by (auto split: prod.splits)
  from silent_step [OF Cons.prems(1-3) recv step] Cons.IH [OF _ _ _ run] show ?case by (simp add: outs)
qed (auto simp: list_all_iff)

section \<open>Example\<close>

text \<open>The channel as \<^verbatim>\<open>tokio\<close> has it: it keeps the last \<open>TX_CAPACITY\<close> values.\<close>

definition tokio_recv :: recv_fun where
  "tokio_recv senders sent cursor =
     (if length sent \<le> cursor then (if senders then None else Some RecvClosed)
      else if cursor + TX_CAPACITY < length sent then Some (RecvLagged (length sent - TX_CAPACITY - cursor))
      else Some (RecvOk (sent ! cursor)))"

lemma tokio_recv_ok: "broadcast_recv TX_CAPACITY tokio_recv"
  by (simp add: broadcast_recv_def tokio_recv_def)

definition one_browser :: "celer_event list" where
  "one_browser = [IpcStart True True (Some (send_fd 3)) (\<lambda>_. Some (0, shared_ring_size)), ServerBind True, BrowserConnect,
     AegisPush (stroke_at ACTION_DOWN F0), AegisPush (stroke_at ACTION_MOVE F1), IpcPoll, IpcPoll, BrowserTurn 0 True]"

lemma one_browser_run:
  "\<exists>outs s e. celer_main_run (\<lambda>_ _. F1) (\<lambda>_. Some ''reading'') tokio_recv one_browser celer_process_new = (outs, s) \<and>
     length (cp_browsers s) = 1 \<and> length (cp_sent s) \<le> TX_CAPACITY \<and> items_of 0 outs = [(RecvOk e, True)] \<and> pe_speed e = F1 \<and>
     messages_of 0 outs = [''reading'']"
proof -
  let ?d = "stroke_at ACTION_DOWN F0" and ?m = "stroke_at ACTION_MOVE F1"
  have gt: "f32_gt F1 F0" "\<not> f32_gt F1 F5"
    by (simp_all add: F0_def F1_def F5_def f32_eval)
  have cap: "0 < capacity" "1 < capacity"
    by simp_all
  obtain p1 r1 where push1: "push ?d AegisProducer_new zeroed_ring = Inr (Inr (), p1, r1)"
    and q1: "queue_of r1 = [?d]" and i1: "spsc_inv p1 CelerConsumer_new r1"
    using push_on_queue [OF spsc_inv_new, of ?d] cap(1) by auto
  obtain p2 r2 where push2: "push ?m p1 r1 = Inr (Inr (), p2, r2)"
    and q2: "queue_of r2 = [?d, ?m]" and i2: "spsc_inv p2 CelerConsumer_new r2"
    using push_on_queue [OF i1, of ?m] cap(2) by (auto simp: q1 simp del: length_queue_of)
  let ?pool1 = "initial_pool(session_slot 1 := snd (fsm_step (\<lambda>_ _. F1) ?d (initial_pool (session_slot 1))))"
  note eval = process_stroke_eq fsm_step_def stroke_move_def stroke_down_def stroke_at_def sample_event_def action_defs gt Let_def
  have ps1: "process_stroke (\<lambda>_ _. F1) ?d (ce_pool celer_new) = Inr (None, ?pool1)"
    by (simp add: eval celer_new_def)
  obtain e pool2 where ps2: "process_stroke (\<lambda>_ _. F1) ?m ?pool1 = Inr (Some e, pool2)" and e: "pe_speed e = F1"
    by (simp add: eval)
  have i2': "spsc_inv p2 (ce_consumer celer_new) r2"
    using i2 by (simp add: celer_new_def)
  obtain c3 r3 where poll1: "celer_poll (\<lambda>_ _. F1) celer_new r2 = Inr (Some \<lparr>po_parent = parent_ctx ?d, po_reading = None\<rparr>,
      \<lparr>ce_consumer = c3, ce_pool = ?pool1, ce_processed = ce_processed celer_new + 1\<rparr>, r3)"
    and q3: "queue_of r3 = [?m]" and i3: "spsc_inv p2 c3 r3"
    using i2' q2 ps1 by (rule celer_poll_event)
  let ?ce = "\<lparr>ce_consumer = c3, ce_pool = ?pool1, ce_processed = ce_processed celer_new + 1\<rparr>"
  have i3': "spsc_inv p2 (ce_consumer ?ce) r3" and ps2': "process_stroke (\<lambda>_ _. F1) ?m (ce_pool ?ce) = Inr (Some e, pool2)"
    using i3 ps2 by simp_all
  obtain c4 r4 where poll2: "celer_poll (\<lambda>_ _. F1) ?ce r3 = Inr (Some \<lparr>po_parent = parent_ctx ?m, po_reading = Some e\<rparr>,
      \<lparr>ce_consumer = c4, ce_pool = pool2, ce_processed = ce_processed ?ce + 1\<rparr>, r4)"
    using i3' q3 ps2' by (rule celer_poll_event)
  have start: "celer_ipc_start True True (Some (send_fd 3)) (\<lambda>_. Some (0, shared_ring_size)) = Inr (0, shared_ring_size)"
    by (simp add: celer_ipc_start_def celer_bridge_def fd_passes)
  show ?thesis
    using poll1 poll2 e
    by (simp add: one_browser_def celer_process_new_def celer_main_defs start push1 push2 poll1 poll2 senders_left_def
        tokio_recv_def TX_CAPACITY_def Let_def)
qed

text \<open>A browser connects, AEGIS pushes a pen-down and a move, and the browser gets the one reading.\<close>

theorem browsers_follow_the_pen_witness:
  "\<exists>outs s e n. celer_main_run (\<lambda>_ _. F1) (\<lambda>_. Some ''reading'') tokio_recv one_browser celer_process_new = (outs, s) \<and>
     pe_speed e = F1 \<and> messages_of 0 outs = [''reading''] \<and>
     prefix [e] (drop (br_from (cp_browsers s ! 0)) (measured (\<lambda>_ _. F1) (take n (accepted_events outs))))"
proof -
  obtain outs s e where run: "celer_main_run (\<lambda>_ _. F1) (\<lambda>_. Some ''reading'') tokio_recv one_browser celer_process_new = (outs, s)"
    and one: "length (cp_browsers s) = 1" and items: "items_of 0 outs = [(RecvOk e, True)]" and e: "pe_speed e = F1"
    and msgs: "messages_of 0 outs = [''reading'']" and sent: "length (cp_sent s) \<le> TX_CAPACITY"
    using one_browser_run by blast
  have b: "0 < length (cp_browsers s)"
    by (simp add: one)
  obtain n sent readings seen where "sent = cp_sent s" and n: "sent = measured (\<lambda>_ _. F1) (take n (accepted_events outs))"
    and "readings = drop (br_from (cp_browsers s ! 0)) sent" and "seen = got (map fst (items_of 0 outs))"
    and "length sent \<le> TX_CAPACITY \<longrightarrow> prefix seen readings"
    using browsers_follow_the_pen [OF tokio_recv_ok run b] by blast
  then have "prefix (got (map fst (items_of 0 outs))) (drop (br_from (cp_browsers s ! 0)) (measured (\<lambda>_ _. F1) (take n (accepted_events outs))))"
    using sent by simp
  with run e msgs items show ?thesis
    by (intro exI [of _ outs] exI [of _ s] exI [of _ e] exI [of _ n]) simp
qed

end
