(* ===== verification/Ryu_System.thy ===== *)
theory Ryu_System
  imports Many_Sessions Celer_Main
begin

text \<open>
  AEGIS and CELER together, from every page that draws to every page that watches: the sessions of
  the dojo of AEGIS and the threads and browsers of CELER in any interleaving, on one ring in the
  memory they share.
\<close>

section \<open>The composition\<close>

record ryu =
  ry_dojo :: dojo
  ry_celer :: celer_process

definition ryu_new :: ryu where
  "ryu_new = \<lparr>ry_dojo = dojo_new, ry_celer = celer_process_new\<rparr>"

datatype ryu_event = AtDojo dojo_event | AtCeler celer_event

text \<open>
  A step of one side is a step of its own model, and the ring it leaves is the ring of the other. The
  pops of the dojo's model are those of CELER's hot loop here, and the pushes of CELER's those of the
  sessions.
\<close>

fun ryu_step ::
    "hypot_fun \<Rightarrow> (precision_event \<Rightarrow> string option) \<Rightarrow> recv_fun \<Rightarrow> ryu_event \<Rightarrow> ryu \<Rightarrow>
     ring_fault + (stroke_event channel_result list \<times> celer_output list) \<times> ryu" where
  "ryu_step hypot to_json recv (AtDojo ev) y =
     (if ev = ConsumerPop then Inr (([], []), y)
      else (case dojo_step ev (ry_dojo y) of
              Inl f \<Rightarrow> Inl f
            | Inr (rs, d) \<Rightarrow> Inr ((rs, []), \<lparr>ry_dojo = d, ry_celer = (ry_celer y)\<lparr>cp_ring := dj_ring d\<rparr>\<rparr>)))"
| "ryu_step hypot to_json recv (AtCeler ev) y =
     (case ev of
        AegisPush e \<Rightarrow> Inr (([], []), y)
      | _ \<Rightarrow> (case celer_main_step hypot to_json recv ev (ry_celer y) of
               (outs, s) \<Rightarrow> Inr (([], outs),
                  \<lparr>ry_dojo = (ry_dojo y)\<lparr>dj_ring := cp_ring s, dj_consumer := ce_consumer (celer_of s)\<rparr>, ry_celer = s\<rparr>)))"

fun ryu_run ::
    "hypot_fun \<Rightarrow> (precision_event \<Rightarrow> string option) \<Rightarrow> recv_fun \<Rightarrow> ryu_event list \<Rightarrow> ryu \<Rightarrow>
     ring_fault + (stroke_event channel_result list \<times> celer_output list) \<times> ryu" where
  "ryu_run hypot to_json recv [] y = Inr (([], []), y)"
| "ryu_run hypot to_json recv (ev # evs) y =
     (case ryu_step hypot to_json recv ev y of
        Inl f \<Rightarrow> Inl f
      | Inr ((rs, outs), y1) \<Rightarrow>
          (case ryu_run hypot to_json recv evs y1 of
             Inl f \<Rightarrow> Inl f
           | Inr ((rs', outs'), y2) \<Rightarrow> Inr ((rs @ rs', outs @ outs'), y2)))"

text \<open>What happens at the dojo, but for the pops.\<close>

fun at_dojo :: "ryu_event list \<Rightarrow> dojo_event list" where
  "at_dojo [] = []"
| "at_dojo (AtDojo ev # evs) = (if ev = ConsumerPop then at_dojo evs else ev # at_dojo evs)"
| "at_dojo (AtCeler ev # evs) = at_dojo evs"

abbreviation no_pops :: "dojo_event list \<Rightarrow> dojo_event list" where
  "no_pops \<equiv> filter (\<lambda>e. e \<noteq> ConsumerPop)"

section \<open>The two halves of a run\<close>

lemma at_dojo_append [simp]: "at_dojo (es @ fs) = at_dojo es @ at_dojo fs"
  by (induction es rule: at_dojo.induct) simp_all

lemma heard_in_no_pops: "heard_in ph k (no_pops es) = heard_in ph k es"
  by (induction ph k es rule: heard_in.induct) auto

lemma heard_no_pops: "heard k n (no_pops es) = heard k n es"
  by (induction k n es rule: heard.induct) (simp_all add: heard_in_no_pops)

lemma dojo_run_snoc:
  "dojo_run es d = Inr (rs, d1) \<Longrightarrow> dojo_step e d1 = Inr (rs', d2) \<Longrightarrow> dojo_run (es @ [e]) d = Inr (rs @ rs', d2)"
  by (induction es arbitrary: d rs) (auto split: sum.splits prod.splits)

lemma dojo_step_results:
  assumes "dojo_step e d = Inr (rs, d')" and "e \<noteq> ConsumerPop"
  shows "delivered rs = []" and "dj_consumer d' = dj_consumer d"
proof -
  have channel: "delivered (channel_results out) = []" for out
    by (simp add: channel_results_def split: message_outcome.split)
  have "delivered rs = [] \<and> dj_consumer d' = dj_consumer d"
    using assms channel
    by (cases e) (auto simp: accept_session_def set_phase_def receive_frame_def Let_def split: if_splits sum.splits)
  then show "delivered rs = []" and "dj_consumer d' = dj_consumer d" by simp_all
qed

text \<open>A poll of CELER is a pop of the dojo's model, and a step of the state machine of the event popped.\<close>

lemma poll_pops:
  assumes "dojo_step ConsumerPop d = Inr (rs, d')" and "ce_consumer ce = dj_consumer d"
  shows "\<exists>res ce' outs. celer_poll hypot ce (dj_ring d) = Inr (res, ce', dj_ring d') \<and> ce_consumer ce' = dj_consumer d' \<and>
    readings_of (case res of None \<Rightarrow> [] | Some p \<Rightarrow> [p]) = outs \<and>
    process_strokes hypot (delivered rs) (ce_pool ce) = Inr (outs, ce_pool ce') \<and>
    (\<exists>x. rs = [Popped x]) \<and> d' = d\<lparr>dj_ring := dj_ring d', dj_consumer := dj_consumer d'\<rparr>"
proof -
  obtain x c r where pop: "pop (dj_consumer d) (dj_ring d) = Inr (x, c, r)" and rs: "rs = [Popped x]"
    and d': "d' = d\<lparr>dj_consumer := c, dj_ring := r\<rparr>"
    using assms(1) by (auto split: sum.splits)
  show ?thesis
  proof (cases x)
    case None
    with pop rs d' assms(2) show ?thesis by (simp add: celer_poll_def)
  next
    case (Some e)
    with pop rs d' assms(2) show ?thesis
      by (simp add: celer_poll_def process_stroke_eq split: option.split)
  qed
qed

section \<open>Invariant\<close>

text \<open>
  The dojo is where its own events and CELER's pops have brought it, and CELER where the strokes popped have;
  its thread has panicked only if it failed to start.
\<close>

definition celer_start_failed :: "ryu_event list \<Rightarrow> bool" where
  "celer_start_failed es \<longleftrightarrow> (\<exists>ev. AtCeler ev \<in> set es \<and> failed_start ev)"

lemma celer_start_failed_snoc:
  "celer_start_failed (es @ [AtCeler ev]) \<longleftrightarrow> celer_start_failed es \<or> failed_start ev"
  "celer_start_failed (es @ [AtDojo d]) \<longleftrightarrow> celer_start_failed es"
  by (auto simp: celer_start_failed_def)

definition ryu_inv ::
    "hypot_fun \<Rightarrow> (precision_event \<Rightarrow> string option) \<Rightarrow> ryu_event list \<Rightarrow> stroke_event channel_result list \<Rightarrow>
     celer_output list \<Rightarrow> ryu \<Rightarrow> bool" where
  "ryu_inv hypot to_json es rs outs y \<longleftrightarrow>
     dojo_inv (length es) (ry_dojo y) \<and> browsers_inv to_json outs (ry_celer y) \<and>
     start_inv (celer_start_failed es) (ry_celer y) \<and> dj_ring (ry_dojo y) = cp_ring (ry_celer y) \<and> dj_consumer (ry_dojo y) = ce_consumer (celer_of (ry_celer y)) \<and>
     (\<exists>des prs. no_pops des = at_dojo es \<and> length des \<le> length es \<and> dojo_run des dojo_new = Inr (prs, ry_dojo y) \<and>
        (Pushed False \<in> set prs \<longrightarrow> Pushed False \<in> set rs) \<and>
        process_strokes hypot (delivered prs) initial_pool = Inr (cp_sent (ry_celer y), ce_pool (celer_of (ry_celer y))))"

lemma process_strokes_append:
  "process_strokes hypot es pool = Inr (outs, pool1) \<Longrightarrow> process_strokes hypot fs pool1 = Inr (outs', pool2) \<Longrightarrow>
   process_strokes hypot (es @ fs) pool = Inr (outs @ outs', pool2)"
  by (induction es arbitrary: pool outs) (auto split: sum.splits option.splits)

lemma celer_frame:
  assumes "celer_main_step hypot to_json recv ev s = (outs, s')" and "ev \<noteq> IpcPoll" and "\<And>e. ev \<noteq> AegisPush e"
  shows "cp_ring s' = cp_ring s" "cp_sent s' = cp_sent s" "celer_of s' = celer_of s"
proof -
  have "cp_ring s' = cp_ring s \<and> cp_sent s' = cp_sent s \<and> celer_of s' = celer_of s"
    using assms(1)
  proof (cases rule: celer_main_step_cases)
    case (start bind_ok accept_ok msg map_fd)
    then show ?thesis
      by (auto simp: ipc_start_def celer_of_def split: sum.split)
  next
    case (turn b up)
    from turn_frame [OF this(2)] show ?thesis by (simp add: celer_of_def)
  next
    case (hud moved ok)
    from hud_frame [OF this(2)] show ?thesis by (simp add: celer_of_def)
  qed (use assms(2,3) in \<open>auto simp: server_bind_def browser_connect_def celer_of_def\<close>)
  then show "cp_ring s' = cp_ring s" "cp_sent s' = cp_sent s" "celer_of s' = celer_of s" by simp_all
qed

lemma ryu_dojo_step:
  assumes inv: "ryu_inv hypot to_json es rs outs y" and n: "length es < 2 ^ 64" and ev: "ev \<noteq> ConsumerPop"
  shows "\<exists>new y'. ryu_step hypot to_json recv (AtDojo ev) y = Inr ((new, []), y') \<and>
    ryu_inv hypot to_json (es @ [AtDojo ev]) (rs @ new) outs y'"
proof -
  have "dojo_inv (length es) (ry_dojo y)"
    using inv by (simp add: ryu_inv_def)
  from dojo_step_refines [OF this n, of ev] obtain new d where step: "dojo_step ev (ry_dojo y) = Inr (new, d)"
    and d: "dojo_inv (Suc (length es)) d"
    by blast
  obtain des prs where des: "no_pops des = at_dojo es" "length des \<le> length es" "dojo_run des dojo_new = Inr (prs, ry_dojo y)"
    "Pushed False \<in> set prs \<longrightarrow> Pushed False \<in> set rs"
    and strokes: "process_strokes hypot (delivered prs) initial_pool = Inr (cp_sent (ry_celer y), ce_pool (celer_of (ry_celer y)))"
    using inv by (auto simp: ryu_inv_def)
  let ?y = "\<lparr>ry_dojo = d, ry_celer = (ry_celer y)\<lparr>cp_ring := dj_ring d\<rparr>\<rparr>"
  have same: "celer_of (s\<lparr>cp_ring := r\<rparr>) = celer_of s" for s r
    by (simp add: celer_of_def)
  have "ryu_inv hypot to_json (es @ [AtDojo ev]) (rs @ new) outs ?y"
    unfolding ryu_inv_def
  proof (intro conjI exI [of _ "des @ [ev]"] exI [of _ "prs @ new"])
    show "browsers_inv to_json outs (ry_celer ?y)"
      using inv by (simp add: ryu_inv_def browsers_inv_def)
    show "start_inv (celer_start_failed (es @ [AtDojo ev])) (ry_celer ?y)"
      using inv by (simp add: ryu_inv_def celer_start_failed_snoc start_inv_def)
    show "dj_consumer (ry_dojo ?y) = ce_consumer (celer_of (ry_celer ?y))"
      using inv dojo_step_results(2) [OF step ev] by (simp add: ryu_inv_def same)
  qed (use d des strokes ev dojo_run_snoc [OF des(3) step] dojo_step_results(1) [OF step ev] in \<open>auto simp: same\<close>)
  with step ev show ?thesis by auto
qed

lemma ryu_poll:
  assumes inv: "ryu_inv hypot to_json es rs outs y" and n: "length es < 2 ^ 64" and draining: "cp_ipc (ry_celer y) = Draining ce"
    and step: "celer_main_step hypot to_json recv IpcPoll (ry_celer y) = (new, s')" and up: "cp_server (ry_celer y) \<noteq> ServerFailed"
  shows "\<exists>des prs. no_pops des = at_dojo es \<and> length des \<le> Suc (length es) \<and>
      dojo_run des dojo_new = Inr (prs, (ry_dojo y)\<lparr>dj_ring := cp_ring s', dj_consumer := ce_consumer (celer_of s')\<rparr>) \<and>
      dojo_inv (Suc (length es)) ((ry_dojo y)\<lparr>dj_ring := cp_ring s', dj_consumer := ce_consumer (celer_of s')\<rparr>) \<and>
      (Pushed False \<in> set prs \<longrightarrow> Pushed False \<in> set rs) \<and>
      process_strokes hypot (delivered prs) initial_pool = Inr (cp_sent s', ce_pool (celer_of s'))"
proof -
  have ce: "celer_of (ry_celer y) = ce"
    using draining by (simp add: celer_of_def)
  have "dojo_inv (length es) (ry_dojo y)" and consumer: "ce_consumer ce = dj_consumer (ry_dojo y)"
    and ring: "cp_ring (ry_celer y) = dj_ring (ry_dojo y)"
    using inv by (simp_all add: ryu_inv_def ce)
  then obtain popped d where pop: "dojo_step ConsumerPop (ry_dojo y) = Inr (popped, d)" and d: "dojo_inv (Suc (length es)) d"
    using dojo_step_refines [OF _ n, of "ry_dojo y" ConsumerPop] by blast
  obtain des prs where des: "no_pops des = at_dojo es" "length des \<le> length es" "dojo_run des dojo_new = Inr (prs, ry_dojo y)"
    "Pushed False \<in> set prs \<longrightarrow> Pushed False \<in> set rs"
    and strokes: "process_strokes hypot (delivered prs) initial_pool = Inr (cp_sent (ry_celer y), ce_pool ce)"
    using inv by (auto simp: ryu_inv_def ce)
  obtain res ce' sent x where poll: "celer_poll hypot ce (dj_ring (ry_dojo y)) = Inr (res, ce', dj_ring d)"
    and c: "ce_consumer ce' = dj_consumer d" and sent: "readings_of (case res of None \<Rightarrow> [] | Some p \<Rightarrow> [p]) = sent"
    and one: "process_strokes hypot (delivered popped) (ce_pool ce) = Inr (sent, ce_pool ce')" and x: "popped = [Popped x]"
    and d_eq: "d = (ry_dojo y)\<lparr>dj_ring := dj_ring d, dj_consumer := dj_consumer d\<rparr>"
    using poll_pops [OF pop consumer, of hypot] by blast
  have s': "s' = (ry_celer y)\<lparr>cp_ipc := Draining ce', cp_ring := dj_ring d, cp_sent := cp_sent (ry_celer y) @ sent\<rparr>"
    using step up draining poll ring sent by (simp add: ipc_poll_def)
  then have "(ry_dojo y)\<lparr>dj_ring := cp_ring s', dj_consumer := ce_consumer (celer_of s')\<rparr> = d"
    using c d_eq by (simp add: celer_of_def)
  with d des x dojo_run_snoc [OF des(3) pop] process_strokes_append [OF strokes one] s' show ?thesis
    by (intro exI [of _ "des @ [ConsumerPop]"] exI [of _ "prs @ popped"]) (simp add: celer_of_def)
qed

lemma ryu_poll_ok:
  assumes inv: "ryu_inv hypot to_json es rs outs y" and n: "length es < 2 ^ 64" and draining: "cp_ipc (ry_celer y) = Draining ce"
  shows "\<not> isl (celer_poll hypot ce (cp_ring (ry_celer y)))"
proof -
  have "dojo_inv (length es) (ry_dojo y)" and consumer: "ce_consumer ce = dj_consumer (ry_dojo y)"
    and ring: "cp_ring (ry_celer y) = dj_ring (ry_dojo y)"
    using inv draining by (simp_all add: ryu_inv_def celer_of_def)
  then obtain popped d where pop: "dojo_step ConsumerPop (ry_dojo y) = Inr (popped, d)"
    using dojo_step_refines [OF _ n, of "ry_dojo y" ConsumerPop] by blast
  from poll_pops [OF this consumer, of hypot] show ?thesis
    unfolding ring by (metis sum.disc(2))
qed

lemma ryu_celer_step:
  assumes inv: "ryu_inv hypot to_json es rs outs y" and n: "length es < 2 ^ 64" and recv: "broadcast_recv TX_CAPACITY recv"
    and ev: "\<And>e. ev \<noteq> AegisPush e"
  shows "\<exists>new y'. ryu_step hypot to_json recv (AtCeler ev) y = Inr (([], new), y') \<and>
    ryu_inv hypot to_json (es @ [AtCeler ev]) rs (outs @ new) y'"
proof -
  let ?s = "ry_celer y" and ?d = "ry_dojo y"
  obtain new s' where step: "celer_main_step hypot to_json recv ev ?s = (new, s')" by fastforce
  let ?d' = "?d\<lparr>dj_ring := cp_ring s', dj_consumer := ce_consumer (celer_of s')\<rparr>"
  have y': "ryu_step hypot to_json recv (AtCeler ev) y = Inr (([], new), \<lparr>ry_dojo = ?d', ry_celer = s'\<rparr>)"
    using step ev by (cases ev) auto
  have browsers: "browsers_inv to_json (outs @ new) s'"
    using browsers_step [OF _ recv step] inv by (simp add: ryu_inv_def)
  have started: "start_inv (celer_start_failed (es @ [AtCeler ev])) s'"
    using start_step [OF _ step] ryu_poll_ok [OF inv n] inv unfolding celer_start_failed_snoc ryu_inv_def by blast
  have "\<exists>des prs. no_pops des = at_dojo es \<and> length des \<le> Suc (length es) \<and> dojo_run des dojo_new = Inr (prs, ?d') \<and>
      dojo_inv (Suc (length es)) ?d' \<and> (Pushed False \<in> set prs \<longrightarrow> Pushed False \<in> set rs) \<and>
      process_strokes hypot (delivered prs) initial_pool = Inr (cp_sent s', ce_pool (celer_of s'))"
  proof (cases "ev = IpcPoll \<and> cp_server ?s \<noteq> ServerFailed \<and> (\<exists>ce. cp_ipc ?s = Draining ce)")
    case True
    with ryu_poll [OF inv n] step show ?thesis by blast
  next
    case False
    have same: "cp_ring s' = cp_ring ?s" "cp_sent s' = cp_sent ?s" "celer_of s' = celer_of ?s"
    proof -
      have "cp_ring s' = cp_ring ?s \<and> cp_sent s' = cp_sent ?s \<and> celer_of s' = celer_of ?s"
      proof (cases "ev = IpcPoll")
        case True
        with False step show ?thesis
          by (cases "cp_server ?s = ServerFailed"; cases "cp_ipc ?s") (auto simp: ipc_poll_def)
      qed (use celer_frame [OF step _ ev] in blast)
      then show "cp_ring s' = cp_ring ?s" "cp_sent s' = cp_sent ?s" "celer_of s' = celer_of ?s" by simp_all
    qed
    have "?d' = ?d"
      using inv by (simp add: ryu_inv_def same)
    with inv show ?thesis
      unfolding ryu_inv_def same using dojo_inv_weaken le_SucI by metis
  qed
  then have "ryu_inv hypot to_json (es @ [AtCeler ev]) rs (outs @ new) \<lparr>ry_dojo = ?d', ry_celer = s'\<rparr>"
    using browsers started unfolding ryu_inv_def by auto
  with y' show ?thesis by blast
qed

lemma ryu_step_inv [step_inv]:
  assumes inv: "ryu_inv hypot to_json es rs outs y" and n: "length es < 2 ^ 64" and recv: "broadcast_recv TX_CAPACITY recv"
  shows "\<exists>rs' outs' y'. ryu_step hypot to_json recv ev y = Inr ((rs', outs'), y') \<and>
    ryu_inv hypot to_json (es @ [ev]) (rs @ rs') (outs @ outs') y'"
proof (cases "ev = AtDojo ConsumerPop \<or> (\<exists>e. ev = AtCeler (AegisPush e))")
  case True
  then have "ryu_step hypot to_json recv ev y = Inr (([], []), y)" and "at_dojo [ev] = []"
    by auto
  moreover have "celer_start_failed (es @ [ev]) \<longleftrightarrow> celer_start_failed es"
    using True by (auto simp: celer_start_failed_def)
  with \<open>at_dojo [ev] = []\<close> have "ryu_inv hypot to_json (es @ [ev]) rs outs y"
    using inv dojo_inv_weaken le_SucI unfolding ryu_inv_def at_dojo_append length_append by auto
  ultimately show ?thesis by simp
next
  case False
  show ?thesis
  proof (cases ev)
    case (AtDojo e)
    with False ryu_dojo_step [OF inv n, of e recv] show ?thesis
      by (auto simp del: ryu_step.simps)
  next
    case (AtCeler e)
    with False ryu_celer_step [OF inv n recv, of e] show ?thesis
      by (auto simp del: ryu_step.simps)
  qed
qed

lemma ryu_run_inv:
  assumes recv: "broadcast_recv TX_CAPACITY recv"
  shows "ryu_inv hypot to_json es rs outs y \<Longrightarrow> length es + length evs \<le> 2 ^ 64 \<Longrightarrow>
    \<exists>rs' outs' y'. ryu_run hypot to_json recv evs y = Inr ((rs', outs'), y') \<and>
      ryu_inv hypot to_json (es @ evs) (rs @ rs') (outs @ outs') y'"
proof (induction evs arbitrary: es rs outs y)
  case (Cons ev evs)
  obtain rs1 outs1 y1 where step: "ryu_step hypot to_json recv ev y = Inr ((rs1, outs1), y1)"
    and inv: "ryu_inv hypot to_json (es @ [ev]) (rs @ rs1) (outs @ outs1) y1"
    using ryu_step_inv [OF Cons.prems(1) _ recv, of ev] Cons.prems(2) by auto
  from Cons.IH [OF inv] Cons.prems(2) obtain rs2 outs2 y2 where "ryu_run hypot to_json recv evs y1 = Inr ((rs2, outs2), y2)"
    and "ryu_inv hypot to_json (es @ ev # evs) (rs @ rs1 @ rs2) (outs @ outs1 @ outs2) y2"
    by auto
  with step show ?case by auto
qed simp

lemma ryu_inv_new: "ryu_inv hypot to_json [] [] [] ryu_new"
  by (simp add: ryu_inv_def ryu_new_def dojo_inv_new browsers_inv_def start_inv_def celer_process_new_def celer_of_def celer_new_def
      dojo_new_def [THEN arg_cong, of dj_ring] dojo_new_def [THEN arg_cong, of dj_consumer])

section \<open>From every page to every browser\<close>

lemma session_to_browser:
  assumes recv: "broadcast_recv TX_CAPACITY recv" and inv: "ryu_inv hypot to_json evs rs outs y" and n: "length evs \<le> 2 ^ 64"
    and ok: "Pushed False \<notin> set rs" "length (dj_tasks (ry_dojo y)) \<le> 65536" "k < length (dj_tasks (ry_dojo y))"
    and b: "b < length (cp_browsers (ry_celer y))"
  shows "\<exists>n mine seen. mine = measured hypot (take n (session_strokes (of_nat (Suc k)) (heard k 0 (at_dojo evs)))) \<and>
    (queue_of (dj_ring (ry_dojo y)) = [] \<longrightarrow> n = length (session_strokes (of_nat (Suc k)) (heard k 0 (at_dojo evs)))) \<and>
    readings_for (of_nat (Suc k)) (cp_sent (ry_celer y)) = mine \<and>
    seen = got (map fst (items_of b outs)) \<and> subseq (readings_for (of_nat (Suc k)) seen) mine \<and>
    (list_all snd (items_of b outs) \<longrightarrow> messages_of b outs = List.map_filter to_json seen) \<and>
    (br_from (cp_browsers (ry_celer y) ! b) = 0 \<and> length (cp_sent (ry_celer y)) \<le> TX_CAPACITY \<and>
       recv True (cp_sent (ry_celer y)) (br_cursor (cp_browsers (ry_celer y) ! b)) = None \<longrightarrow>
     readings_for (of_nat (Suc k)) seen = mine)"
proof -
  let ?s = "ry_celer y" and ?d = "ry_dojo y" and ?sid = "of_nat (Suc k) :: u32" and ?seen = "got (map fst (items_of b outs))"
  obtain des prs where des: "no_pops des = at_dojo evs" "length des \<le> 2 ^ 64" "dojo_run des dojo_new = Inr (prs, ?d)"
    and refused: "Pushed False \<in> set prs \<longrightarrow> Pushed False \<in> set rs"
    and sent: "process_strokes hypot (delivered prs) initial_pool = Inr (cp_sent ?s, ce_pool (celer_of ?s))"
    using inv n unfolding ryu_inv_def by (meson le_trans)
  let ?strokes = "session_strokes ?sid (heard k 0 (at_dojo evs))" and ?mine = "strokes_from ?sid (delivered prs)"
  obtain readings pool pool2 where strokes: "strokes_from ?sid (delivered prs @ queue_of (dj_ring ?d)) = ?strokes"
    and all: "process_strokes hypot (delivered prs) initial_pool = Inr (readings, pool)"
    and alone: "process_strokes hypot ?mine initial_pool = Inr (readings_for ?sid readings, pool2)"
    using session_measured_alone [OF des(2,3), of k hypot] refused ok heard_no_pops [of k 0 des] des(1) by auto
  have split: "?strokes = ?mine @ strokes_from ?sid (queue_of (dj_ring ?d))"
    using strokes [symmetric] unfolding strokes_from_def filter_append .
  have first: "take (length ?mine) ?strokes = ?mine"
    unfolding split by simp
  have rest: "length ?mine = length ?strokes" if "queue_of (dj_ring ?d) = []"
    unfolding split that by (simp add: strokes_from_def)
  have mine: "readings_for ?sid (cp_sent ?s) = measured hypot (take (length ?mine) ?strokes)"
    using sent all alone unfolding first measured_def by simp
  have "browser_ok to_json (cp_sent ?s) (items_of b outs) (messages_of b outs) (cp_browsers ?s ! b)"
    using inv b by (simp add: ryu_inv_def browsers_inv_def)
  note sees = browser_sees [OF this recv]
  have "subseq ?seen (cp_sent ?s)"
    using sees(1) by (metis append_take_drop_id list_emb_append2)
  then have "subseq (readings_for ?sid ?seen) (readings_for ?sid (cp_sent ?s))"
    unfolding readings_for_def by (rule subseq_filter)
  moreover have "?seen = cp_sent ?s" if "br_from (cp_browsers ?s ! b) = 0" "length (cp_sent ?s) \<le> TX_CAPACITY"
    "recv True (cp_sent ?s) (br_cursor (cp_browsers ?s ! b)) = None"
    using sees(3) [OF that(2)] sees(6) [OF that(3)] that(1) by (auto simp: prefix_def)
  ultimately show ?thesis
    using mine sees(4) rest
    by (intro exI [of _ "length ?mine"] exI [of _ "measured hypot (take (length ?mine) ?strokes)"] exI [of _ ?seen]) auto
qed

text \<open>
  C1: the whole pipeline. However the pages' connections, frames and endings, CELER's polls and the
  browsers' connections and reads interleave, for the first \<open>2 ^ 64\<close> steps and on a channel that keeps what
  it documents, no push and no pop faults, and CELER's hot loop never
  panics: its thread has panicked only if it could not take the ring over (its socket, the message with
  the descriptor or the mapping failed), and then nothing has been measured. If the ring never refused a
  stroke and there were at most 65536 sessions, then what CELER broadcasts for a session is what it would
  measure of the frames of that page alone (all of them once the ring is drained), and every browser gets a
  subsequence of it, in order. A browser there from the start gets every reading of it, if no more than
  2048 have been sent and it has read to the end.
\<close>

theorem pages_to_browsers:
  assumes "broadcast_recv TX_CAPACITY recv" and "length evs \<le> 2 ^ 64"
  shows "\<exists>rs outs y. ryu_run hypot to_json recv evs ryu_new = Inr ((rs, outs), y) \<and>
    (\<forall>m. cp_ipc (ry_celer y) = IpcPanicked m \<longrightarrow>
       m = 0 \<and> cp_sent (ry_celer y) = [] \<and> (\<exists>ev. AtCeler ev \<in> set evs \<and> failed_start ev)) \<and>
    (\<forall>k b. Pushed False \<notin> set rs \<and> length (dj_tasks (ry_dojo y)) \<le> 65536 \<and> k < length (dj_tasks (ry_dojo y)) \<and>
        b < length (cp_browsers (ry_celer y)) \<longrightarrow>
      (\<exists>n mine seen. mine = measured hypot (take n (session_strokes (of_nat (Suc k)) (heard k 0 (at_dojo evs)))) \<and>
        (queue_of (dj_ring (ry_dojo y)) = [] \<longrightarrow> n = length (session_strokes (of_nat (Suc k)) (heard k 0 (at_dojo evs)))) \<and>
        readings_for (of_nat (Suc k)) (cp_sent (ry_celer y)) = mine \<and>
        seen = got (map fst (items_of b outs)) \<and> subseq (readings_for (of_nat (Suc k)) seen) mine \<and>
        (list_all snd (items_of b outs) \<longrightarrow> messages_of b outs = List.map_filter to_json seen) \<and>
        (br_from (cp_browsers (ry_celer y) ! b) = 0 \<and> length (cp_sent (ry_celer y)) \<le> TX_CAPACITY \<and>
           recv True (cp_sent (ry_celer y)) (br_cursor (cp_browsers (ry_celer y) ! b)) = None \<longrightarrow>
         readings_for (of_nat (Suc k)) seen = mine)))"
proof -
  obtain rs outs y where run: "ryu_run hypot to_json recv evs ryu_new = Inr ((rs, outs), y)"
    and inv: "ryu_inv hypot to_json evs rs outs y"
    using ryu_run_inv [OF assms(1) ryu_inv_new, where evs = evs and hypot = hypot and to_json = to_json] assms(2) by auto
  have "\<forall>m. cp_ipc (ry_celer y) = IpcPanicked m \<longrightarrow>
      m = 0 \<and> cp_sent (ry_celer y) = [] \<and> (\<exists>ev. AtCeler ev \<in> set evs \<and> failed_start ev)"
    using inv by (auto simp: ryu_inv_def start_inv_def celer_start_failed_def)
  with run session_to_browser [OF assms(1) inv assms(2)] show ?thesis
    by (intro exI [of _ rs] exI [of _ outs] exI [of _ y] conjI allI impI) simp_all
qed

section \<open>Example\<close>

text \<open>A page draws a dot and a move while another one watches.\<close>

definition one_page :: "ryu_event list" where
  "one_page = [AtCeler (IpcStart True True (Some (send_fd 3)) (\<lambda>_. Some (0, shared_ring_size))),
     AtCeler (ServerBind True), AtCeler BrowserConnect, AtDojo Accept, AtDojo (HandshakeDone 0 True),
     AtDojo (Frame 0 (WsBinary (sendPoint F0 F0 ACTION_DOWN)) sample_env), AtCeler IpcPoll,
     AtDojo (Frame 0 (WsBinary (sendPoint F5 F0 ACTION_MOVE)) sample_env), AtCeler IpcPoll, AtCeler (BrowserTurn 0 True)]"

lemma one_page_run:
  "\<exists>rs outs y e. ryu_run (\<lambda>a b. a) (\<lambda>_. Some ''reading'') tokio_recv one_page ryu_new = Inr ((rs, outs), y) \<and>
     rs = [Pushed True, Pushed True] \<and> length (dj_tasks (ry_dojo y)) = 1 \<and> queue_of (dj_ring (ry_dojo y)) = [] \<and>
     cp_browsers (ry_celer y) = [\<lparr>br_from = 0, br_cursor = 1, br_open = True\<rparr>] \<and> cp_sent (ry_celer y) = [e] \<and>
     items_of 0 outs = [(RecvOk e, True)] \<and> pe_session_id e = 1 \<and> pe_speed e = F5"
proof -
  have parsed: "parse_stroke_payload (sendPoint x y ACTION_DOWN) =
      Valid \<lparr>ps_x = x, ps_y = y, ps_pressure = 0x3F800000, ps_action = ACTION_DOWN\<rparr>"
    "parse_stroke_payload (sendPoint x y ACTION_MOVE) =
      Valid \<lparr>ps_x = x, ps_y = y, ps_pressure = 0x3F800000, ps_action = ACTION_MOVE\<rparr>" for x y
    by (rule parse_known_sendPoint, simp add: known_action_def)+
  let ?e = "\<lambda>x a. build_event 1 sample_env \<lparr>ps_x = x, ps_y = F0, ps_pressure = 0x3F800000, ps_action = a\<rparr>"
  let ?d = "?e F0 ACTION_DOWN" and ?m = "?e F5 ACTION_MOVE"
  have f5: "f32_sub F5 F0 = F5" "f32_gt F5 F0"
    by (simp_all add: F5_def F0_def f32_eval)
  note eval = process_stroke_eq fsm_step_def stroke_move_def stroke_down_def build_event_def action_defs f5 Let_def
  let ?pool1 = "initial_pool(session_slot 1 := snd (fsm_step (\<lambda>a b. a) ?d (initial_pool (session_slot 1))))"
  have ps1: "process_stroke (\<lambda>a b. a) ?d (ce_pool celer_new) = Inr (None, ?pool1)"
    by (simp add: eval celer_new_def)
  obtain e pool2 where ps2: "process_stroke (\<lambda>a b. a) ?m ?pool1 = Inr (Some e, pool2)"
    and e: "pe_session_id e = 1" "pe_speed e = F5"
    by (simp add: eval)
  have cap: "0 < capacity" by simp
  obtain p1 r1 where push1: "push ?d AegisProducer_new zeroed_ring = Inr (Inr (), p1, r1)"
    and q1: "queue_of r1 = [?d]" and i1: "spsc_inv p1 (ce_consumer celer_new) r1"
    using push_on_queue [OF spsc_inv_new, of ?d] cap by (auto simp: celer_new_def)
  obtain c2 r2 where poll1: "celer_poll (\<lambda>a b. a) celer_new r1 = Inr (Some \<lparr>po_parent = parent_ctx ?d, po_reading = None\<rparr>,
      \<lparr>ce_consumer = c2, ce_pool = ?pool1, ce_processed = ce_processed celer_new + 1\<rparr>, r2)"
    and q2: "queue_of r2 = []" and i2: "spsc_inv p1 c2 r2"
    using i1 q1 ps1 by (rule celer_poll_event)
  let ?ce = "\<lparr>ce_consumer = c2, ce_pool = ?pool1, ce_processed = ce_processed celer_new + 1\<rparr>"
  obtain p3 r3 where push2: "push ?m p1 r2 = Inr (Inr (), p3, r3)"
    and q3: "queue_of r3 = [?m]" and i3: "spsc_inv p3 (ce_consumer ?ce) r3"
    using push_on_queue [OF i2, of ?m] cap by (auto simp: q2 simp del: length_queue_of)
  have ps2': "process_stroke (\<lambda>a b. a) ?m (ce_pool ?ce) = Inr (Some e, pool2)"
    using ps2 by simp
  obtain c4 r4 where poll2: "celer_poll (\<lambda>a b. a) ?ce r3 = Inr (Some \<lparr>po_parent = parent_ctx ?m, po_reading = Some e\<rparr>,
      \<lparr>ce_consumer = c4, ce_pool = pool2, ce_processed = ce_processed ?ce + 1\<rparr>, r4)" and q4: "queue_of r4 = []"
    using i3 q3 ps2' by (rule celer_poll_event)
  have start: "celer_ipc_start True True (Some (send_fd 3)) (\<lambda>_. Some (0, shared_ring_size)) = Inr (0, shared_ring_size)"
    by (simp add: celer_ipc_start_def celer_bridge_def fd_passes)
  have clone: "AegisProducer_clone p = p" for p
    by (simp add: AegisProducer_clone_def)
  show ?thesis
    using poll1 poll2 e q4
    by (simp add: one_page_def ryu_new_def celer_process_new_def dojo_new_def celer_main_defs start push1 push2 poll1 poll2
        senders_left_def tokio_recv_def TX_CAPACITY_def Let_def accept_session_def set_phase_def in_phase_def
        receive_frame_def handle_message_def parsed ends_session_def channel_results_def clone celer_of_def past_result_def)
qed

theorem pages_to_browsers_witness:
  "\<exists>rs outs y e. ryu_run (\<lambda>a b. a) (\<lambda>_. Some ''reading'') tokio_recv one_page ryu_new = Inr ((rs, outs), y) \<and>
     pe_speed e = F5 \<and> got (map fst (items_of 0 outs)) = [e] \<and>
     measured (\<lambda>a b. a) (session_strokes 1 (heard 0 0 (at_dojo one_page))) = [e]"
proof -
  obtain rs outs y e where run: "ryu_run (\<lambda>a b. a) (\<lambda>_. Some ''reading'') tokio_recv one_page ryu_new = Inr ((rs, outs), y)"
    and facts: "rs = [Pushed True, Pushed True]" "length (dj_tasks (ry_dojo y)) = 1" "queue_of (dj_ring (ry_dojo y)) = []"
      "cp_browsers (ry_celer y) = [\<lparr>br_from = 0, br_cursor = 1, br_open = True\<rparr>]" "cp_sent (ry_celer y) = [e]"
      "items_of 0 outs = [(RecvOk e, True)]"
    and e: "pe_session_id e = 1" "pe_speed e = F5"
    using one_page_run by blast
  have short: "length one_page \<le> 2 ^ 64"
    by (simp add: one_page_def)
  have "readings_for 1 [e] = measured (\<lambda>a b. a) (session_strokes 1 (heard 0 0 (at_dojo one_page)))"
    using pages_to_browsers [OF tokio_recv_ok short, of "\<lambda>a b. a" "\<lambda>_. Some ''reading''"] run facts
    by (auto dest!: spec [of _ "0 :: nat"])
  with run facts e show ?thesis
    by (intro exI [of _ rs] exI [of _ outs] exI [of _ y] exI [of _ e]) (simp add: readings_for_def)
qed

end
