(* ===== verification/Chronos_Crash.thy ===== *)
theory Chronos_Crash
  imports Chronos_Engine
begin

text \<open>
  Chronos and a loss of power: what \<^verbatim>\<open>chronos/src/engine.rs\<close> has put on the disk, as opposed to in
  the caches of the kernel, and what the next start finds. Only the temporary file of a compaction
  is synchronised; records are appended and the rename is done without.
\<close>

section \<open>The disk\<close>

text \<open>
  What is on the disk lags behind what processes see. Of the data of a file at least the first
  \<open>dk_synced\<close> bytes are there, and the file may have any length from there on (data are written
  before the length that covers them, as journaling file systems order it); of the directory the
  disk may hold any version since it was last known to be up to date.
\<close>

record disk =
  dk_fs :: file_system
  dk_synced :: "nat \<Rightarrow> nat"
  dk_dirs :: "(string \<Rightarrow> nat option) list"

definition up_to_date :: "file_system \<Rightarrow> disk" where
  "up_to_date fs = \<lparr>dk_fs = fs, dk_synced = (\<lambda>i. length (fs_data fs i)), dk_dirs = [fs_paths fs]\<rparr>"

definition admissible :: "(string \<Rightarrow> nat option) \<Rightarrow> (nat \<Rightarrow> nat) \<Rightarrow> disk \<Rightarrow> bool" where
  "admissible dir len dk \<longleftrightarrow> dir \<in> set (dk_dirs dk) \<and> (\<forall>i. dk_synced dk i \<le> len i)"

definition power_loss :: "(string \<Rightarrow> nat option) \<Rightarrow> (nat \<Rightarrow> nat) \<Rightarrow> disk \<Rightarrow> file_system" where
  "power_loss dir len dk =
     \<lparr>fs_paths = dir, fs_data = (\<lambda>i. take (len i) (fs_data (dk_fs dk) i)), fs_next = fs_next (dk_fs dk)\<rparr>"

section \<open>Operations\<close>

definition disk_set :: "ustring \<Rightarrow> ustring \<Rightarrow> engine \<times> disk \<Rightarrow> (io_error + unit) \<times> engine \<times> disk" where
  "disk_set key value st =
     (case st of (en, dk) \<Rightarrow>
        (case Engine_set key value IoOk (en, dk_fs dk) of
           (res, en', fs') \<Rightarrow> (res, en', dk\<lparr>dk_fs := fs'\<rparr>)))"

text \<open>How far a compaction has come when it stops: the temporary file opened, and synchronised.\<close>

fun temp_opened :: "compact_outcome \<Rightarrow> bool" where
  "temp_opened (OpenTempFails e) \<longleftrightarrow> False"
| "temp_opened _ \<longleftrightarrow> True"

fun temp_synced :: "compact_outcome \<Rightarrow> bool" where
  "temp_synced (RenameFails e) \<longleftrightarrow> True"
| "temp_synced (ReopenFails e) \<longleftrightarrow> True"
| "temp_synced CompactOk \<longleftrightarrow> True"
| "temp_synced _ \<longleftrightarrow> False"

definition disk_compact :: "compact_outcome \<Rightarrow> engine \<times> disk \<Rightarrow> (io_error + unit) \<times> engine \<times> disk" where
  "disk_compact out st =
     (case st of (en, dk) \<Rightarrow>
        (case Engine_compact out (en, dk_fs dk) of
           (res, en', fs') \<Rightarrow>
             (let (temp, fs1) = open_truncate TEMP_PATH (dk_fs dk) in
              if temp_opened out
              then (res, en', \<lparr>dk_fs = fs',
                      dk_synced = (dk_synced dk)(temp := if temp_synced out then length (fs_data fs' temp) else 0),
                      dk_dirs = dk_dirs dk @ [fs_paths fs1, fs_paths fs']\<rparr>)
              else (res, en', dk))))"

datatype disk_event =
    DiskSet ustring ustring
  | DiskCompact compact_outcome

fun disk_step :: "disk_event \<Rightarrow> engine \<times> disk \<Rightarrow> engine \<times> disk" where
  "disk_step (DiskSet key value) st = snd (disk_set key value st)"
| "disk_step (DiskCompact out) st = snd (disk_compact out st)"

definition disk_run :: "disk_event list \<Rightarrow> engine \<times> disk \<Rightarrow> engine \<times> disk" where
  "disk_run es st = fold disk_step es st"

text \<open>The records written by a run.\<close>

fun written :: "disk_event list \<Rightarrow> kv" where
  "written [] = []"
| "written (DiskSet key value # es) = (key, value) # written es"
| "written (DiskCompact out # es) = written es"

lemma written_append: "written (es @ fs) = written es @ written fs"
  by (induction es rule: written.induct) simp_all

section \<open>A torn record\<close>

text \<open>A character cut off is no character.\<close>

lemma decode_short: "length (b # bs) < utf8_char_width (unat b) \<Longrightarrow> fst (utf8_decode_char (b # bs)) = None"
proof -
  assume short: "length (b # bs) < utf8_char_width (unat b)"
  have "utf8_char_width (unat b) \<le> 4"
    by (simp add: utf8_char_width_def)
  with short have "length bs \<le> 2" by simp
  then consider "bs = []" | x where "bs = [x]" | x y where "bs = [x, y]"
    by (cases bs; cases "tl bs"; cases "tl (tl bs)") auto
  then show ?thesis
    using short by cases (simp_all add: utf8_decode_char_def Let_def byte_at_def is_cont_def second_ok_3_def second_ok_4_def)
qed

lemma first_byte_width:
  assumes "is_scalar c" and "utf8_encode_char c = b # bs"
  shows "utf8_char_width (unat b) = length (utf8_encode_char c)"
proof -
  have "c < 0x110000"
    using assms(1) by (auto simp: is_scalar_def)
  then have "192 + c div 64 < 256" if "c < 0x800" using that by (simp add: less_mult_imp_div_less)
  have div: "2 \<le> c div 64 \<and> c div 64 < 32" if "0x80 \<le> c" "c < 0x800"
    using that div_le_mono [of 128 c 64] by (simp add: less_mult_imp_div_less)
  have div3: "c div 4096 < 16" if "c < 0x10000"
    using that by (simp add: less_mult_imp_div_less)
  have div4: "c div 262144 < 5"
    using \<open>c < 0x110000\<close> by (simp add: less_mult_imp_div_less)
  have b: "unat (of_nat n :: u8) = n" if "n < 256" for n
    using that by simp
  consider "c < 0x80" | "0x80 \<le> c" "c < 0x800" | "0x800 \<le> c" "c < 0x10000" | "0x10000 \<le> c"
    by linarith
  then show ?thesis
  proof cases
    case 1
    then show ?thesis
      using assms(2) b [of c] by (simp add: utf8_encode_char_def utf8_char_width_def)
  next
    case 2
    with assms(2) have "b = of_nat (192 + c div 64)"
      by (simp add: utf8_encode_char_def del: of_nat_add)
    with 2 div b [of "192 + c div 64"] show ?thesis
      by (simp add: utf8_encode_char_def utf8_char_width_def del: of_nat_add)
  next
    case 3
    with assms(2) have "b = of_nat (224 + c div 4096)"
      by (simp add: utf8_encode_char_def del: of_nat_add)
    with 3 div3 b [of "224 + c div 4096"] show ?thesis
      by (simp add: utf8_encode_char_def utf8_char_width_def del: of_nat_add)
  next
    case 4
    with assms(2) have "b = of_nat (240 + c div 262144)"
      by (simp add: utf8_encode_char_def del: of_nat_add)
    with 4 div4 b [of "240 + c div 262144"] show ?thesis
      by (simp add: utf8_encode_char_def utf8_char_width_def del: of_nat_add)
  qed
qed

lemma cut_char:
  assumes "is_scalar c" and "0 < j" and "j < length (utf8_encode_char c)"
  shows "None \<in> set (utf8_chunks (take j (utf8_encode_char c)))"
proof -
  obtain b bs where c: "utf8_encode_char c = b # bs"
    using utf8_encode_char_not_Nil by (metis neq_Nil_conv)
  obtain i where j: "j = Suc i"
    using assms(2) gr0_implies_Suc by blast
  have "length (b # take i bs) < utf8_char_width (unat b)"
    using assms(3) first_byte_width [OF assms(1) c] by (simp add: c j)
  from decode_short [OF this] show ?thesis
    by (cases "utf8_decode_char (b # take i bs)") (simp add: c j)
qed

text \<open>So a text cut off anywhere reads as an initial part of itself, or not at all.\<close>

lemma cut_text:
  assumes "list_all is_scalar t"
  shows "from_utf8 (take j (utf8_encode t)) = None \<or> (\<exists>m. from_utf8 (take j (utf8_encode t)) = Some (take m t))"
proof -
  have "None \<in> set (utf8_chunks (take j (utf8_encode t))) \<or> (\<exists>m. utf8_chunks (take j (utf8_encode t)) = map Some (take m t))"
    using assms
  proof (induction t arbitrary: j)
    case (Cons c t)
    let ?n = "length (utf8_encode_char c)"
    consider "j = 0" | "0 < j" "j < ?n" | "?n \<le> j" by linarith
    then show ?case
    proof cases
      case 2
      with Cons.prems cut_char [of c j] show ?thesis
        by (simp add: utf8_encode_def)
    next
      case 3
      then have "take j (utf8_encode (c # t)) = utf8_encode [c] @ take (j - ?n) (utf8_encode t)"
        by (simp add: utf8_encode_def)
      with Cons utf8_chunks_append [of "[c]"] have
        "utf8_chunks (take j (utf8_encode (c # t))) = Some c # utf8_chunks (take (j - ?n) (utf8_encode t))"
        by simp
      with Cons.IH [of "j - ?n"] Cons.prems show ?thesis
        by (auto intro: exI [of _ "Suc m" for m])
    qed (auto intro: exI [of _ 0])
  qed (simp add: utf8_encode_def)
  then show ?thesis
    by (auto simp: from_utf8_def Let_def comp_def)
qed

lemma split_once_cut:
  "comma \<notin> set k \<Longrightarrow> split_once comma (take m (k @ comma # v)) =
     (if m \<le> length k then None else Some (k, take (m - length k - 1) v))"
proof (induction k arbitrary: m)
  case Nil
  then show ?case by (cases m) simp_all
next
  case (Cons c k)
  then show ?case by (cases m) auto
qed

section \<open>What the disk holds\<close>

text \<open>
  The state after \<open>n\<close> of the records \<open>us\<close>, from the contents \<open>m0\<close>. A log starts with records that
  amount to such a state and are on the disk, and goes on with the records that followed.
\<close>

abbreviation past :: "kv \<Rightarrow> kv \<Rightarrow> nat \<Rightarrow> ustring \<rightharpoonup> ustring" where
  "past m0 us n \<equiv> map_of (foldl upd m0 (take n us))"

definition log_from :: "kv \<Rightarrow> kv \<Rightarrow> nat \<Rightarrow> nat \<Rightarrow> bytes \<Rightarrow> bool" where
  "log_from m0 us b synced log \<longleftrightarrow> b \<le> length us \<and> (\<exists>base a. a \<le> b \<and> list_all storable base \<and>
     log = log_of base @ log_of (drop a (take b us)) \<and> length (log_of base) \<le> synced \<and>
     map_of (foldl upd [] base) = past m0 us a)"

lemma log_of_simps [simp]: "log_of [] = []" "log_of (r # rs) = record_bytes r @ log_of rs"
    "log_of (rs @ qs) = log_of rs @ log_of qs"
  by (simp_all add: log_of_def)

lemma log_from_more: "log_from m0 us b synced log \<Longrightarrow> log_from m0 (us @ [kv]) b synced log"
  by (fastforce simp: log_from_def)

lemma log_from_append:
  assumes "log_from m0 us (length us) synced log"
  shows "log_from m0 (us @ [kv]) (length (us @ [kv])) synced (log @ record_bytes kv)"
proof -
  from assms obtain base a where "a \<le> length us" "list_all storable base" "log = log_of base @ log_of (drop a us)"
    "length (log_of base) \<le> synced" "map_of (foldl upd [] base) = past m0 us a"
    by (auto simp: log_from_def)
  then show ?thesis
    unfolding log_from_def by (intro conjI exI [of _ base] exI [of _ a]) simp_all
qed

text \<open>A log cut anywhere is some of its records and an initial part of the next one.\<close>

lemma take_log:
  "\<exists>n j. take len (log_of rs) = log_of (take n rs) @ (if n < length rs then take j (record_bytes (rs ! n)) else []) \<and>
     n \<le> length rs \<and> (n < length rs \<longrightarrow> j < length (record_bytes (rs ! n)))"
proof (induction rs arbitrary: len)
  case (Cons r rs)
  show ?case
  proof (cases "len < length (record_bytes r)")
    case True
    then show ?thesis by (intro exI [of _ 0] exI [of _ len]) simp
  next
    case False
    from Cons.IH [of "len - length (record_bytes r)"] obtain n j where
      "take (len - length (record_bytes r)) (log_of rs) = log_of (take n rs) @ (if n < length rs then take j (record_bytes (rs ! n)) else [])"
      "n \<le> length rs" "n < length rs \<longrightarrow> j < length (record_bytes (rs ! n))"
      by blast
    with False show ?thesis by (intro exI [of _ "Suc n"] exI [of _ j]) simp
  qed
qed simp

text \<open>A torn record is nothing, or sets its key to an initial part of its value.\<close>

lemma torn_record:
  assumes "storable (k, v)" and "j < length (record_bytes (k, v))"
  shows "foldl rehydrate_line m (map from_utf8 (raw_lines [] (take j (record_bytes (k, v))))) = m \<or>
    (\<exists>i. foldl rehydrate_line m (map from_utf8 (raw_lines [] (take j (record_bytes (k, v))))) = AList.update k (take i v) m)"
proof -
  let ?t = "k @ comma # v"
  have torn: "take j (record_bytes (k, v)) = take j (utf8_encode ?t)"
    using assms(2) by (simp add: record_bytes_def)
  have "10 \<notin> set (take j (utf8_encode ?t))"
    using storable_line(1) [OF assms(1)] by (auto dest: in_set_takeD)
  then have lines: "raw_lines [] (take j (utf8_encode ?t)) = [] \<or> raw_lines [] (take j (utf8_encode ?t)) = [take j (utf8_encode ?t)]"
    using raw_lines_rest [of "take j (utf8_encode ?t)" "[]"] by auto
  have scalars: "list_all is_scalar ?t" and key: "comma \<notin> set k"
    using assms(1) by (simp_all add: storable_def comma_def is_scalar_def)
  from lines show ?thesis
  proof
    assume one: "raw_lines [] (take j (utf8_encode ?t)) = [take j (utf8_encode ?t)]"
    consider "from_utf8 (take j (utf8_encode ?t)) = None" | n where "from_utf8 (take j (utf8_encode ?t)) = Some (take n ?t)"
      using cut_text [OF scalars, of j] by metis
    then show ?thesis
    proof cases
      case (2 n)
      then show ?thesis
        using split_once_cut [OF key, of n v] unfolding torn one
        by (cases "n \<le> length k") (simp_all add: rehydrate_line_def del: take_append, metis)
    qed (simp add: torn one rehydrate_line_def)
  qed (simp add: torn)
qed

text \<open>So a log cut beyond what was synchronised gives a past state, but for one torn value.\<close>

definition past_or_torn :: "kv \<Rightarrow> kv \<Rightarrow> (ustring \<rightharpoonup> ustring) \<Rightarrow> bool" where
  "past_or_torn m0 us m \<longleftrightarrow> (\<exists>n \<le> length us. m = past m0 us n \<or>
     (n < length us \<and> (\<exists>i. m = (past m0 us n)(fst (us ! n) \<mapsto> take i (snd (us ! n))))))"

lemma cut_log_recovers:
  assumes log: "log_from m0 us b synced log" and len: "synced \<le> len" and us: "list_all storable us"
  shows "past_or_torn m0 us (map_of (rehydrate (take len log)))"
proof -
  from log obtain base a where a: "a \<le> b" "b \<le> length us" and base: "list_all storable base"
    and log_eq: "log = log_of base @ log_of (drop a (take b us))" "length (log_of base) \<le> synced"
    and m: "map_of (foldl upd [] base) = past m0 us a"
    by (auto simp: log_from_def)
  let ?seg = "drop a (take b us)"
  obtain n j where cut: "take (len - length (log_of base)) (log_of ?seg) =
      log_of (take n ?seg) @ (if n < length ?seg then take j (record_bytes (?seg ! n)) else [])"
    and n: "n \<le> length ?seg" "n < length ?seg \<Longrightarrow> j < length (record_bytes (?seg ! n))"
    using take_log by blast
  have "n \<le> b - a"
    using n(1) a by simp
  then have seg: "take n ?seg = drop a (take (a + n) us)"
    by (simp add: drop_take)
  have seg_nth: "?seg ! n = us ! (a + n)" "a + n < length us" if "n < length ?seg"
    using that a by simp_all
  have "take (a + n) us = take a us @ drop a (take (a + n) us)"
    by (metis add.commute take_add take_drop append_take_drop_id take_take min.absorb1 le_add1)
  then have past: "map_of (foldl upd [] (base @ take n ?seg)) = past m0 us (a + n)"
    using m by (metis (no_types, lifting) foldl_append map_of_foldl_upd seg)
  have storable: "list_all storable (base @ take n ?seg)"
    using base us by (auto simp: list_all_iff dest!: in_set_takeD in_set_dropD)
  have bound: "a + n \<le> length us"
    using n(1) a by simp
  show ?thesis
  proof (cases "n < length ?seg")
    case False
    then have "rehydrate (take len log) = foldl upd [] (base @ take n ?seg)"
      using log_eq len cut rehydrate_log [OF storable] by simp
    with past bound show ?thesis
      by (auto simp: past_or_torn_def)
  next
    case True
    obtain k v where kv: "us ! (a + n) = (k, v)" by fastforce
    have ok: "storable (k, v)"
      using us seg_nth(2) [OF True] kv by (metis list_all_length)
    let ?torn = "take j (record_bytes (k, v))"
    have "rehydrate (take len log) =
        foldl rehydrate_line (foldl upd [] (base @ take n ?seg)) (map from_utf8 (raw_lines [] ?torn))"
      using log_eq len cut True seg_nth(1) kv rehydrate_log_append [OF storable, of ?torn] by simp
    moreover have "j < length (record_bytes (k, v))"
      using n(2) True seg_nth(1) kv by simp
    ultimately consider "map_of (rehydrate (take len log)) = past m0 us (a + n)"
      | i where "map_of (rehydrate (take len log)) = (past m0 us (a + n))(k \<mapsto> take i v)"
      using torn_record [OF ok, of j "foldl upd [] (base @ take n ?seg)"] past by (metis update_conv')
    then show ?thesis
      using seg_nth(2) [OF True] kv bound unfolding past_or_torn_def
      by cases (fastforce, metis fst_conv snd_conv)
  qed
qed

section \<open>The invariant of a run\<close>

definition disk_inv :: "kv \<Rightarrow> kv \<Rightarrow> engine \<times> disk \<Rightarrow> bool" where
  "disk_inv m0 us st \<longleftrightarrow> (case st of (en, dk) \<Rightarrow>
     (let fs = dk_fs dk; temp = fs_paths fs TEMP_PATH in
      map_ok en \<and> map_of (en_map en) = past m0 us (length us) \<and> list_all storable us \<and>
      log_from m0 us (length us) (dk_synced dk (en_log_file en)) (fs_data fs (en_log_file en)) \<and>
      en_log_file en < fs_next fs \<and> temp \<noteq> Some (en_log_file en) \<and> (\<forall>t. temp = Some t \<longrightarrow> t < fs_next fs) \<and>
      fs_paths fs \<in> set (dk_dirs dk) \<and>
      (\<forall>dir \<in> set (dk_dirs dk). \<exists>i b. dir DB_PATH = Some i \<and> i < fs_next fs \<and> temp \<noteq> Some i \<and>
         log_from m0 us b (dk_synced dk i) (fs_data fs i))))"

lemma disk_set_inv:
  assumes "disk_inv m0 us st" and "storable (k, v)"
  shows "disk_inv m0 (us @ [(k, v)]) (disk_step (DiskSet k v) st)"
proof -
  obtain en dk where st: "st = (en, dk)" by fastforce
  let ?fs = "dk_fs dk" and ?i = "en_log_file en"
  let ?en = "en\<lparr>en_map := AList.update k v (en_map en)\<rparr>" and ?fs' = "fs_append ?i (record_bytes (k, v)) ?fs"
  have inv: "map_ok en" "map_of (en_map en) = past m0 us (length us)" "list_all storable us"
    "log_from m0 us (length us) (dk_synced dk ?i) (fs_data ?fs ?i)" "?i < fs_next ?fs"
    "fs_paths ?fs TEMP_PATH \<noteq> Some ?i" "\<And>t. fs_paths ?fs TEMP_PATH = Some t \<Longrightarrow> t < fs_next ?fs"
    "fs_paths ?fs \<in> set (dk_dirs dk)"
    "\<And>dir. dir \<in> set (dk_dirs dk) \<Longrightarrow> \<exists>i b. dir DB_PATH = Some i \<and> i < fs_next ?fs \<and>
       fs_paths ?fs TEMP_PATH \<noteq> Some i \<and> log_from m0 us b (dk_synced dk i) (fs_data ?fs i)"
    using assms(1) by (auto simp: disk_inv_def st Let_def)
  have step: "disk_step (DiskSet k v) st = (?en, dk\<lparr>dk_fs := ?fs'\<rparr>)"
    by (simp add: st disk_set_def Engine_set_def fs_write_def Let_def)
  note log = log_from_append [OF inv(4), of "(k, v)"]
  have dirs: "\<exists>i b. dir DB_PATH = Some i \<and> i < fs_next ?fs \<and> fs_paths ?fs TEMP_PATH \<noteq> Some i \<and>
      log_from m0 (us @ [(k, v)]) b (dk_synced dk i) (fs_data ?fs' i)" if dir: "dir \<in> set (dk_dirs dk)" for dir
  proof -
    obtain i b where i: "dir DB_PATH = Some i" "i < fs_next ?fs" "fs_paths ?fs TEMP_PATH \<noteq> Some i"
      "log_from m0 us b (dk_synced dk i) (fs_data ?fs i)"
      using inv(9) [OF dir] by blast
    show ?thesis
    proof (cases "i = ?i")
      case True
      with i log show ?thesis
        by (intro exI [of _ i] exI [of _ "length (us @ [(k, v)])"]) (simp add: fs_append_def)
    next
      case False
      with i log_from_more [OF i(4)] show ?thesis
        by (intro exI [of _ i] exI [of _ b]) (simp add: fs_append_def)
    qed
  qed
  have next': "fs_next ?fs' = fs_next ?fs" "fs_paths ?fs' = fs_paths ?fs"
    by (simp_all add: fs_append_def)
  have contents': "map_of (en_map ?en) = past m0 (us @ [(k, v)]) (length (us @ [(k, v)]))"
    using inv(2) by (simp add: map_of_upd update_conv')
  show ?thesis
    unfolding step disk_inv_def prod.case Let_def disk.simps disk.update_convs
    using inv(3,5,6,7,8) assms(2) map_ok_update [OF inv(1) assms(2)] contents' dirs log
    by (simp only: next' disk.select_convs disk.simps) (simp add: fs_append_def)
qed

lemma disk_compact_inv:
  assumes "disk_inv m0 us st"
  shows "disk_inv m0 us (disk_step (DiskCompact out) st)"
proof -
  obtain en dk where st: "st = (en, dk)" by fastforce
  let ?fs = "dk_fs dk" and ?i = "en_log_file en"
  have inv: "map_ok en" "map_of (en_map en) = past m0 us (length us)" "list_all storable us"
    "log_from m0 us (length us) (dk_synced dk ?i) (fs_data ?fs ?i)" "?i < fs_next ?fs"
    "fs_paths ?fs TEMP_PATH \<noteq> Some ?i" "\<And>t. fs_paths ?fs TEMP_PATH = Some t \<Longrightarrow> t < fs_next ?fs"
    "fs_paths ?fs \<in> set (dk_dirs dk)"
    "\<And>dir. dir \<in> set (dk_dirs dk) \<Longrightarrow> \<exists>i b. dir DB_PATH = Some i \<and> i < fs_next ?fs \<and>
       fs_paths ?fs TEMP_PATH \<noteq> Some i \<and> log_from m0 us b (dk_synced dk i) (fs_data ?fs i)"
    using assms(1) by (auto simp: disk_inv_def st Let_def)
  let ?content = "log_of (en_order en (en_map en))"
  obtain t fs1 where t: "open_truncate TEMP_PATH ?fs = (t, fs1)" by fastforce
  have fs1: "fs_paths fs1 = (fs_paths ?fs)(TEMP_PATH \<mapsto> t)" "fs_data fs1 = (fs_data ?fs)(t := [])"
    "t < fs_next fs1" "fs_next ?fs \<le> fs_next fs1" "t \<noteq> ?i"
    "fs_paths ?fs TEMP_PATH = Some t \<or> fs_next ?fs \<le> t"
    using t inv(5,6,7) by (auto simp: open_truncate_def fs_create_def split: option.splits)
  define bs where "bs = (case out of WriteTempFails j e \<Rightarrow> take j ?content | _ \<Rightarrow> ?content)"
  define renamed where "renamed \<longleftrightarrow> (\<exists>e. out = ReopenFails e) \<or> out = CompactOk"
  let ?fs2 = "fs_append t bs fs1"
  define fs' where "fs' = (if renamed then fs_rename TEMP_PATH DB_PATH ?fs2 else ?fs2)"
  let ?en = "if out = CompactOk then en\<lparr>en_log_file := t\<rparr> else en"
  let ?synced = "(dk_synced dk)(t := if temp_synced out then length (fs_data fs' t) else 0)"
  let ?dk = "\<lparr>dk_fs = fs', dk_synced = ?synced, dk_dirs = dk_dirs dk @ [fs_paths fs1, fs_paths fs']\<rparr>"
  show ?thesis
  proof (cases "\<exists>e. out = OpenTempFails e")
    case True
    with assms show ?thesis
      by (auto simp: st disk_compact_def Engine_compact_def Let_def case_prod_beta)
  next
    case False
    have reopen: "open_append DB_PATH (fs_rename TEMP_PATH DB_PATH ?fs2) = (t, fs_rename TEMP_PATH DB_PATH ?fs2)"
      by (simp add: open_append_def fs_rename_def fs_append_def fs1(1))
    have step: "disk_step (DiskCompact out) st = (?en, ?dk)"
      using False reopen unfolding log_of_def
      by (cases out) (simp_all add: st disk_compact_def Engine_compact_def t Let_def bs_def renamed_def log_of_def fs'_def)
    have data: "fs_data fs' i = (if i = t then bs else fs_data ?fs i)" for i
      by (simp add: fs_append_def fs_rename_def fs1(2) fs'_def)
    have paths: "fs_paths fs' = (if renamed then (fs_paths ?fs)(DB_PATH \<mapsto> t, TEMP_PATH := None) else (fs_paths ?fs)(TEMP_PATH \<mapsto> t))"
      by (auto simp: fs_append_def fs_rename_def fs1(1) fun_eq_iff fs'_def)
    have next': "fs_next fs' = fs_next fs1"
      by (simp add: fs_append_def fs_rename_def fs'_def)
    have new_log: "log_from m0 us (length us) (?synced t) (fs_data fs' t)" if renamed
    proof -
      have "bs = ?content" "temp_synced out"
        using that by (auto simp: renamed_def bs_def)
      with compacted_records [OF inv(1)] inv(2) show ?thesis
        unfolding log_from_def data
        by (intro conjI order_refl exI [of _ "en_order en (en_map en)"] exI [of _ "length us"]) simp_all
    qed
    have old_dirs: "\<exists>i b. dir DB_PATH = Some i \<and> i < fs_next fs1 \<and> fs_paths fs' TEMP_PATH \<noteq> Some i \<and> log_from m0 us b (?synced i) (fs_data fs' i)"
      if dir: "dir \<in> set (dk_dirs dk)" for dir
    proof -
      obtain i b where i: "dir DB_PATH = Some i" "i < fs_next ?fs" "fs_paths ?fs TEMP_PATH \<noteq> Some i"
        "log_from m0 us b (dk_synced dk i) (fs_data ?fs i)"
        using inv(9) [OF dir] by blast
      then have "i \<noteq> t"
        using fs1(6) by auto
      with i fs1(4) show ?thesis
        by (intro exI [of _ i] exI [of _ b]) (simp add: data paths)
    qed
    have db: "\<exists>i b. fs_paths fs' DB_PATH = Some i \<and> i < fs_next fs1 \<and> fs_paths fs' TEMP_PATH \<noteq> Some i \<and>
        log_from m0 us b (?synced i) (fs_data fs' i)"
    proof (cases renamed)
      case True
      with new_log fs1(3) show ?thesis
        by (intro exI [of _ t] exI [of _ "length us"]) (simp add: paths)
    next
      case False
      then have "fs_paths fs' DB_PATH = fs_paths ?fs DB_PATH"
        by (simp add: paths)
      then show ?thesis
        using old_dirs [OF inv(8)] by (simp only:)
    qed
    have dirs: "\<exists>i b. dir DB_PATH = Some i \<and> i < fs_next fs1 \<and> fs_paths fs' TEMP_PATH \<noteq> Some i \<and>
        log_from m0 us b (?synced i) (fs_data fs' i)" if dir: "dir \<in> set (dk_dirs ?dk)" for dir
    proof -
      consider "dir \<in> set (dk_dirs dk)" | "dir = fs_paths fs1" | "dir = fs_paths fs'"
        using dir by auto
      then show ?thesis
      proof cases
        case 1
        then show ?thesis by (rule old_dirs)
      next
        case 2
        then have "dir DB_PATH = fs_paths ?fs DB_PATH"
          by (simp add: fs1(1))
        then show ?thesis
          using old_dirs [OF inv(8)] by (simp only:)
      next
        case 3
        with db show ?thesis by (simp only:)
      qed
    qed
    have log: "log_from m0 us (length us) (?synced (en_log_file ?en)) (fs_data fs' (en_log_file ?en))"
      and handle: "en_log_file ?en < fs_next fs1" "fs_paths fs' TEMP_PATH \<noteq> Some (en_log_file ?en)"
    proof -
      have "renamed" if "out = CompactOk"
        using that by (simp add: renamed_def)
      then show "log_from m0 us (length us) (?synced (en_log_file ?en)) (fs_data fs' (en_log_file ?en))"
        and "en_log_file ?en < fs_next fs1" and "fs_paths fs' TEMP_PATH \<noteq> Some (en_log_file ?en)"
        using new_log inv(4,5) fs1(3,4,5) by (cases "out = CompactOk"; simp add: data paths)+
    qed
    have "map_ok ?en" "map_of (en_map ?en) = past m0 us (length us)"
      using inv(1,2) by (simp_all add: map_ok_def)
    moreover have "\<And>s. fs_paths fs' TEMP_PATH = Some s \<Longrightarrow> s < fs_next fs1"
      using fs1(3) by (auto simp: paths split: if_splits)
    ultimately show ?thesis
      unfolding step disk_inv_def prod.case Let_def disk.simps next'
      using inv(3) log handle dirs by (simp only: disk.simps) auto
  qed
qed

lemma disk_inv_start:
  assumes "db_inv (en, fs)"
  shows "disk_inv (en_map en) [] (en, up_to_date fs)"
proof -
  have fs: "fs_ok fs" "fs_paths fs DB_PATH = Some (en_log_file en)" "map_ok en"
    and log: "log_holds (fs_data fs (en_log_file en)) (en_map en)"
    using assms by (simp_all add: db_inv_def)
  from log have "log_from (en_map en) [] 0 (length (fs_data fs (en_log_file en))) (fs_data fs (en_log_file en))"
    by (auto simp: log_from_def log_holds_def)
  moreover have "en_log_file en < fs_next fs" "fs_paths fs TEMP_PATH \<noteq> Some (en_log_file en)"
    "\<And>t. fs_paths fs TEMP_PATH = Some t \<Longrightarrow> t < fs_next fs"
    using fs(1,2) unfolding fs_ok_def by (metis paths_differ(1))+
  ultimately show ?thesis
    using fs(2,3) by (auto simp: disk_inv_def up_to_date_def)
qed

lemma disk_run_inv:
  "disk_inv m0 us st \<Longrightarrow> list_all storable (written es) \<Longrightarrow> disk_inv m0 (us @ written es) (disk_run es st)"
proof (induction es arbitrary: us st)
  case (Cons e es)
  show ?case
  proof (cases e)
    case (DiskSet k v)
    with Cons.prems have "disk_inv m0 (us @ [(k, v)]) (disk_step e st)"
      by (simp add: disk_set_inv del: disk_step.simps)
    with Cons.IH [OF this] Cons.prems(2) DiskSet show ?thesis
      by (simp add: disk_run_def del: disk_step.simps)
  next
    case (DiskCompact out)
    with Cons.prems have "disk_inv m0 us (disk_step e st)"
      by (simp add: disk_compact_inv del: disk_step.simps)
    with Cons.IH [OF this] Cons.prems(2) DiskCompact show ?thesis
      by (simp add: disk_run_def del: disk_step.simps)
  qed
qed (simp add: disk_run_def)

text \<open>
  C10: a loss of power. Start from any database whose memory and log agree, with storable entries
  (\<open>db_inv\<close>), and whose disk has caught up. After any SETs whose keys and values are storable (no comma or
  line feed in a key, no line feed or final carriage return in a value) and whose writes succeed, and any
  compactions that complete or stop at any step, a start after the loss finds the contents as they
  were after some number of the SETs (never a mixture of earlier and later ones, whichever of the
  two logs and however much of it is on the disk), except that the next SET may be there with its
  value cut short.
\<close>

theorem power_loss_recovers_past:
  assumes "db_inv (en, fs)" and "list_all storable (written es)"
    and "disk_run es (en, up_to_date fs) = (en', dk)" and "admissible dir len dk"
  shows "past_or_torn (en_map en) (written es) (recovered (en', power_loss dir len dk))"
proof -
  have inv: "disk_inv (en_map en) (written es) (en', dk)"
    using disk_run_inv [OF disk_inv_start [OF assms(1)] assms(2)] assms(3) by simp
  with assms(4) obtain i b where i: "dir DB_PATH = Some i"
    and log: "log_from (en_map en) (written es) b (dk_synced dk i) (fs_data (dk_fs dk) i)"
    unfolding disk_inv_def admissible_def by (fastforce simp: Let_def)
  have "dk_synced dk i \<le> len i"
    using assms(4) by (simp add: admissible_def)
  from cut_log_recovers [OF log this assms(2)] show ?thesis
    by (simp add: recovered_def power_loss_def i)
qed

text \<open>
  C26: what a compaction makes durable. Start from any database whose memory and log agree, with storable
  entries (\<open>db_inv\<close>), and whose disk has caught up. After any SETs whose keys and values are storable (no
  comma or line feed in a key, no line feed or final carriage return in a value) and whose writes succeed,
  any compactions, and a last one that completes: once the rename of that one is on the disk, a loss of power loses
  nothing, the next start finds the contents with every SET.
\<close>

theorem compaction_survives_power_loss:
  assumes "db_inv (en, fs)" and "list_all storable (written es)"
    and "disk_run (es @ [DiskCompact CompactOk]) (en, up_to_date fs) = (en', dk)"
    and "admissible dir len dk" and "dir = fs_paths (dk_fs dk)"
  shows "recovered (en', power_loss dir len dk) = past (en_map en) (written es) (length (written es))"
proof -
  obtain en1 dk1 where run: "disk_run es (en, up_to_date fs) = (en1, dk1)" by fastforce
  have inv: "disk_inv (en_map en) (written es) (en1, dk1)"
    using disk_run_inv [OF disk_inv_start [OF assms(1)] assms(2)] run by simp
  have step: "disk_step (DiskCompact CompactOk) (en1, dk1) = (en', dk)"
    using assms(3) run by (simp add: disk_run_def)
  obtain t fs1 where t: "open_truncate TEMP_PATH (dk_fs dk1) = (t, fs1)" by fastforce
  have fs1: "fs_paths fs1 TEMP_PATH = Some t" "fs_data fs1 t = []"
    using t by (auto simp: open_truncate_def fs_create_def split: option.splits)
  let ?content = "log_of (en_order en1 (en_map en1))"
  have "fs_paths (dk_fs dk) DB_PATH = Some t" and "fs_data (dk_fs dk) t = ?content" and "dk_synced dk t = length ?content"
    using step fs1 by (auto simp: disk_compact_def Engine_compact_def t Let_def open_append_def fs_rename_def fs_append_def
        log_of_def)
  moreover have "dk_synced dk t \<le> len t"
    using assms(4) by (simp add: admissible_def)
  ultimately have "recovered (en', power_loss dir len dk) = map_of (rehydrate ?content)"
    by (simp add: recovered_def power_loss_def assms(5))
  also have "\<dots> = map_of (en_map en1)"
    using inv by (simp add: disk_inv_def Let_def rehydrate_log compacted_records)
  also have "\<dots> = past (en_map en) (written es) (length (written es))"
    using inv by (simp add: disk_inv_def Let_def)
  finally show ?thesis .
qed

text \<open>After an acknowledged SET the disk may hold its record up to any character of the value.\<close>

lemma torn_log:
  assumes "db_inv (en, fs)" and "storable (k, v)"
  obtains rs en' dk len where "disk_set k v (en, up_to_date fs) = (Inr (), en', dk)" and "admissible (fs_paths fs) len dk"
    and "fs_data (power_loss (fs_paths fs) len dk) (en_log_file en) = log_of rs @ utf8_encode (k @ comma # take i v)"
    and "list_all storable rs" and "map_of (foldl upd [] rs) = contents (en, fs)"
    and "fs_paths (power_loss (fs_paths fs) len dk) DB_PATH = Some (en_log_file en)"
proof -
  let ?i = "en_log_file en" and ?t = "k @ comma # take i v"
  let ?old = "fs_data fs ?i"
  let ?fs = "fs_append ?i (record_bytes (k, v)) fs"
  define len where "len = (\<lambda>j. if j = ?i then length ?old + length (utf8_encode ?t) else length (fs_data fs j))"
  let ?dk = "(up_to_date fs)\<lparr>dk_fs := ?fs\<rparr>"
  obtain rs where rs: "list_all storable rs" "?old = log_of rs" "map_of (foldl upd [] rs) = map_of (en_map en)"
    and db: "fs_paths fs DB_PATH = Some ?i"
    using assms(1) by (auto simp: db_inv_def log_holds_def)
  have "utf8_encode (k @ comma # v) = utf8_encode ?t @ utf8_encode (drop i v)"
    by (simp add: utf8_encode_def flip: concat_append map_append)
  then have log: "fs_data (power_loss (fs_paths fs) len ?dk) ?i = log_of rs @ utf8_encode ?t"
    by (simp add: power_loss_def len_def fs_append_def record_bytes_def rs(2))
  have set: "disk_set k v (en, up_to_date fs) = (Inr (), en\<lparr>en_map := AList.update k v (en_map en)\<rparr>, ?dk)"
    by (simp add: disk_set_def Engine_set_def fs_write_def up_to_date_def)
  have "admissible (fs_paths fs) len ?dk" and path: "fs_paths (power_loss (fs_paths fs) len ?dk) DB_PATH = Some ?i"
    by (simp_all add: admissible_def up_to_date_def len_def power_loss_def db)
  then show thesis
    using rs(3) by (intro that [OF set _ log rs(1) _ path]) (simp_all add: contents_def)
qed

lemma torn_text:
  assumes "storable (k, v)"
  shows "list_all is_scalar (k @ comma # take i v)" and "10 \<notin> set (utf8_encode (k @ comma # take i v))"
proof -
  let ?t = "k @ comma # take i v"
  show ok: "list_all is_scalar ?t"
    using assms by (auto simp: storable_def comma_def is_scalar_def list_all_iff dest: in_set_takeD)
  have "10 \<notin> set ?t"
    using assms by (auto simp: storable_def comma_def dest: in_set_takeD)
  then show "10 \<notin> set (utf8_encode ?t)"
    using utf8_low_bytes_iff [OF ok, of 10] by auto
qed

lemma rehydrate_torn:
  assumes "list_all storable rs" and "storable (k, v)"
  shows "rehydrate (log_of rs @ utf8_encode (k @ comma # take i v)) = AList.update k (take i v) (foldl upd [] rs)"
proof -
  have "raw_lines [] (utf8_encode (k @ comma # take i v)) = [utf8_encode (k @ comma # take i v)]"
    using raw_lines_rest [OF torn_text(2) [OF assms(2), of i], of "[]"] utf8_encode_char_not_Nil by (auto simp: utf8_encode_def)
  then show ?thesis
    using rehydrate_log_append [OF assms(1), of "utf8_encode (k @ comma # take i v)"] torn_text(1) [OF assms(2), of i] assms(2)
    by (simp add: rehydrate_line_def split_once_append storable_def)
qed

text \<open>
  C27: a value nobody has written. After an acknowledged SET (storable, on a database that was consistent with
  its log and its disk) the disk may hold any initial part of its record, and the next start takes an
  initial part of the value, of any length, for the value.
\<close>

theorem torn_value_is_served:
  assumes "db_inv (en, fs)" and "storable (k, v)" and "i \<le> length v"
  shows "\<exists>en' dk len. disk_set k v (en, up_to_date fs) = (Inr (), en', dk) \<and> admissible (fs_paths fs) len dk \<and>
    recovered (en', power_loss (fs_paths fs) len dk) = (contents (en, fs))(k \<mapsto> take i v)"
proof -
  obtain rs en' dk len where "disk_set k v (en, up_to_date fs) = (Inr (), en', dk)" and "admissible (fs_paths fs) len dk"
    and log: "fs_data (power_loss (fs_paths fs) len dk) (en_log_file en) = log_of rs @ utf8_encode (k @ comma # take i v)"
    and rs: "list_all storable rs" "map_of (foldl upd [] rs) = contents (en, fs)"
    and "fs_paths (power_loss (fs_paths fs) len dk) DB_PATH = Some (en_log_file en)"
    using assms(1,2) by (rule torn_log)
  moreover from rehydrate_torn [OF rs(1) assms(2)] rs(2)
  have "map_of (rehydrate (log_of rs @ utf8_encode (k @ comma # take i v))) = (contents (en, fs))(k \<mapsto> take i v)"
    by (simp add: update_conv')
  ultimately show ?thesis
    by (intro exI [of _ en'] exI [of _ dk] exI [of _ len]) (simp add: recovered_def)
qed

text \<open>Two keys, with a compaction between them; the disk holds only what was synchronised.\<close>

theorem power_loss_recovers_past_witness:
  "\<exists>en' dk. disk_run [DiskSet kA [49], DiskCompact CompactOk, DiskSet kB [50]]
       (fst (engine_start rev_order), up_to_date (snd (engine_start rev_order))) = (en', dk) \<and>
     past_or_torn [] [(kA, [49]), (kB, [50])] (recovered (en', power_loss (fs_paths (dk_fs dk)) (dk_synced dk) dk))"
proof -
  let ?en = "fst (engine_start rev_order)" and ?fs = "snd (engine_start rev_order)"
  let ?es = "[DiskSet kA [49], DiskCompact CompactOk, DiskSet kB [50]]"
  have inv: "db_inv (?en, ?fs)"
    using db_inv_start [OF rev_order] by simp
  have es: "list_all storable (written ?es)"
    by (simp add: storable_sample is_scalar_def)
  obtain en' dk where run: "disk_run ?es (?en, up_to_date ?fs) = (en', dk)" by fastforce
  have "disk_inv (en_map ?en) ([] @ written ?es) (en', dk)"
    using disk_run_inv [OF disk_inv_start [OF inv] es] run by simp
  then have "admissible (fs_paths (dk_fs dk)) (dk_synced dk) dk"
    by (simp add: disk_inv_def admissible_def Let_def)
  from power_loss_recovers_past [OF inv es run this] run show ?thesis
    by (simp add: engine_start_def)
qed

theorem compaction_survives_power_loss_witness:
  "\<exists>en' dk. disk_run [DiskSet kA [49], DiskCompact CompactOk]
       (fst (engine_start rev_order), up_to_date (snd (engine_start rev_order))) = (en', dk) \<and>
     recovered (en', power_loss (fs_paths (dk_fs dk)) (dk_synced dk) dk) = [kA \<mapsto> [49]]"
proof -
  let ?en = "fst (engine_start rev_order)" and ?fs = "snd (engine_start rev_order)"
  let ?es = "[DiskSet kA [49]] @ [DiskCompact CompactOk]"
  have inv: "db_inv (?en, ?fs)"
    using db_inv_start [OF rev_order] by simp
  have es: "list_all storable (written [DiskSet kA [49]])" "list_all storable (written ?es)"
    by (simp_all add: storable_sample is_scalar_def)
  obtain en' dk where run: "disk_run ?es (?en, up_to_date ?fs) = (en', dk)" by fastforce
  have "disk_inv (en_map ?en) ([] @ written ?es) (en', dk)"
    using disk_run_inv [OF disk_inv_start [OF inv] es(2)] run by simp
  then have "admissible (fs_paths (dk_fs dk)) (dk_synced dk) dk"
    by (simp add: disk_inv_def admissible_def Let_def)
  from compaction_survives_power_loss [OF inv es(1) run this refl] run show ?thesis
    by (simp add: engine_start_def upd_def)
qed

text \<open>The client was told that its SET of 12 is done; the value 1 comes back.\<close>

theorem torn_value_is_served_witness:
  "\<exists>en' dk len. disk_set kA [49, 50] (fst (engine_start rev_order), up_to_date (snd (engine_start rev_order))) =
       (Inr (), en', dk) \<and>
     recovered (en', power_loss (fs_paths (snd (engine_start rev_order))) len dk) = [kA \<mapsto> [49]]"
proof -
  have inv: "db_inv (fst (engine_start rev_order), snd (engine_start rev_order))"
    using db_inv_start [OF rev_order] by simp
  have "storable (kA, [49, 50])"
    by (simp add: storable_sample is_scalar_def)
  from torn_value_is_served [OF inv this, of 1] show ?thesis
    by (auto simp: contents_def engine_start_def)
qed

end
