(* ===== verification/Chronos_Restart.thy ===== *)
theory Chronos_Restart
  imports Chronos_Crash Chronos_Server
begin

text \<open>
  Chronos after a crash: what a start makes of a log that was cut, or of any bytes at all; what the
  sets after it are worth, and that a compaction makes the log good again.
\<close>

section \<open>What a start can find\<close>

text \<open>A character below 128 is its own byte, so a line decoded has no line feed.\<close>

lemma decode_low: "utf8_decode_char bs = (Some c, n) \<Longrightarrow> c < 128 \<Longrightarrow> c = byte_at bs 0"
proof -
  assume d: "utf8_decode_char bs = (Some c, n)" and low: "c < 128"
  define b0 b1 b2 b3 where "b0 = byte_at bs 0" and "b1 = byte_at bs 1" and "b2 = byte_at bs 2" and "b3 = byte_at bs 3"
  from d consider "c = b0"
    | "utf8_char_width b0 = 2" "c = b0 mod 32 * 64 + b1 mod 64"
    | "utf8_char_width b0 = 3" "second_ok_3 b0 b1" "c = b0 mod 16 * 4096 + b1 mod 64 * 64 + b2 mod 64"
    | "utf8_char_width b0 = 4" "second_ok_4 b0 b1" "c = b0 mod 8 * 262144 + b1 mod 64 * 4096 + b2 mod 64 * 64 + b3 mod 64"
    by (auto simp: utf8_decode_char_def Let_def b0_def b1_def b2_def b3_def split: if_splits)
  then show "c = byte_at bs 0"
  proof cases
    case 1
    then show ?thesis by (simp add: b0_def)
  next
    case 2
    then have r: "194 \<le> b0" "b0 < 224"
      by (simp_all add: utf8_char_width_def split: if_splits)
    then have "b0 mod 32 = b0 - 192"
      using digit_mods(1) [of "b0 - 192"] by simp
    with 2(2) low r have False by linarith
    then show ?thesis ..
  next
    case 3
    then have r: "224 \<le> b0" "b0 < 240"
      by (simp_all add: utf8_char_width_def split: if_splits)
    then have m: "b0 mod 16 = b0 - 224"
      using digit_mods(2) [of "b0 - 224"] by simp
    have "32 \<le> b1 mod 64" if "b0 = 224"
      using 3(2) that digit_mods(4) [of "b1 - 128"] by (auto simp: second_ok_3_def)
    with 3(3) m r low have False
      by (cases "b0 = 224") linarith+
    then show ?thesis ..
  next
    case 4
    then have r: "240 \<le> b0" "b0 < 245"
      by (simp_all add: utf8_char_width_def split: if_splits)
    then have m: "b0 mod 8 = b0 - 240"
      using digit_mods(3) [of "b0 - 240"] by simp
    have "16 \<le> b1 mod 64" if "b0 = 240"
      using 4(2) that digit_mods(4) [of "b1 - 128"] by (auto simp: second_ok_4_def)
    with 4(3) m r low have False
      by (cases "b0 = 240") linarith+
    then show ?thesis ..
  qed
qed

lemma chunks_low: "Some c \<in> set (utf8_chunks bs) \<Longrightarrow> c < 128 \<Longrightarrow> of_nat c \<in> set bs"
proof (induction bs rule: utf8_chunks.induct)
  case (2 b bs)
  obtain x n where d: "utf8_decode_char (b # bs) = (x, n)" by fastforce
  show ?case
  proof (cases "x = Some c")
    case True
    with decode_low d 2(3) have "c = unat b" by fastforce
    then show ?thesis by simp
  next
    case False
    with 2 d show ?thesis by (auto dest: in_set_dropD)
  qed
qed simp

lemma decoded_text:
  assumes "from_utf8 bs = Some t"
  shows "list_all is_scalar t" and "10 \<notin> set bs \<Longrightarrow> 10 \<notin> set t"
proof -
  have t: "t = map the (utf8_chunks bs)" and all: "None \<notin> set (utf8_chunks bs)"
    using assms by (auto simp: from_utf8_def Let_def split: if_splits)
  have chunk: "Some c \<in> set (utf8_chunks bs)" if "c \<in> set t" for c
    using that all unfolding t by (metis (no_types, lifting) imageE list.set_map option.collapse)
  have "Some c \<in> set (utf8_chunks bs) \<Longrightarrow> is_scalar c" for c
    by (induction bs rule: utf8_chunks.induct) (auto dest: decode_char_scalar [OF sym] split: prod.splits)
  with chunk show "list_all is_scalar t"
    by (auto simp: list_all_iff)
  show "10 \<notin> set t" if "10 \<notin> set bs"
    using chunk [of 10] chunks_low [of 10 bs] that by auto
qed

lemma raw_lines_no_lf: "l \<in> set (raw_lines acc bs) \<Longrightarrow> 10 \<notin> set acc \<Longrightarrow> 10 \<notin> set l"
proof (induction acc bs rule: raw_lines.induct)
  case (2 acc b bs)
  have "set (strip_cr acc) \<subseteq> set acc"
    by (auto simp: strip_cr_def dest: in_set_butlastD)
  with 2 show ?case by (auto split: if_splits)
qed (auto split: if_splits)

lemma split_once_Some: "split_once c t = Some (k, v) \<Longrightarrow> t = k @ c # v \<and> c \<notin> set k"
  by (induction t arbitrary: k) (auto split: if_splits option.splits)

text \<open>Whatever the bytes, a start finds distinct keys without commas, and no line feeds.\<close>

definition plain :: "ustring \<times> ustring \<Rightarrow> bool" where
  "plain kv \<longleftrightarrow> list_all is_scalar (fst kv) \<and> list_all is_scalar (snd kv) \<and> comma \<notin> set (fst kv) \<and>
     10 \<notin> set (fst kv) \<and> 10 \<notin> set (snd kv)"

lemma rehydrate_plain: "distinct (map fst (rehydrate bs)) \<and> list_all plain (rehydrate bs)"
proof -
  have "distinct (map fst (foldl rehydrate_line m (map from_utf8 ls))) \<and> list_all plain (foldl rehydrate_line m (map from_utf8 ls))"
    if "distinct (map fst m)" "list_all plain m" "\<forall>l \<in> set ls. 10 \<notin> set l" for m ls
    using that
  proof (induction ls arbitrary: m)
    case (Cons l ls)
    have "distinct (map fst (rehydrate_line m (from_utf8 l))) \<and> list_all plain (rehydrate_line m (from_utf8 l))"
    proof (cases "from_utf8 l")
      case (Some t)
      note t = decoded_text [OF Some]
      show ?thesis
      proof (cases "split_once comma t")
        case (Some kv)
        obtain k v where kv: "kv = (k, v)" by fastforce
        with Some split_once_Some [of comma t k v] have "t = k @ comma # v" "comma \<notin> set k" by simp_all
        with t Cons.prems(3) have "plain (k, v)"
          by (auto simp: plain_def)
        with Some \<open>from_utf8 l = Some t\<close> kv Cons.prems(1,2) set_update [of k v m] show ?thesis
          by (auto simp: rehydrate_line_def distinct_update list_all_iff)
      qed (use Cons.prems \<open>from_utf8 l = Some t\<close> in \<open>simp add: rehydrate_line_def\<close>)
    qed (use Cons.prems in \<open>simp add: rehydrate_line_def\<close>)
    with Cons.IH [of "rehydrate_line m (from_utf8 l)"] Cons.prems(3) show ?case by simp
  qed simp
  from this [of "[]" "raw_lines [] bs"] raw_lines_no_lf [of _ "[]" bs] show ?thesis
    by (auto simp: rehydrate_def buf_lines_def)
qed

section \<open>A compaction makes the log good\<close>

text \<open>
  C25: a start and a compaction repair any log. Whatever bytes the file holds (torn, glued or foreign
  lines, broken UTF-8), the database opens, and once a compaction completes memory and disk agree again on
  what was found. All the sets that follow, however many, are then acknowledged and there after the
  next start, if their writes succeed and their keys and values are storable (no comma or line feed in the
  key, no line feed or final carriage return in the value). A value found must not end in a carriage return, which
  no compaction can write back.
\<close>

theorem compaction_repairs_log:
  assumes "fs_ok fs" and "fs_paths fs DB_PATH = Some i" and "\<forall>m. mset (order m) = mset m"
    and "\<forall>k v. map_of (rehydrate (fs_data fs i)) k = Some v \<longrightarrow> v \<noteq> [] \<longrightarrow> last v \<noteq> 13"
  shows "\<exists>en st. Engine_new DB_PATH IoOk order fs = (Inr en, fs) \<and> Engine_compact CompactOk (en, fs) = (Inr (), st) \<and>
    contents st = map_of (rehydrate (fs_data fs i)) \<and> recovered st = contents st \<and> db_inv st \<and>
    (\<forall>kvs. list_all storable kvs \<longrightarrow> (\<exists>st'. Engine_sets kvs st = (replicate (length kvs) (Inr ()), st') \<and>
       contents st' = contents st ++ map_of (rev kvs) \<and> recovered st' = contents st'))"
proof -
  let ?m = "rehydrate (fs_data fs i)"
  let ?en = "\<lparr>en_map = ?m, en_order = order, en_log_file = i\<rparr>"
  have "storable kv" if "kv \<in> set ?m" for kv
  proof -
    have "map_of ?m (fst kv) = Some (snd kv)"
      using that rehydrate_plain by (simp add: map_of_is_SomeI)
    with assms(4) have "snd kv \<noteq> [] \<longrightarrow> last (snd kv) \<noteq> 13" by blast
    with that rehydrate_plain [of "fs_data fs i"] show ?thesis
      by (auto simp: storable_def plain_def list_all_iff)
  qed
  then have "map_ok ?en"
    using rehydrate_plain assms(3) by (simp add: map_ok_def list_all_iff)
  then obtain st where "Engine_compact CompactOk (?en, fs) = (Inr (), st)" and "contents st = contents (?en, fs)" and st: "db_inv st"
    using compact_rewrites [OF assms(1,2)] by blast
  moreover have "Engine_new DB_PATH IoOk order fs = (Inr ?en, fs)"
    using assms(2) by (simp add: Engine_new_def open_append_def)
  moreover have "\<exists>st'. Engine_sets kvs st = (replicate (length kvs) (Inr ()), st') \<and>
      contents st' = contents st ++ map_of (rev kvs) \<and> recovered st' = contents st'" if "list_all storable kvs" for kvs
    using Engine_sets_ok [OF st that] db_inv_durable by blast
  ultimately show ?thesis
    using db_inv_durable [OF st] by (intro exI [of _ ?en] exI [of _ st]) (simp add: contents_def)
qed

section \<open>Without it\<close>

lemma record_glued: "record_bytes (k, f @ k2 @ comma # v2) = utf8_encode (k @ comma # f) @ record_bytes (k2, v2)"
  by (simp add: record_bytes_def utf8_encode_append flip: append_assoc) (simp add: utf8_encode_def)

text \<open>
  C28: a crash costs a set of the next process too. The record that a loss of power has cut is the last line
  of the log, without its end; the start takes it for a record, and the first set after it, although
  acknowledged and on the disk, is glued to it: the start after that finds its key as it was before, and
  its record in the value of the other. (The log was good before, the two keys differ, and both records are
  storable; the cut may fall after any character of the value.)
\<close>

theorem torn_record_swallows_next:
  assumes "db_inv (en, fs)" and "storable (k, v)" and "i \<le> length v" and "storable (k2, v2)" and "k2 \<noteq> k"
  shows "\<exists>en' dk len fs1 en1 st2. disk_set k v (en, up_to_date fs) = (Inr (), en', dk) \<and>
    admissible (fs_paths fs) len dk \<and> fs1 = power_loss (fs_paths fs) len dk \<and>
    Engine_new DB_PATH IoOk order fs1 = (Inr en1, fs1) \<and> Engine_set k2 v2 IoOk (en1, fs1) = (Inr (), st2) \<and>
    contents st2 k2 = Some v2 \<and> recovered st2 k2 = contents (en, fs) k2 \<and>
    recovered st2 k = Some (take i v @ k2 @ comma # v2)"
proof -
  let ?log = "en_log_file en"
  obtain rs en' dk len where set: "disk_set k v (en, up_to_date fs) = (Inr (), en', dk)" "admissible (fs_paths fs) len dk"
    and log: "fs_data (power_loss (fs_paths fs) len dk) ?log = log_of rs @ utf8_encode (k @ comma # take i v)"
    and rs: "list_all storable rs" "map_of (foldl upd [] rs) = contents (en, fs)"
    and path: "fs_paths (power_loss (fs_paths fs) len dk) DB_PATH = Some ?log"
    using assms(1,2) by (rule torn_log)
  let ?fs1 = "power_loss (fs_paths fs) len dk"
  let ?en1 = "\<lparr>en_map = rehydrate (fs_data ?fs1 ?log), en_order = order, en_log_file = ?log\<rparr>"
  let ?st2 = "(?en1\<lparr>en_map := AList.update k2 v2 (en_map ?en1)\<rparr>, fs_append ?log (record_bytes (k2, v2)) ?fs1)"
  let ?glued = "take i v @ k2 @ comma # v2"
  have "storable (k, ?glued)"
    using assms(2,4) by (auto simp: storable_def comma_def is_scalar_def list_all_iff dest: in_set_takeD)
  moreover have "fs_data (snd ?st2) ?log = log_of (rs @ [(k, ?glued)])"
    using record_glued [of k "take i v" k2 v2] by (simp add: fs_append_def log)
  ultimately have "recovered ?st2 = map_of (foldl upd [] (rs @ [(k, ?glued)]))"
    using rs(1) path recovered_log [of "snd ?st2" ?log "rs @ [(k, ?glued)]" "fst ?st2"] by simp
  then have "recovered ?st2 = (contents (en, fs))(k \<mapsto> ?glued)"
    by (simp add: map_of_upd rs(2))
  moreover have "Engine_new DB_PATH IoOk order ?fs1 = (Inr ?en1, ?fs1)"
    using path by (simp add: Engine_new_def open_append_def)
  moreover have "Engine_set k2 v2 IoOk (?en1, ?fs1) = (Inr (), ?st2)" and "contents ?st2 k2 = Some v2"
    by (simp_all add: Engine_set_def fs_write_def contents_def update_conv')
  ultimately show ?thesis
    using set assms(5)
    by (intro exI [of _ en'] exI [of _ dk] exI [of _ len] exI [of _ ?fs1] exI [of _ ?en1] exI [of _ ?st2]) simp
qed

section \<open>A write that fails half way\<close>

text \<open>A character that another one interrupts is no character.\<close>

lemma first_byte_not_cont:
  assumes "is_scalar c" and "utf8_encode_char c = b # bs"
  shows "\<not> is_cont (unat b)"
proof
  assume "is_cont (unat b)"
  then have "utf8_char_width (unat b) = 0"
    by (simp add: utf8_char_width_def is_cont_def)
  with first_byte_width [OF assms] assms(2) show False by simp
qed

lemma decode_interrupted:
  assumes "length (b # xs) < utf8_char_width (unat b)" and c: "\<not> is_cont (unat c)"
  shows "fst (utf8_decode_char (b # xs @ c # r)) = None"
proof -
  have second: "\<not> second_ok_3 (unat b) (unat c)" "\<not> second_ok_4 (unat b) (unat c)"
    using c by (auto simp: second_ok_3_def second_ok_4_def is_cont_def split: if_splits)
  have "utf8_char_width (unat b) \<le> 4"
    by (simp add: utf8_char_width_def)
  with assms(1) have "length xs \<le> 2" by simp
  then consider "xs = []" | x where "xs = [x]" | x y where "xs = [x, y]"
    by (cases xs; cases "tl xs"; cases "tl (tl xs)") auto
  then show ?thesis
    using assms(1) c second by cases (auto simp: utf8_decode_char_def Let_def byte_at_def)
qed

lemma cut_text_cases:
  assumes "list_all is_scalar t" and "j \<le> length (utf8_encode t)"
  obtains (whole) m where "m \<le> length t" and "take j (utf8_encode t) = utf8_encode (take m t)"
    | (inside) q c i where "list_all is_scalar q" and "is_scalar c" and "0 < i" and "i < length (utf8_encode_char c)"
        and "take j (utf8_encode t) = utf8_encode q @ take i (utf8_encode_char c)"
proof -
  have "(\<exists>m \<le> length t. take j (utf8_encode t) = utf8_encode (take m t)) \<or>
      (\<exists>q c i. list_all is_scalar q \<and> is_scalar c \<and> 0 < i \<and> i < length (utf8_encode_char c) \<and>
         take j (utf8_encode t) = utf8_encode q @ take i (utf8_encode_char c))"
    using assms
  proof (induction t arbitrary: j)
    case (Cons c t)
    let ?n = "length (utf8_encode_char c)"
    consider "j = 0" | "0 < j" "j < ?n" | "?n \<le> j" by linarith
    then show ?case
    proof cases
      case 1
      then show ?thesis by (intro disjI1 exI [of _ 0]) (simp add: utf8_encode_def)
    next
      case 2
      with Cons.prems show ?thesis
        by (intro disjI2 exI [of _ "[]"] exI [of _ c] exI [of _ j]) (simp add: utf8_encode_def)
    next
      case 3
      then have split: "take j (utf8_encode (c # t)) = utf8_encode_char c @ take (j - ?n) (utf8_encode t)"
        by (simp add: utf8_encode_def)
      from Cons.prems 3 have "list_all is_scalar t" "j - ?n \<le> length (utf8_encode t)"
        by (simp_all add: utf8_encode_def)
      from Cons.IH [OF this] show ?thesis
      proof (elim disjE exE conjE)
        fix m assume "m \<le> length t" "take (j - ?n) (utf8_encode t) = utf8_encode (take m t)"
        then show ?thesis
          unfolding split by (intro disjI1 exI [of _ "Suc m"]) (simp add: utf8_encode_def)
      next
        fix q d i assume "list_all is_scalar q" "is_scalar d" "0 < i" "i < length (utf8_encode_char d)"
          "take (j - ?n) (utf8_encode t) = utf8_encode q @ take i (utf8_encode_char d)"
        with Cons.prems(1) show ?thesis
          unfolding split by (intro disjI2 exI [of _ "c # q"] exI [of _ d] exI [of _ i]) (simp add: utf8_encode_def)
      qed
    qed
  qed (simp add: utf8_encode_def)
  with whole inside show thesis by blast
qed

lemma interrupted_text:
  assumes "list_all is_scalar q" and "is_scalar c" and "0 < i" and "i < length (utf8_encode_char c)"
    and "list_all is_scalar u" and "u \<noteq> []"
  shows "from_utf8 (utf8_encode q @ take i (utf8_encode_char c)) = None"
    and "from_utf8 ((utf8_encode q @ take i (utf8_encode_char c)) @ utf8_encode u) = None"
proof -
  obtain b bs where b: "utf8_encode_char c = b # bs"
    using utf8_encode_char_not_Nil by (metis neq_Nil_conv)
  obtain i' where i: "i = Suc i'"
    using assms(3) gr0_implies_Suc by blast
  have short: "length (b # take i' bs) < utf8_char_width (unat b)"
    using assms(4) first_byte_width [OF assms(2) b] by (simp add: b i)
  obtain d ds where u: "u = d # ds"
    using assms(6) by (cases u) auto
  obtain e es where e: "utf8_encode_char d = e # es"
    using utf8_encode_char_not_Nil by (metis neq_Nil_conv)
  have "fst (utf8_decode_char (b # take i' bs @ e # es @ utf8_encode ds)) = None"
    using decode_interrupted [OF short first_byte_not_cont [OF _ e]] assms(5) u by simp
  then have "None \<in> set (utf8_chunks (take i (utf8_encode_char c) @ utf8_encode u))"
    by (cases "utf8_decode_char (b # take i' bs @ e # es @ utf8_encode ds)") (simp add: b i u e utf8_encode_def)
  then show "from_utf8 ((utf8_encode q @ take i (utf8_encode_char c)) @ utf8_encode u) = None"
    using utf8_chunks_append [OF assms(1)] by (simp add: from_utf8_def Let_def)
  show "from_utf8 (utf8_encode q @ take i (utf8_encode_char c)) = None"
    using utf8_chunks_append [OF assms(1)] cut_char [OF assms(2-4)] by (simp add: from_utf8_def Let_def)
qed

text \<open>The line a fragment of a record makes with the record after it.\<close>

lemma glued_line:
  assumes kv1: "storable (k1, v1)" and kv2: "storable (k2, v2)" and p: "p = take n (utf8_encode (k1 @ comma # v1))"
    and n: "n \<le> length (utf8_encode (k1 @ comma # v1))"
  shows "rehydrate_line m (from_utf8 (p @ utf8_encode (k2 @ comma # v2))) =
    (case from_utf8 p of
       None \<Rightarrow> m
     | Some t \<Rightarrow> if length t \<le> length k1 then AList.update (t @ k2) v2 m
         else AList.update k1 (drop (length k1 + 1) t @ k2 @ comma # v2) m)"
proof -
  let ?t = "k1 @ comma # v1" and ?u = "k2 @ comma # v2"
  have scalars: "list_all is_scalar ?t" "list_all is_scalar ?u"
    using kv1 kv2 by (simp_all add: storable_def comma_def is_scalar_def)
  show ?thesis
    using scalars(1) n
  proof (cases rule: cut_text_cases)
    case (whole i)
    let ?f = "take i ?t"
    have f: "list_all is_scalar ?f"
      using scalars(1) by (metis append_take_drop_id list_all_append)
    have line: "from_utf8 (p @ utf8_encode ?u) = Some (?f @ ?u)"
      unfolding p whole(2) utf8_encode_append [symmetric]
      using f scalars(2) by (simp del: take_append)
    have "split_once comma (?f @ ?u) = (if i \<le> length k1 then Some (?f @ k2, v2) else Some (k1, drop (length k1 + 1) ?f @ ?u))"
    proof (cases "i \<le> length k1")
      case True
      then have "comma \<notin> set (take i k1 @ k2)"
        using kv1 kv2 by (auto simp: storable_def dest: in_set_takeD)
      with True split_once_append [of comma "take i k1 @ k2" v2] show ?thesis by simp
    next
      case False
      then obtain j where "i = length k1 + Suc j"
        by (metis add_Suc_right less_iff_Suc_add not_le)
      with kv1 split_once_append [of comma k1 "take j v1 @ ?u"] show ?thesis
        by (simp add: storable_def)
    qed
    moreover have "from_utf8 p = Some ?f"
      using f whole(2) by (simp add: p del: take_append)
    moreover have "length ?f = i"
      using whole(1) by simp
    ultimately show ?thesis
      unfolding rehydrate_line_def line by simp
  next
    case (inside q c i)
    from interrupted_text [OF inside(1-4) scalars(2)] inside(5) show ?thesis
      by (simp add: p rehydrate_line_def)
  qed
qed

text \<open>A start reads the fragment and the record after it as that one line.\<close>

lemma rehydrate_glued:
  assumes rs: "list_all storable rs" and kv1: "storable (k1, v1)" and kv2: "storable (k2, v2)"
    and p: "p = take n (utf8_encode (k1 @ comma # v1))"
  shows "rehydrate (log_of rs @ p @ record_bytes (k2, v2)) =
    rehydrate_line (foldl upd [] rs) (from_utf8 (p @ utf8_encode (k2 @ comma # v2)))"
proof -
  let ?u = "k2 @ comma # v2"
  let ?line = "p @ utf8_encode ?u"
  have "10 \<notin> set (utf8_encode (k1 @ comma # v1))" and "10 \<notin> set (utf8_encode ?u)"
    using storable_line(1) [OF kv1] storable_line(1) [OF kv2] by simp_all
  moreover have "utf8_encode ?u \<noteq> [] \<and> last (utf8_encode ?u) \<noteq> 13"
    using kv2 by (intro last_utf8) (auto simp: storable_def comma_def is_scalar_def)
  ultimately have "10 \<notin> set ?line" and "strip_cr ?line = ?line"
    by (auto simp: p strip_cr_def dest: in_set_takeD)
  then have "raw_lines [] (p @ record_bytes (k2, v2)) = [?line]"
    using raw_lines_line [of ?line "[]" "[]"] by (simp add: record_bytes_def)
  then show ?thesis
    using rehydrate_log_append [OF rs, of "p @ record_bytes (k2, v2)"] by simp
qed

lemma fragment_not_empty:
  "from_utf8 (take n (utf8_encode t)) = Some f \<Longrightarrow> 0 < n \<Longrightarrow> n \<le> length (utf8_encode t) \<Longrightarrow> f \<noteq> []"
  by (cases "take n (utf8_encode t)") (auto simp: from_utf8_def Let_def split: if_splits prod.splits)

text \<open>
  C32: a write that fails half way is not rolled back. From a database consistent with its log, let the write
  of the record of a \<^verbatim>\<open>set\<close> fail after any number of its bytes but none, and let a \<^verbatim>\<open>set\<close> of another key
  follow whose write succeeds (both records storable: no comma or line feed in a key, no line feed or final
  carriage return in a value). The refused \<^verbatim>\<open>set\<close> is visible in memory; the fragment stays at the end of the
  log, and the record of the acknowledged one is glued to it. So a start finds its key as it was before both.
  What it finds besides depends on the cut: if it fell inside a character, nothing; if it fell before
  the comma, the second value under a key made of the fragment and the second key; otherwise
  under the first key the rest of the fragment and the whole second record.
\<close>

theorem torn_write_loses_next_set:
  assumes "db_inv st" and "storable (k1, v1)" and "storable (k2, v2)" and "k1 \<noteq> k2" and "0 < j"
    and "p = take (min j (length (record_bytes (k1, v1)) - 1)) (record_bytes (k1, v1))"
    and "Engine_set k1 v1 (IoFail j e) st = (res1, st1)" and "Engine_set k2 v2 IoOk st1 = (res2, st2)"
  shows "res1 = Inl e \<and> res2 = Inr () \<and> contents st2 = (contents st)(k1 \<mapsto> v1, k2 \<mapsto> v2) \<and>
    recovered st2 k2 = contents st k2 \<and>
    recovered st2 = (case from_utf8 p of
       None \<Rightarrow> contents st
     | Some t \<Rightarrow> if length t \<le> length k1 then (contents st)(t @ k2 \<mapsto> v2)
         else (contents st)(k1 \<mapsto> drop (length k1 + 1) t @ k2 @ comma # v2))"
proof -
  obtain en fs where st: "st = (en, fs)" by (cases st)
  let ?i = "en_log_file en" and ?t = "k1 @ comma # v1"
  from assms(1) obtain rs where rs: "list_all storable rs" "fs_data fs ?i = log_of rs"
    and m: "map_of (foldl upd [] rs) = contents st" and path: "fs_paths fs DB_PATH = Some ?i"
    by (auto simp: st db_inv_def log_holds_def contents_def)
  obtain n where n: "n \<le> length (utf8_encode ?t)" "0 < n" and p: "p = take n (utf8_encode ?t)"
  proof
    show "min j (length (record_bytes (k1, v1)) - 1) \<le> length (utf8_encode ?t)"
      and "p = take (min j (length (record_bytes (k1, v1)) - 1)) (utf8_encode ?t)"
      using assms(6) by (simp_all add: record_bytes_def)
    show "0 < min j (length (record_bytes (k1, v1)) - 1)"
      using assms(5) by (simp add: record_bytes_def utf8_encode_append) (simp add: utf8_encode_def utf8_encode_char_not_Nil)
  qed
  let ?fs1 = "fs_append ?i p fs"
  let ?fs2 = "fs_append ?i (record_bytes (k2, v2)) ?fs1"
  have st1: "res1 = Inl e" "st1 = (en\<lparr>en_map := AList.update k1 v1 (en_map en)\<rparr>, ?fs1)"
    using assms(7) by (simp_all add: st Engine_set_def fs_write_def assms(6))
  then have st2: "res2 = Inr ()" "snd st2 = ?fs2" "en_map (fst st2) = AList.update k2 v2 (AList.update k1 v1 (en_map en))"
    using assms(8) by (auto simp: Engine_set_def fs_write_def)
  have "fs_data ?fs2 ?i = log_of rs @ p @ record_bytes (k2, v2)" and "fs_paths ?fs2 DB_PATH = Some ?i"
    using path by (simp_all add: fs_append_def rs(2))
  then have "recovered st2 = map_of (rehydrate_line (foldl upd [] rs) (from_utf8 (p @ utf8_encode (k2 @ comma # v2))))"
    using rehydrate_glued [OF rs(1) assms(2,3) p] by (simp add: recovered_def st2(2))
  also have "\<dots> = (case from_utf8 p of
       None \<Rightarrow> contents st
     | Some t \<Rightarrow> if length t \<le> length k1 then (contents st)(t @ k2 \<mapsto> v2)
         else (contents st)(k1 \<mapsto> drop (length k1 + 1) t @ k2 @ comma # v2))"
    unfolding glued_line [OF assms(2,3) p n(1)] by (simp add: m update_conv' split: option.split)
  finally have rec: "recovered st2 = \<dots>" .
  have "t \<noteq> []" if "from_utf8 p = Some t" for t
    using fragment_not_empty [of n ?t t] that n by (simp add: p)
  then have "recovered st2 k2 = contents st k2"
    unfolding rec using assms(4) by (auto split: option.split)
  with rec st1 st2 show ?thesis
    by (simp add: contents_def update_conv' st)
qed

section \<open>Examples\<close>

text \<open>A log of one broken line and one without an end.\<close>

theorem compaction_repairs_log_witness:
  "let fs = fs_append 0 [255, 10, 97, 44, 49] (snd (engine_start rev_order)) in
   \<exists>en st st'. Engine_new DB_PATH IoOk rev_order fs = (Inr en, fs) \<and> Engine_compact CompactOk (en, fs) = (Inr (), st) \<and>
     recovered st = [[97] \<mapsto> [49]] \<and> Engine_sets [(kB, [50]), (kB, [51])] st = ([Inr (), Inr ()], st') \<and>
     recovered st' = [[97] \<mapsto> [49], kB \<mapsto> [51]]"
proof -
  let ?fs = "fs_append 0 [255, 10, 97, 44, 49] (snd (engine_start rev_order))"
  have fs: "fs_ok ?fs" "fs_paths ?fs DB_PATH = Some 0"
    by (simp_all add: engine_start_def fs_create_def fs_empty_def fs_ok_def fs_append_def)
  have "fs_data ?fs 0 = [255, 10, 97, 44, 49]"
    by (simp add: engine_start_def fs_append_def fs_create_def fs_empty_def)
  then have found: "rehydrate (fs_data ?fs 0) = [([97], [49])]"
    by (simp add: rehydrate_def buf_lines_def strip_cr_def from_utf8_def utf8_simps byte_at_def rehydrate_line_def comma_def)
  have kvs: "list_all storable [(kB, [50]), (kB, [51])]"
    by (simp add: storable_sample is_scalar_def)
  have no_cr: "\<forall>k v. map_of (rehydrate (fs_data ?fs 0)) k = Some v \<longrightarrow> v \<noteq> [] \<longrightarrow> last v \<noteq> 13"
    by (simp add: found)
  obtain en st where start: "Engine_new DB_PATH IoOk rev_order ?fs = (Inr en, ?fs)" "Engine_compact CompactOk (en, ?fs) = (Inr (), st)"
    and st: "contents st = map_of (rehydrate (fs_data ?fs 0))" "recovered st = contents st"
    and all: "\<forall>kvs. list_all storable kvs \<longrightarrow> (\<exists>st'. Engine_sets kvs st = (replicate (length kvs) (Inr ()), st') \<and>
      contents st' = contents st ++ map_of (rev kvs) \<and> recovered st' = contents st')"
    using compaction_repairs_log [OF fs rev_order no_cr] by blast
  obtain st' where "Engine_sets [(kB, [50]), (kB, [51])] st = (replicate (length [(kB, [50]), (kB, [51 :: nat])]) (Inr ()), st')"
    and "contents st' = contents st ++ map_of (rev [(kB, [50]), (kB, [51])])" and "recovered st' = contents st'"
    using all [rule_format, OF kvs] by blast
  then have "Engine_sets [(kB, [50]), (kB, [51])] st = ([Inr (), Inr ()], st')" and "recovered st' = [[97] \<mapsto> [49], kB \<mapsto> [51]]"
    using st found by simp_all
  moreover have "recovered st = [[97] \<mapsto> [49]]"
    using st found by simp
  ultimately show ?thesis
    using start unfolding Let_def by blast
qed

text \<open>The power fails in the SET of 12 under a; the next process is told to store 3 under b.\<close>

theorem torn_record_swallows_next_witness:
  "\<exists>fs1 en1 st2. Engine_new DB_PATH IoOk rev_order fs1 = (Inr en1, fs1) \<and> Engine_set kB [51] IoOk (en1, fs1) = (Inr (), st2) \<and>
     contents st2 kB = Some [51] \<and> recovered st2 kB = None \<and> recovered st2 kA = Some (49 # kB @ [comma, 51])"
proof -
  have inv: "db_inv (fst (engine_start rev_order), snd (engine_start rev_order))"
    using db_inv_start [OF rev_order] by simp
  have st: "storable (kA, [49, 50])" "storable (kB, [51])"
    by (simp_all add: storable_sample is_scalar_def)
  have "kB \<noteq> kA"
    by (simp add: kA_def kB_def ascii_def)
  from torn_record_swallows_next [OF inv st(1) _ st(2) this, of 1 rev_order] show ?thesis
    by (auto simp: contents_def engine_start_def)
qed

text \<open>The disk is full after the first byte of the record of a, and has room again for that of b.\<close>

theorem torn_write_loses_next_set_witness:
  "let st1 = snd (Engine_set kA [49] (IoFail 1 []) (engine_start rev_order));
       st2 = snd (Engine_set kB [50] IoOk st1) in
   contents st2 = [kA \<mapsto> [49], kB \<mapsto> [50]] \<and> recovered st2 = [kA @ kB \<mapsto> [50]]"
proof -
  let ?st = "engine_start rev_order"
  obtain r1 st1 where 1: "Engine_set kA [49] (IoFail 1 []) ?st = (r1, st1)" by (rule prod.exhaust)
  obtain r2 st2 where 2: "Engine_set kB [50] IoOk st1 = (r2, st2)" by (rule prod.exhaust)
  have ok: "storable (kA, [49])" "storable (kB, [50])" "kA \<noteq> kB"
    by (simp_all add: storable_sample is_scalar_def) (simp add: kA_def kB_def ascii_def)
  have "take (min 1 (length (record_bytes (kA, [49])) - 1)) (record_bytes (kA, [49])) = [97]"
    by (simp add: record_bytes_def kA_def ascii_def utf8_encode_def utf8_encode_char_def comma_def)
  note torn = torn_write_loses_next_set [OF db_inv_start [OF rev_order] ok _ this [symmetric] 1 2]
  have "from_utf8 [97] = Some kA"
    by (simp add: from_utf8_def utf8_simps byte_at_def kA_def ascii_def)
  with torn 1 2 show ?thesis
    by (simp add: Let_def contents_def engine_start_def)
qed

end
