(* ===== verification/Spec2Isabelle.thy ===== *)
theory Spec2Isabelle
  imports Throughput_Bench Proxy_Backend Ipc_Bridge Chronos_Client Chronos_Mvp Many_Sessions Unit_Tests
    Aegis_Main Ryu_System Chronos_Restart
begin

text \<open>
  A model of the Vanguard infrastructure, four Rust programs that work together, and the theorems
  that make it correct.

  The program. A browser page sends pen strokes as 13-byte WebSocket frames to AEGIS
  (\<^verbatim>\<open>aegis/src/main.rs\<close>). AEGIS stamps each stroke with the id of its session, the time and its
  trace context and pushes it into a ring buffer in shared memory (\<^verbatim>\<open>shared-ipc/src/lib.rs\<close>).
  CELER (\<^verbatim>\<open>celer/src/main.rs\<close>) maps the same memory, pops the strokes, runs one state machine per
  session and broadcasts a precision reading per move to the browsers that listen. Beside this
  AEGIS is a TCP proxy, one \<^verbatim>\<open>io_uring\<close> thread per core, in front of Chronos (\<^verbatim>\<open>chronos/src\<close>), a
  key-value server with an append-only log. Chronos ships a command line, a load generator and an
  earlier time-travel store (\<^verbatim>\<open>chronos/src/bin\<close>).

  The theories, in the order in which the code builds up.

    \<^item> \<open>Prelude\<close>: type names for the machine integers, little-endian bytes, the collections
      \<open>handle_defs\<close> and \<open>step_inv\<close>, and lemmas on words and lists. \<open>Channel\<close>: the bounded FIFO
      queue, scripts of pushes and pops, and the locale \<open>spsc_channel\<close>, the contract of a channel.
    \<^item> \<open>Stroke_Event\<close>: the event and its \<^verbatim>\<open>repr(C, align(64))\<close> layout, computed from the declared
      fields; \<open>load_store_event\<close> is the passage of an event through shared memory.
    \<^item> \<open>Shared_Ring\<close>: \<^verbatim>\<open>push\<close> and \<^verbatim>\<open>pop\<close> on wrapping 64-bit counters with their cached copies. The
      ring interprets \<open>spsc_channel\<close>; it refines the bounded queue and conserves its events.
    \<^item> \<open>Ring_Memory\<close>: the same two operations on the bytes of the mapped file, counters and slots at their
      \<^verbatim>\<open>repr(C)\<close> offsets; from the zero-filled file on they refine the ring, hence the bounded queue.
    \<^item> \<open>Ring_Concurrency\<close>: the same two operations access by access, as an inductive step relation
      with acquire loads that may be stale and cloned producer handles. An invariant by rule
      induction gives order, capacity, the absence of data races and progress.
    \<^item> \<open>Throughput_Bench\<close>: the two loops of \<^verbatim>\<open>shared-ipc/examples/throughput.rs\<close> on these two models.
    \<^item> \<open>Stroke_Payload\<close>: the frame parser of AEGIS and the encoder of the page. \<open>Aegis_Session\<close>: the
      session loop, and the accept loop with its counter and its clones of the producer, refined to
      sessions that share one queue.
    \<^item> \<open>Aegis_Proxy\<close>: the connection task of the proxy cut at its awaits, the buffer and pipe pools,
      the connection guard, the counters, and the \<^verbatim>\<open>RefCell\<close> borrow that lives across an await.
      \<open>Aegis_Ops\<close>: the handshake with CELER, the metrics text and the ticker. \<open>Ipc_Bridge\<close>: the
      creation, sealing, mapping and passing of the file that holds the ring, with the system calls as
      a parameter; that CELER gets the same file, that no access to the ring can ever fall outside it,
      and that the hand-over is tried once only.
    \<^item> \<open>Aegis_Main\<close>: the process of AEGIS around the dojo and the proxy. Every core thread sets up its
      socket or panics; the main thread runs the dojo, the metrics endpoint and the ticker, loading
      the counters one by one, until the interrupt, and then joins the cores. Its steps are steps of
      the dojo and of the proxy, so their invariants carry over; it shows that the exit is clean, that
      the interrupt ends the process, and that the metrics are monotone.
    \<^item> \<open>F32\<close>: IEEE binary32 addition, multiplication and comparison on bit patterns, round to nearest
      even. \<open>Celer_Fsm\<close>: the session state machine and its pool. \<open>Celer_Engine\<close>: the hot loop on
      the ring, the trace parent of each event, the forwarding loop and the display.
    \<^item> \<open>Rust_Text\<close>: strings as lists of Unicode scalar values, UTF-8 and its lossy decoding, white
      space, case, lines and decimal numbers. \<open>Chronos_Parser\<close>: \<^verbatim>\<open>chronos/src/parser.rs\<close>.
      \<open>Chronos_Engine\<close>: \<^verbatim>\<open>chronos/src/engine.rs\<close> on a file system of inodes whose calls may fail
      and whose writes may tear. \<open>Chronos_Crash\<close>: the same engine and a loss of power, with a disk
      that lags behind the file system. \<open>Chronos_Restart\<close>: what a start makes of a cut log, or of any bytes, what
      the sets after a crash or a failed write are worth, and that a compaction repairs any log. \<open>Chronos_Server\<close>: \<^verbatim>\<open>chronos/src/server.rs\<close>, the start-up and
      the interrupt handler of \<^verbatim>\<open>chronos/src/main.rs\<close>; the locale \<open>kv_store\<close> is what it needs of the engine, and
      the engine interprets it. \<open>Chronos_Client\<close>: the command line and the load generator.
      \<open>Chronos_Mvp\<close>: the time-travel store with its binary search.
    \<^item> \<open>Pipeline\<close>: frames of the page to readings of CELER, end to end, for one session.
      \<open>Many_Sessions\<close>: many sessions at once, each measured as if it were alone.
      \<open>Celer_Browser\<close>: from the frames of one page to the messages another one gets.
      \<open>Celer_Main\<close>: the process of CELER around the hot loop. The thread that takes over the ring and
      drains it, the display, the server and any number of browsers run in any order, with the pushes
      of AEGIS in between; every browser gets the readings measured since it connected, in order, but
      for those the channel says it skipped. The hot loop never panics; a hand-over that failed is noticed
      by none of the other threads.
      \<open>Proxy_Backend\<close>: the proxy and the server together, with the bytes in flight on every pipe:
      each client gets the answer to its own request while requests fit one read, and how a longer
      one puts the answers out of step. It rests on \<open>Answer_Bounds\<close>: an answer of the server never
      exceeds 4096 bytes, because a command is read in at most 512.
      \<open>Ryu_System\<close>: the composition of AEGIS and CELER on the ring they share, a step of one side at
      a time: from the frames of every page to the messages of every browser.
    \<^item> \<open>Unit_Tests\<close>: the unit tests of the repository as definitions, and that the model passes them.

  Conventions. A Rust struct is a record, an enum a datatype, an integer a word of its width, an
  \<^verbatim>\<open>f32\<close> its bit pattern. A function that may panic returns a sum or an option with the panic as
  a value; a handle mutated in place is passed and returned. What comes from outside (arrival of
  bytes, completion and failure of system calls, the clock, span ids) is an argument or an event.
  Loops run over the list of the inputs they consume, so no fuel is needed: a statement about
  every list is a statement about every prefix of an unbounded run. The benchmark loops run over
  their iteration count.

  Bounds. Counters wrap at \<open>2 ^ 64\<close> as in the code. The single handle of the ring is correct for
  ever; clones of it (one per session) may lag behind by any amount, and the theorems about clones
  hold for the first \<open>2 ^ 64\<close> steps. CELER's pool has 65536 slots; ids that agree modulo 65536
  share one.

  Parameters. \<^verbatim>\<open>hypot\<close> of the C library (only that a NaN operand without an infinite one gives a
  NaN is used, and only where stated), \<^verbatim>\<open>serde_json\<close> and \<^verbatim>\<open>bincode\<close> (the latter with the round
  trip it documents), the placement of received bytes in a buffer by \<^verbatim>\<open>tokio_uring\<close>, and the
  iteration order of a hash map (a permutation). The kernel around the shared file is a record of its
  system calls with the promises of their manual pages (\<open>kernel_api\<close>, \<open>memfd_documented\<close>); the small
  kernel at the end of \<open>Ipc_Bridge\<close> only shows that they can be kept. The broadcast channel between the readings and the
  browsers is what its documentation promises (\<open>recv_trace\<close>, \<open>broadcast_recv\<close>). The disk may hold of a file any
  length from what was last synchronised, and of the directory any version since (\<open>admissible\<close>);
  the data of a file are on the disk before the length that covers them.

  Not modelled. The set-up of OpenTelemetry (\<^verbatim>\<open>aegis/src/otel.rs\<close>, \<^verbatim>\<open>celer/src/otel.rs\<close>) only
  configures libraries. \<^verbatim>\<open>aegis-mock\<close> prints a greeting. Thread pinning, logging, timing,
  terminal drawing, the warp routes and the canvas code of the page have no state that the
  rest of the program reads. A loss of power is modelled from a state the disk has caught up
  with, not while the disk still lags behind from before another one. An answer of Chronos whose write
  fails delivers nothing in the model, not a part of it; the proxy hands a request or an answer over as a
  whole or not at all, and its byte counter counts when the write is submitted, as the code does. The
  time-travel store opens its file for every read; that this fails is not modelled. \<^verbatim>\<open>FlameGraph\<close> is
  third-party.
\<close>

end
